(* ===== verification/Prelude.thy ===== *)
theory Prelude
  imports Main "HOL-Library.Word"
begin

text \<open>
  What every component of the development shares.

  \<^item> the widths of the C types of \<^verbatim>\<open>kernel/types.h\<close>;
  \<^item> the names of the kernel's locks and of the channels processes sleep on;
  \<^item> the outcome of running a piece of kernel code: it returns a value, it panics, it spins on
    a lock another hart holds, or it gives the CPU to the scheduler; and the combinators that
    sequence such pieces of code;
  \<^item> \<open>keeps\<close>: the piece of code preserves a predicate of the state whenever it returns, with
    the rules that carry it through the combinators;
  \<^item> lemmas on words that the address and ring arithmetic of the components use.
\<close>

unbundle bit_operations_syntax

section \<open>Machine types\<close>

type_synonym uchar = "8 word"
type_synonym ushort = "16 word"
type_synonym uint = "32 word"
type_synonym uint64 = "64 word"

section \<open>Names of kernel objects\<close>

text \<open>A sleep lock sits inside a buffer or inside an in-memory inode.\<close>

datatype sleepid = BufSleep nat | InodeSleep nat

text \<open>Every spin lock of the kernel, by the object it belongs to.\<close>

datatype lockid =
    KmemLock | PidLock | WaitLock | ProcLock nat | BcacheLock | SleepSpin sleepid
  | LogLock | ItableLock | FtableLock | PipeLock uint64 | ConsLock | TxLock | PrLock
  | TicksLock | VdiskLock

text \<open>The addresses the kernel passes to \<^verbatim>\<open>sleep\<close> and \<^verbatim>\<open>wakeup\<close>.\<close>

datatype chan =
    ProcChan nat | SleepChan sleepid | LogChan | PipeNread uint64 | PipeNwrite uint64
  | ConsR | TxChan | TicksChan | DiskFree | BufChan nat

section \<open>Outcomes and sequencing\<close>

text \<open>
  \<open>Done x s\<close>: the code returned \<open>x\<close> in state \<open>s\<close>. \<open>Panic m\<close>: it called
  \<^verbatim>\<open>panic(m)\<close>, which never returns. \<open>Spin l s\<close>: it busy-waits in \<open>acquire\<close>
  for lock \<open>l\<close>. \<open>Switch s\<close>: it called \<open>sched\<close> and the scheduler runs from \<open>s\<close>.
  \<open>Diverge\<close>: a loop of the model used up its fuel.
\<close>

datatype ('s, 'a) outcome =
    Done 'a 's
  | Panic string
  | Spin lockid 's
  | Switch 's
  | Diverge

type_synonym ('s, 'a) kop = "'s \<Rightarrow> ('s, 'a) outcome"

definition kret :: "'a \<Rightarrow> ('s, 'a) kop" where
  "kret x s = Done x s"

definition kpanic :: "string \<Rightarrow> ('s, 'a) kop" where
  "kpanic m s = Panic m"

definition kbind :: "('s, 'a) kop \<Rightarrow> ('a \<Rightarrow> ('s, 'b) kop) \<Rightarrow> ('s, 'b) kop" where
  "kbind m f s =
     (case m s of
        Done x t \<Rightarrow> f x t
      | Panic e \<Rightarrow> Panic e
      | Spin l t \<Rightarrow> Spin l t
      | Switch t \<Rightarrow> Switch t
      | Diverge \<Rightarrow> Diverge)"

definition kseq :: "('s, 'a) kop \<Rightarrow> ('s, 'b) kop \<Rightarrow> ('s, 'b) kop" where
  "kseq m n = kbind m (\<lambda>_. n)"

definition kget :: "('s \<Rightarrow> 'a) \<Rightarrow> ('s, 'a) kop" where
  "kget f s = Done (f s) s"

definition kmod :: "('s \<Rightarrow> 's) \<Rightarrow> ('s, unit) kop" where
  "kmod f s = Done () (f s)"

definition kwhen :: "bool \<Rightarrow> ('s, unit) kop \<Rightarrow> ('s, unit) kop" where
  "kwhen b m = (if b then m else kret ())"

text \<open>Running one piece of code for every element of a list, in order.\<close>

fun kfor :: "'b list \<Rightarrow> ('b \<Rightarrow> ('s, unit) kop) \<Rightarrow> ('s, unit) kop" where
  "kfor [] f = kret ()"
| "kfor (x # xs) f = kseq (f x) (kfor xs f)"

section \<open>Evaluation rules\<close>

named_theorems kop_simps \<open>evaluation of the combinators\<close>

lemma kret_eval [simp, kop_simps]: "kret x s = Done x s"
  by (simp add: kret_def)

lemma kpanic_eval [simp, kop_simps]: "kpanic m s = Panic m"
  by (simp add: kpanic_def)

lemma kget_eval [simp, kop_simps]: "kget f s = Done (f s) s"
  by (simp add: kget_def)

lemma kmod_eval [simp, kop_simps]: "kmod f s = Done () (f s)"
  by (simp add: kmod_def)

lemma kwhen_eval [simp, kop_simps]: "kwhen b m s = (if b then m s else Done () s)"
  by (simp add: kwhen_def)

lemma kbind_Done [simp, kop_simps]: "m s = Done x t \<Longrightarrow> kbind m f s = f x t"
  by (simp add: kbind_def)

lemma kbind_Panic [simp, kop_simps]: "m s = Panic e \<Longrightarrow> kbind m f s = Panic e"
  by (simp add: kbind_def)

lemma kbind_Spin [simp, kop_simps]: "m s = Spin l t \<Longrightarrow> kbind m f s = Spin l t"
  by (simp add: kbind_def)

lemma kbind_Switch [simp, kop_simps]: "m s = Switch t \<Longrightarrow> kbind m f s = Switch t"
  by (simp add: kbind_def)

lemma kbind_Diverge [simp, kop_simps]: "m s = Diverge \<Longrightarrow> kbind m f s = Diverge"
  by (simp add: kbind_def)

lemma kseq_eval [simp, kop_simps]: "kseq m n s = kbind m (\<lambda>_. n) s"
  by (simp add: kseq_def)

lemma kbind_eq_Done:
  "kbind m f s = Done y t \<longleftrightarrow> (\<exists>x u. m s = Done x u \<and> f x u = Done y t)"
  by (auto simp: kbind_def split: outcome.splits)

lemma kbind_assoc: "kbind (kbind m f) g = kbind m (\<lambda>x. kbind (f x) g)"
  by (rule ext) (simp add: kbind_def split: outcome.splits)

lemma kseq_assoc: "kseq (kseq m n) k = kseq m (kseq n k)"
  by (simp add: kseq_def kbind_assoc)

lemma kseq_Done: "kseq m n s = Done y t \<Longrightarrow> kseq m (kseq n k) s = k t"
  unfolding kseq_assoc [symmetric] by (subst kseq_eval) simp

lemma kbind_if: "kbind (if b then m else n) f s = (if b then kbind m f s else kbind n f s)"
  by simp

lemma kfor_append: "kfor (xs @ ys) f s = kbind (kfor xs f) (\<lambda>_. kfor ys f) s"
  by (induction xs arbitrary: s) (auto simp: kbind_def split: outcome.splits)

section \<open>Predicates that code keeps\<close>

text \<open>
  \<open>keeps I m\<close>: if \<open>m\<close> starts where \<open>I\<close> holds and returns, \<open>I\<close> holds where it returns.
\<close>

definition keeps :: "('s \<Rightarrow> bool) \<Rightarrow> ('s, 'a) kop \<Rightarrow> bool" where
  "keeps I m \<longleftrightarrow> (\<forall>s x t. I s \<longrightarrow> m s = Done x t \<longrightarrow> I t)"

named_theorems keeps_rules \<open>rules that carry keeps through the combinators\<close>

lemma keepsI [intro?]: "(\<And>s x t. I s \<Longrightarrow> m s = Done x t \<Longrightarrow> I t) \<Longrightarrow> keeps I m"
  by (simp add: keeps_def)

lemma keepsD: "keeps I m \<Longrightarrow> I s \<Longrightarrow> m s = Done x t \<Longrightarrow> I t"
  by (auto simp: keeps_def)

lemma keeps_ret [keeps_rules]: "keeps I (kret x)"
  by (simp add: keeps_def)

lemma keeps_panic [keeps_rules]: "keeps I (kpanic e)"
  by (simp add: keeps_def)

lemma keeps_get [keeps_rules]: "keeps I (kget f)"
  by (simp add: keeps_def)

lemma keeps_mod: "(\<And>s. I s \<Longrightarrow> I (f s)) \<Longrightarrow> keeps I (kmod f)"
  by (simp add: keeps_def)

lemma keeps_bind [keeps_rules]:
  "keeps I m \<Longrightarrow> (\<And>x. keeps I (f x)) \<Longrightarrow> keeps I (kbind m f)"
  unfolding keeps_def kbind_eq_Done by blast

lemma keeps_seq [keeps_rules]: "keeps I m \<Longrightarrow> keeps I n \<Longrightarrow> keeps I (kseq m n)"
  unfolding kseq_def by (rule keeps_bind)

lemma keeps_when [keeps_rules]: "(b \<Longrightarrow> keeps I m) \<Longrightarrow> keeps I (kwhen b m)"
  by (simp add: kwhen_def keeps_ret)

lemma keeps_if [keeps_rules]:
  "(b \<Longrightarrow> keeps I m) \<Longrightarrow> (\<not> b \<Longrightarrow> keeps I n) \<Longrightarrow> keeps I (if b then m else n)"
  by simp

lemma keeps_for [keeps_rules]:
  "(\<And>x. x \<in> set xs \<Longrightarrow> keeps I (f x)) \<Longrightarrow> keeps I (kfor xs f)"
  by (induction xs) (auto intro: keeps_ret keeps_seq)

section \<open>Words\<close>

named_theorems word_to_nat \<open>reading word arithmetic as arithmetic on nat\<close>

lemmas unat_ariths [word_to_nat] = unat_word_ariths

lemma unat_add_nowrap [word_to_nat]:
  "unat (a :: 'a :: len word) + unat b < 2 ^ LENGTH('a) \<Longrightarrow> unat (a + b) = unat a + unat b"
  by (simp add: unat_word_ariths)

lemma unat_of_nat_small [simp]:
  "n < 2 ^ LENGTH('a) \<Longrightarrow> unat (of_nat n :: 'a :: len word) = n"
  by (simp add: unat_of_nat take_bit_nat_eq_self_iff)

lemma unat_bound64: "unat (a :: uint64) < 18446744073709551616"
  by (rule order_less_le_trans [OF unsigned_less]) simp

lemma unat_bound32: "unat (a :: uint) < 4294967296"
  by (rule order_less_le_trans [OF unsigned_less]) simp

lemma word_offset_iff:
  "n < 2 ^ LENGTH('a) \<Longrightarrow> a = b + of_nat n \<longleftrightarrow> unat (a - b :: 'a :: len word) = n"
  by (metis add_diff_cancel_left' diff_add_cancel add.commute unat_of_nat_small word_unat_eq_iff)

lemma unat_minus_1: "x \<noteq> 0 \<Longrightarrow> unat (x - 1 :: 'a :: len word) = unat x - 1"
  by (simp add: unat_minus_one)

lemma unat_ucast_32_64 [simp]: "unat (ucast (n :: uint) :: uint64) = unat n"
  by (simp add: unsigned_ucast_eq take_bit_nat_eq_self_iff order_less_trans [OF unat_bound32])

lemma of_nat_unat_ucast [simp]: "of_nat (unat (n :: uint)) = (ucast n :: uint64)"
  by (simp add: word_unat_eq_iff)

lemma unat_sub_le: "b \<le> a \<Longrightarrow> unat ((a :: 'a :: len word) - b) = unat a - unat b"
  by (simp add: unat_sub)

end
