(* ===== verification/CString.thy ===== *)
theory CString
  imports Prelude
begin

text \<open>
  \<^verbatim>\<open>kernel/string.c\<close> over a byte-addressed memory, and the little-endian views that the
  kernel's pointer casts take of bytes.

  A memory maps 64-bit addresses to bytes. The routines that write (\<open>memset\<close>, \<open>memmove\<close>)
  run on the memory itself, since overlap of their regions matters; the routines on character
  arrays work on the array seen from a pointer, a function from offsets to bytes.
  The loops are the ones of the source, counting as they count there. The lemmas give each
  routine its closed form, and these closed forms are what the other components use.
\<close>

type_synonym mem = "uint64 \<Rightarrow> uchar"
type_synonym cstr = "nat \<Rightarrow> uchar"

text \<open>The array a pointer into memory points to.\<close>

definition at_ptr :: "mem \<Rightarrow> uint64 \<Rightarrow> cstr" where
  "at_ptr m p i = m (p + of_nat i)"

section \<open>memset, memcmp, memmove\<close>

function memset_loop :: "mem \<Rightarrow> uint64 \<Rightarrow> uchar \<Rightarrow> nat \<Rightarrow> nat \<Rightarrow> mem" where
  "memset_loop m dst c i n =
     (if i < n then memset_loop (m(dst + of_nat i := c)) dst c (Suc i) n else m)"
  by pat_completeness auto
termination
  by (relation "measure (\<lambda>(m, dst, c, i, n). n - i)") auto

definition memset :: "mem \<Rightarrow> uint64 \<Rightarrow> uint \<Rightarrow> uint \<Rightarrow> mem" where
  "memset m dst c n = memset_loop m dst (ucast c) 0 (unat n)"

fun memcmp :: "cstr \<Rightarrow> cstr \<Rightarrow> nat \<Rightarrow> int" where
  "memcmp s1 s2 0 = 0"
| "memcmp s1 s2 (Suc n) =
     (if s1 0 \<noteq> s2 0 then uint (s1 0) - uint (s2 0)
      else memcmp (\<lambda>i. s1 (Suc i)) (\<lambda>i. s2 (Suc i)) n)"

text \<open>The two loops of \<open>memmove\<close>: \<^verbatim>\<open>*--d = *--s\<close> and \<^verbatim>\<open>*d++ = *s++\<close>.\<close>

fun move_back :: "mem \<Rightarrow> uint64 \<Rightarrow> uint64 \<Rightarrow> nat \<Rightarrow> mem" where
  "move_back m d s 0 = m"
| "move_back m d s (Suc n) = move_back (m(d - 1 := m (s - 1))) (d - 1) (s - 1) n"

fun move_fwd :: "mem \<Rightarrow> uint64 \<Rightarrow> uint64 \<Rightarrow> nat \<Rightarrow> mem" where
  "move_fwd m d s 0 = m"
| "move_fwd m d s (Suc n) = move_fwd (m(d := m s)) (d + 1) (s + 1) n"

definition memmove :: "mem \<Rightarrow> uint64 \<Rightarrow> uint64 \<Rightarrow> uint \<Rightarrow> mem" where
  "memmove m dst src n =
     (if n = 0 then m
      else if src < dst \<and> src + ucast n > dst
      then move_back m (dst + ucast n) (src + ucast n) (unat n)
      else move_fwd m dst src (unat n))"

definition memcpy :: "mem \<Rightarrow> uint64 \<Rightarrow> uint64 \<Rightarrow> uint \<Rightarrow> mem" where
  "memcpy m dst src n = memmove m dst src n"

section \<open>Character arrays\<close>

fun strncmp :: "cstr \<Rightarrow> cstr \<Rightarrow> nat \<Rightarrow> int" where
  "strncmp p q 0 = 0"
| "strncmp p q (Suc n) =
     (if p 0 \<noteq> 0 \<and> p 0 = q 0 then strncmp (\<lambda>i. p (Suc i)) (\<lambda>i. q (Suc i)) n
      else uint (p 0) - uint (q 0))"

text \<open>\<open>strncpy\<close>: copy until a NUL has been copied, then write zeros up to \<open>n\<close>.\<close>

fun strncpy_pad :: "cstr \<Rightarrow> nat \<Rightarrow> nat \<Rightarrow> cstr" where
  "strncpy_pad s i 0 = s"
| "strncpy_pad s i (Suc n) = strncpy_pad (s(i := 0)) (Suc i) n"

fun strncpy_loop :: "cstr \<Rightarrow> cstr \<Rightarrow> nat \<Rightarrow> nat \<Rightarrow> cstr" where
  "strncpy_loop s t i 0 = s"
| "strncpy_loop s t i (Suc n) =
     (if t i \<noteq> 0 then strncpy_loop (s(i := t i)) t (Suc i) n
      else strncpy_pad (s(i := t i)) (Suc i) n)"

definition strncpy :: "cstr \<Rightarrow> cstr \<Rightarrow> int \<Rightarrow> cstr" where
  "strncpy s t n = strncpy_loop s t 0 (nat n)"

text \<open>
  \<open>safestrcpy\<close>: the loop runs while \<^verbatim>\<open>--n > 0\<close>, so its counter here is what is left
  after the decrement; the final \<^verbatim>\<open>*s = 0\<close> writes one past the last byte copied.
\<close>

fun safestrcpy_loop :: "cstr \<Rightarrow> cstr \<Rightarrow> nat \<Rightarrow> nat \<Rightarrow> cstr" where
  "safestrcpy_loop s t i 0 = s(i := 0)"
| "safestrcpy_loop s t i (Suc k) =
     (if t i \<noteq> 0 then safestrcpy_loop (s(i := t i)) t (Suc i) k
      else (s(i := t i))(Suc i := 0))"

definition safestrcpy :: "cstr \<Rightarrow> cstr \<Rightarrow> int \<Rightarrow> cstr" where
  "safestrcpy s t n = (if n \<le> 0 then s else safestrcpy_loop s t 0 (nat (n - 1)))"

text \<open>\<open>strlen\<close> runs until it meets a NUL; without one it does not return.\<close>

partial_function (option) strlen_from :: "cstr \<Rightarrow> nat \<Rightarrow> nat option" where
  "strlen_from s n = (if s n \<noteq> 0 then strlen_from s (Suc n) else Some n)"

definition strlen :: "cstr \<Rightarrow> nat option" where
  "strlen s = strlen_from s 0"

text \<open>The array starts with the characters \<open>xs\<close>, none of them NUL, and then a NUL.\<close>

definition holds_str :: "cstr \<Rightarrow> uchar list \<Rightarrow> bool" where
  "holds_str s xs \<longleftrightarrow> (\<forall>i < length xs. s i = xs ! i) \<and> 0 \<notin> set xs \<and> s (length xs) = 0"

section \<open>Little-endian views\<close>

definition get16 :: "cstr \<Rightarrow> nat \<Rightarrow> ushort" where
  "get16 f i = ucast (f i) OR push_bit 8 (ucast (f (i + 1)))"

definition put16 :: "cstr \<Rightarrow> nat \<Rightarrow> ushort \<Rightarrow> cstr" where
  "put16 f i v = f(i := ucast v, i + 1 := ucast (drop_bit 8 v))"

definition get32 :: "cstr \<Rightarrow> nat \<Rightarrow> uint" where
  "get32 f i = ucast (f i) OR push_bit 8 (ucast (f (i + 1)))
     OR push_bit 16 (ucast (f (i + 2))) OR push_bit 24 (ucast (f (i + 3)))"

definition put32 :: "cstr \<Rightarrow> nat \<Rightarrow> uint \<Rightarrow> cstr" where
  "put32 f i v = f(i := ucast v, i + 1 := ucast (drop_bit 8 v),
     i + 2 := ucast (drop_bit 16 v), i + 3 := ucast (drop_bit 24 v))"

definition get64 :: "cstr \<Rightarrow> nat \<Rightarrow> uint64" where
  "get64 f i = ucast (get32 f i) OR push_bit 32 (ucast (get32 f (i + 4)))"

definition put64 :: "cstr \<Rightarrow> nat \<Rightarrow> uint64 \<Rightarrow> cstr" where
  "put64 f i v = put32 (put32 f i (ucast v)) (i + 4) (ucast (drop_bit 32 v))"

text \<open>A 64-bit load and store at an address.\<close>

definition read64 :: "mem \<Rightarrow> uint64 \<Rightarrow> uint64" where
  "read64 m a = get64 (at_ptr m a) 0"

definition write64 :: "mem \<Rightarrow> uint64 \<Rightarrow> uint64 \<Rightarrow> mem" where
  "write64 m a v = (\<lambda>x. if unat (x - a) < 8 then put64 (\<lambda>_. 0) 0 v (unat (x - a)) else m x)"

section \<open>Closed forms\<close>

declare memset_loop.simps [simp del]

lemma memset_loop_closed:
  "i \<le> n \<Longrightarrow> n \<le> 2 ^ 64 \<Longrightarrow>
   memset_loop m dst c i n = (\<lambda>a. if i \<le> unat (a - dst) \<and> unat (a - dst) < n then c else m a)"
proof (induction m dst c i n rule: memset_loop.induct)
  case (1 m dst c i n)
  show ?case
  proof (cases "i < n")
    case True
    then have hit: "a = dst + of_nat i \<longleftrightarrow> unat (a - dst) = i" for a
      using "1.prems" by (intro word_offset_iff) simp
    have IH: "memset_loop (m(dst + of_nat i := c)) dst c (Suc i) n =
        (\<lambda>a. if Suc i \<le> unat (a - dst) \<and> unat (a - dst) < n then c
             else (m(dst + of_nat i := c)) a)"
      using True "1.IH" "1.prems" by (simp add: fun_upd_def)
    show ?thesis
      using True by (auto simp: memset_loop.simps [of m dst c i n] IH fun_eq_iff hit)
  next
    case False
    then show ?thesis using "1.prems" by (subst memset_loop.simps) (auto simp: fun_eq_iff)
  qed
qed

lemma memset_closed:
  "memset m dst c n = (\<lambda>a. if unat (a - dst) < unat n then ucast c else m a)"
proof -
  have "unat n \<le> 2 ^ 64" using unat_bound32 [of n] by (rule order.trans [OF less_imp_le]) simp
  then show ?thesis by (simp add: memset_def memset_loop_closed)
qed

text \<open>
  Copying upwards is right when no byte still to be read is overwritten: the destination does
  not start inside the source, behind its first byte. Copying downwards is the mirror image.
\<close>

lemma move_fwd_closed:
  assumes "n < 2 ^ 64" and "unat (d - s) = 0 \<or> n \<le> unat (d - s)"
  shows "move_fwd m d s n = (\<lambda>a. if unat (a - d) < n then m (s + (a - d)) else m a)"
  using assms
proof (induction n arbitrary: m d s)
  case 0
  then show ?case by simp
next
  case (Suc n)
  have IH: "move_fwd (m(d := m s)) (d + 1) (s + 1) n =
      (\<lambda>a. if unat (a - (d + 1)) < n then (m(d := m s)) (s + 1 + (a - (d + 1))) else (m(d := m s)) a)"
    using Suc.prems by (intro Suc.IH) auto
  show ?case
  proof
    fix a
    show "move_fwd m d s (Suc n) a = (if unat (a - d) < Suc n then m (s + (a - d)) else m a)"
    proof (cases "a = d")
      case True
      have "unat (- 1 :: uint64) = 2 ^ 64 - 1"
        by (simp add: unsigned_minus_1_eq_mask mask_eq_exp_minus_1)
      then have "\<not> unat (- 1 :: uint64) < n" using Suc.prems(1) by simp
      with True show ?thesis by (simp add: IH)
    next
      case False
      then have dec: "unat (a - (d + 1)) = unat (a - d) - 1" "0 < unat (a - d)"
        using unat_minus_1 [of "a - d"] by (auto simp: algebra_simps unat_gt_0)
      have src: "s + 1 + (a - (d + 1)) = s + (a - d)" by simp
      have "s + (a - d) \<noteq> d" if "unat (a - d) < Suc n"
      proof
        assume "s + (a - d) = d"
        then have "d - s = a - d" by (simp add: algebra_simps)
        with that dec Suc.prems(2) show False by auto
      qed
      with False dec show ?thesis by (auto simp: IH src simp del: add_diff_eq)
    qed
  qed
qed

lemma move_back_closed:
  assumes "n < 2 ^ 64" and "unat (s - d) = 0 \<or> n \<le> unat (s - d)"
  shows "move_back m (d + of_nat n) (s + of_nat n) n =
    (\<lambda>a. if unat (a - d) < n then m (s + (a - d)) else m a)"
  using assms
proof (induction n arbitrary: m)
  case 0
  then show ?case by simp
next
  case (Suc n)
  let ?m = "m(d + of_nat n := m (s + of_nat n))"
  have IH: "move_back ?m (d + of_nat n) (s + of_nat n) n =
      (\<lambda>a. if unat (a - d) < n then ?m (s + (a - d)) else ?m a)"
    using Suc.prems by (intro Suc.IH) auto
  show ?case
  proof
    fix a
    have at_n: "a = d + of_nat n \<longleftrightarrow> unat (a - d) = n"
      using Suc.prems(1) by (intro word_offset_iff) simp
    have off: "s + (a - d) \<noteq> d + of_nat n" if "unat (a - d) < n"
    proof
      assume "s + (a - d) = d + of_nat n"
      then have "of_nat n = s - d + (a - d)" by (simp add: algebra_simps)
      then have "unat (of_nat n :: uint64) = unat (s - d + (a - d))" by simp
      then have eq: "n = unat (s - d + (a - d))" using Suc.prems(1) by simp
      show False
      proof (cases "unat (s - d) = 0")
        case True
        then have "s - d = 0" by (simp add: unat_eq_zero)
        with eq that show False by simp
      next
        case False
        with Suc.prems(2) have "Suc n \<le> unat (s - d)" by simp
        moreover have "unat (s - d + (a - d)) = unat (s - d) + unat (a - d)
            \<or> unat (s - d) + unat (a - d) = unat (s - d + (a - d)) + 2 ^ 64"
          using unat_plus_if' [of "s - d" "a - d"] by (auto split: if_splits)
        ultimately show False
          using eq that unat_bound64 [of "s - d"] by auto
      qed
    qed
    show "move_back m (d + of_nat (Suc n)) (s + of_nat (Suc n)) (Suc n) a =
        (if unat (a - d) < Suc n then m (s + (a - d)) else m a)"
      using off at_n by (auto simp: IH less_Suc_eq)
  qed
qed

section \<open>Character arrays\<close>

lemma holds_str_Nil [simp]: "holds_str s [] \<longleftrightarrow> s 0 = 0"
  by (simp add: holds_str_def)

lemma holds_str_Cons [simp]:
  "holds_str s (x # xs) \<longleftrightarrow> s 0 = x \<and> x \<noteq> 0 \<and> holds_str (\<lambda>i. s (Suc i)) xs"
  by (auto simp: holds_str_def nth_Cons All_less_Suc2 split: nat.splits)

lemma uint_same [simp]: "uint (a :: uchar) = uint b \<longleftrightarrow> a = b"
  by (simp add: word_uint_eq_iff)

lemma strncmp_same:
  "holds_str p xs \<Longrightarrow> holds_str q ys \<Longrightarrow> strncmp p q n = 0 \<longleftrightarrow> take n xs = take n ys"
proof (induction n arbitrary: p q xs ys)
  case 0
  then show ?case by simp
next
  case (Suc n)
  then show ?case by (cases xs; cases ys) (auto simp: uint_0_iff)
qed

lemma memcmp_same: "memcmp s1 s2 n = 0 \<longleftrightarrow> (\<forall>i < n. s1 i = s2 i)"
  by (induction n arbitrary: s1 s2) (auto simp: All_less_Suc2)

lemma strncpy_pad_closed:
  "strncpy_pad s i n = (\<lambda>j. if i \<le> j \<and> j < i + n then 0 else s j)"
  by (induction n arbitrary: s i) (auto simp: fun_eq_iff)

lemma strncpy_loop_closed:
  "strncpy_loop s t i n =
     (\<lambda>j. if i \<le> j \<and> j < i + n then (if \<exists>k. i \<le> k \<and> k < j \<and> t k = 0 then 0 else t j) else s j)"
proof (induction n arbitrary: s i)
  case 0
  then show ?case by (auto simp: fun_eq_iff)
next
  case (Suc n)
  show ?case
  proof (cases "t i = 0")
    case True
    then show ?thesis by (auto simp: strncpy_pad_closed fun_eq_iff)
  next
    case False
    have shift: "(\<exists>k. Suc i \<le> k \<and> k < j \<and> t k = 0) \<longleftrightarrow> (\<exists>k. i \<le> k \<and> k < j \<and> t k = 0)" for j
      using False by (metis Suc_leD Suc_leI le_neq_implies_less)
    show ?thesis using False by (auto simp: Suc.IH fun_eq_iff shift)
  qed
qed

text \<open>\<open>strncpy\<close> copies up to the first NUL and fills the rest of the \<open>n\<close> bytes with zeros.\<close>

lemma strncpy_closed:
  "strncpy s t n = (\<lambda>j. if int j < n then (if \<exists>k < j. t k = 0 then 0 else t j) else s j)"
  by (auto simp: strncpy_def strncpy_loop_closed fun_eq_iff)

lemma safestrcpy_loop_holds:
  assumes "holds_str (\<lambda>j. t (i + j)) xs"
  shows "holds_str (\<lambda>j. safestrcpy_loop s t i k (i + j)) (take k xs)
    \<and> (\<forall>j. j < i \<or> i + k < j \<longrightarrow> safestrcpy_loop s t i k j = s j)"
  using assms
proof (induction k arbitrary: s i xs)
  case 0
  then show ?case by simp
next
  case (Suc k)
  show ?case
  proof (cases xs)
    case Nil
    with Suc.prems show ?thesis by auto
  next
    case (Cons x ys)
    with Suc.prems have tail: "holds_str (\<lambda>j. t (Suc i + j)) ys" and x: "t i = x" "x \<noteq> 0"
      by auto
    have rest: "holds_str (\<lambda>j. safestrcpy_loop (s(i := t i)) t (Suc i) k (Suc i + j)) (take k ys)"
      and frame: "\<And>j. j < Suc i \<or> Suc i + k < j \<Longrightarrow>
        safestrcpy_loop (s(i := t i)) t (Suc i) k j = (s(i := t i)) j"
      using Suc.IH [OF tail, of "s(i := t i)"] by (auto simp: fun_upd_def)
    have "safestrcpy_loop (s(i := t i)) t (Suc i) k i = x" using frame [of i] x by simp
    with Cons x rest frame show ?thesis by (auto simp: add_Suc [symmetric] simp del: add_Suc)
  qed
qed

lemma strlen_from_skip: "(\<forall>j < k. s (n + j) \<noteq> 0) \<Longrightarrow> strlen_from s n = strlen_from s (n + k)"
proof (induction k)
  case 0
  then show ?case by simp
next
  case (Suc k)
  then have "strlen_from s n = strlen_from s (n + k)" and "s (n + k) \<noteq> 0" by auto
  then show ?case by (simp add: strlen_from.simps [of s "n + k"])
qed

lemma strlen_holds: "holds_str s xs \<Longrightarrow> strlen s = Some (length xs)"
proof -
  assume h: "holds_str s xs"
  then have "\<forall>j < length xs. s (0 + j) \<noteq> 0" by (auto simp: holds_str_def in_set_conv_nth)
  then have "strlen_from s 0 = strlen_from s (0 + length xs)" by (rule strlen_from_skip)
  also have "\<dots> = Some (length xs)" using h by (subst strlen_from.simps) (simp add: holds_str_def)
  finally show ?thesis by (simp add: strlen_def)
qed

section \<open>Loads and stores\<close>

lemma get16_put16 [simp]: "get16 (put16 f i v) i = v"
  by (rule bit_word_eqI)
    (auto simp: get16_def put16_def bit_simps less_Suc_eq_le not_le)

lemma get32_put32 [simp]: "get32 (put32 f i v) i = v"
proof (rule bit_word_eqI)
  fix n
  assume "n < LENGTH(32)"
  then consider "n < 8" | "8 \<le> n" "n < 16" | "16 \<le> n" "n < 24" | "24 \<le> n" "n < 32"
    by fastforce
  then show "bit (get32 (put32 f i v) i) n = bit v n"
    by cases (auto simp: get32_def put32_def bit_simps)
qed

lemma get16_put16_other [simp]: "i + 2 \<le> j \<or> j + 2 \<le> i \<Longrightarrow> get16 (put16 f j v) i = get16 f i"
  by (auto simp: get16_def put16_def)

lemma get32_put32_other [simp]: "i + 4 \<le> j \<or> j + 4 \<le> i \<Longrightarrow> get32 (put32 f j v) i = get32 f i"
  by (auto simp: get32_def put32_def)

lemma get64_put64 [simp]: "get64 (put64 f i v) i = v"
proof (rule bit_word_eqI)
  fix n
  assume "n < LENGTH(64)"
  then consider "n < 32" | "32 \<le> n" "n < 64" by fastforce
  then show "bit (get64 (put64 f i v) i) n = bit v n"
    by cases (auto simp: get64_def put64_def bit_simps)
qed

lemma get16_cong:
  assumes "\<And>k. k < 2 \<Longrightarrow> f (i + k) = g (j + k)"
  shows "get16 f i = get16 g j"
  using assms [of 0] assms [of 1] by (simp add: get16_def)

lemma get32_cong:
  assumes "\<And>k. k < 4 \<Longrightarrow> f (i + k) = g (j + k)"
  shows "get32 f i = get32 g j"
  using assms [of 0] assms [of 1] assms [of 2] assms [of 3] by (simp add: get32_def)

lemma get64_cong:
  assumes "\<And>k. k < 8 \<Longrightarrow> f (i + k) = g (j + k)"
  shows "get64 f i = get64 g j"
proof -
  have "get32 f i = get32 g j" using assms by (intro get32_cong) simp
  moreover have "get32 f (i + 4) = get32 g (j + 4)"
    using assms by (intro get32_cong) (simp add: add.assoc)
  ultimately show ?thesis by (simp add: get64_def)
qed

lemma put64_range: "k < i \<or> i + 8 \<le> k \<Longrightarrow> put64 f i v k = f k"
  by (auto simp: put64_def put32_def)

lemma put64_inside: "i \<le> k \<Longrightarrow> k < i + 8 \<Longrightarrow> put64 f i v k = put64 g i v k"
  by (auto simp: put64_def put32_def)

text \<open>
  A 64-bit store is seen by the load at the same address and by no load at an address at least
  8 bytes away on either side.
\<close>

lemma read64_write64 [simp]: "read64 (write64 m a v) a = v"
proof -
  have "get64 (at_ptr (write64 m a v) a) 0 = get64 (put64 (\<lambda>_. 0) 0 v) 0"
    by (rule get64_cong) (simp add: at_ptr_def write64_def)
  then show ?thesis by (simp add: read64_def)
qed

lemma read64_frame:
  assumes "\<And>k. k < 8 \<Longrightarrow> m (a + of_nat k) = m' (a + of_nat k)"
  shows "read64 m a = read64 m' a"
  unfolding read64_def by (rule get64_cong) (simp add: at_ptr_def assms)

lemma far_apart:
  assumes "8 \<le> unat (b - a :: uint64)" and "8 \<le> unat (a - b)" and "k < 8"
  shows "8 \<le> unat (b + of_nat k - a)"
proof -
  have eq: "b + of_nat k - a = (b - a) + of_nat k" by simp
  have "unat (b - a) + unat (a - b) = 2 ^ 64"
    using assms(1) unat_bound64 [of a] unat_bound64 [of b] by (auto simp: unat_sub_if')
  then have "unat (b - a) + k < 2 ^ 64" using assms(2,3) by linarith
  then have "unat (b - a + of_nat k) = unat (b - a) + k"
    using assms(3) by (subst unat_add_nowrap) simp_all
  then show ?thesis unfolding eq using assms(1) by simp
qed

lemma read64_write64_other:
  assumes "8 \<le> unat (b - a)" and "8 \<le> unat (a - b)"
  shows "read64 (write64 m a v) b = read64 m b"
proof (rule read64_frame)
  fix k :: nat
  assume "k < 8"
  then have "8 \<le> unat (b + of_nat k - a)" using assms by (intro far_apart)
  then show "write64 m a v (b + of_nat k) = m (b + of_nat k)" by (simp add: write64_def)
qed

section \<open>Properties\<close>

text \<open>
  C23. \<open>memmove\<close> copies the source bytes as they were before the call, also when the two
  regions overlap in either direction, and changes nothing outside the destination, as long as
  neither region runs past the end of the address space.
\<close>

theorem memmove_correct:
  assumes "unat src + unat n < 2 ^ 64" and "unat dst + unat n < 2 ^ 64"
  shows "memmove m dst src n = (\<lambda>a. if unat (a - dst) < unat n then m (src + (a - dst)) else m a)"
proof (cases "n = 0")
  case True
  then show ?thesis by (simp add: memmove_def)
next
  case False
  have end_src: "unat (src + ucast n) = unat src + unat n"
    using assms(1) by (subst unat_add_nowrap) simp_all
  show ?thesis
  proof (cases "src < dst \<and> src + ucast n > dst")
    case True
    then have "unat src < unat dst" by (simp add: word_less_nat_alt)
    then have "unat (src - dst) = 2 ^ 64 - (unat dst - unat src)"
      by (simp add: unat_sub_if')
    with assms(2) have "unat n \<le> unat (src - dst)" by simp
    moreover have "unat n < 2 ^ 64" using assms(1) by simp
    ultimately show ?thesis
      using True False move_back_closed [of "unat n" src dst m] by (simp add: memmove_def)
  next
    case no_overlap: False
    then have "unat (dst - src) = 0 \<or> unat n \<le> unat (dst - src)"
      using assms(1) end_src by (auto simp: word_less_nat_alt unat_sub_if')
    moreover have "unat n < 2 ^ 64" using assms(1) by simp
    ultimately show ?thesis
      using no_overlap False by (auto simp: memmove_def move_fwd_closed)
  qed
qed

theorem memmove_correct_witness:
  "memmove (\<lambda>a. ucast a) 1002 1000 4 1005 = 3 + ucast (1000 :: uint64)"
proof -
  have "memmove (\<lambda>a. ucast a) 1002 1000 4 =
      (\<lambda>a. if unat (a - 1002) < unat (4 :: uint) then ucast (1000 + (a - 1002)) else ucast a)"
    by (rule memmove_correct) simp_all
  then show ?thesis by simp
qed

text \<open>
  C24. \<open>safestrcpy\<close> into a buffer of \<open>n\<close> bytes always leaves a NUL-terminated string in it,
  the source cut to \<open>n - 1\<close> characters, and never writes past the \<open>n\<close>th byte.
\<close>

theorem safestrcpy_bounded:
  assumes "0 < n" and "holds_str t xs"
  shows "holds_str (safestrcpy s t n) (take (nat n - 1) xs)
    \<and> (\<forall>j. n \<le> int j \<longrightarrow> safestrcpy s t n j = s j)"
proof -
  have len: "nat (n - 1) = nat n - 1" by simp
  have "holds_str (\<lambda>j. safestrcpy_loop s t 0 (nat n - 1) (0 + j)) (take (nat n - 1) xs)
    \<and> (\<forall>j. j < 0 \<or> 0 + (nat n - 1) < j \<longrightarrow> safestrcpy_loop s t 0 (nat n - 1) j = s j)"
    using assms(2) by (intro safestrcpy_loop_holds) simp
  with assms(1) show ?thesis by (auto simp: safestrcpy_def len)
qed

theorem safestrcpy_bounded_witness:
  "holds_str (safestrcpy (\<lambda>_. 7) (\<lambda>i. if i < 3 then 65 else 0) 3) [65, 65]
   \<and> safestrcpy (\<lambda>_. 7) (\<lambda>i. if i < 3 then 65 else 0) 3 3 = 7"
  using safestrcpy_bounded [of 3 "\<lambda>i. if i < 3 then 65 else 0" "[65, 65, 65]" "\<lambda>_. 7"] by simp

end
