(* ===== verification/Spinlock.thy ===== *)
theory Spinlock
  imports Prelude
begin

text \<open>
  \<^verbatim>\<open>kernel/spinlock.c\<close>: spin locks and the nesting of interrupt disabling, on a machine of
  several harts.

  The state is the record \<open>machine\<close>: which hart executes, every hart's \<^verbatim>\<open>struct cpu\<close> and its
  interrupt-enable bit, and every spin lock. The states of the other components extend this
  record, so the operations here run on all of them.

  \<open>acquire\<close> and \<open>release\<close> are made of the atomic steps that other harts can interleave with:
  entering (\<open>push_off\<close> and the \<open>holding\<close> check), one test-and-set, recording the owner, and
  the same in reverse. The step relation \<open>lstep\<close> interleaves these steps of all harts on one
  lock; the invariant \<open>lock_inv\<close> gives mutual exclusion and that no step panics. This is what
  allows the other components to run the code between \<open>acquire\<close> and \<open>release\<close> as one step.
\<close>

section \<open>State\<close>

record cpu =
  cproc :: "nat option"
  noff :: nat
  intena :: bool

record spinlock =
  locked :: bool
  lkname :: string
  lkcpu :: "nat option"

record machine =
  hart :: nat
  cpus :: "nat \<Rightarrow> cpu"
  sie :: "nat \<Rightarrow> bool"
  locks :: "lockid \<Rightarrow> spinlock"

definition cpuid :: "'z machine_scheme \<Rightarrow> nat" where
  "cpuid s = hart s"

definition mycpu :: "'z machine_scheme \<Rightarrow> cpu" where
  "mycpu s = cpus s (cpuid s)"

definition upd_mycpu :: "(cpu \<Rightarrow> cpu) \<Rightarrow> 'z machine_scheme \<Rightarrow> 'z machine_scheme" where
  "upd_mycpu f s = s\<lparr>cpus := (cpus s)(cpuid s := f (mycpu s))\<rparr>"

definition upd_lock :: "lockid \<Rightarrow> (spinlock \<Rightarrow> spinlock) \<Rightarrow> 'z machine_scheme \<Rightarrow> 'z machine_scheme" where
  "upd_lock l f s = s\<lparr>locks := (locks s)(l := f (locks s l))\<rparr>"

section \<open>Interrupts\<close>

definition intr_get :: "'z machine_scheme \<Rightarrow> bool" where
  "intr_get s = sie s (hart s)"

definition intr_on :: "'z machine_scheme \<Rightarrow> 'z machine_scheme" where
  "intr_on s = s\<lparr>sie := (sie s)(hart s := True)\<rparr>"

definition intr_off :: "'z machine_scheme \<Rightarrow> 'z machine_scheme" where
  "intr_off s = s\<lparr>sie := (sie s)(hart s := False)\<rparr>"

definition push_off :: "('z machine_scheme, unit) kop" where
  "push_off s =
     (let old = intr_get s;
          s = intr_off s;
          s = (if noff (mycpu s) = 0 then upd_mycpu (\<lambda>c. c\<lparr>intena := old\<rparr>) s else s)
      in Done () (upd_mycpu (\<lambda>c. c\<lparr>noff := noff c + 1\<rparr>) s))"

definition pop_off :: "('z machine_scheme, unit) kop" where
  "pop_off s =
     (if intr_get s then Panic ''pop_off - interruptible''
      else if noff (mycpu s) < 1 then Panic ''pop_off''
      else let s = upd_mycpu (\<lambda>c. c\<lparr>noff := noff c - 1\<rparr>) s
           in Done () (if noff (mycpu s) = 0 \<and> intena (mycpu s) then intr_on s else s))"

section \<open>Locks\<close>

definition initlock :: "lockid \<Rightarrow> string \<Rightarrow> ('z machine_scheme, unit) kop" where
  "initlock l name = kmod (upd_lock l (\<lambda>_. \<lparr>locked = False, lkname = name, lkcpu = None\<rparr>))"

definition holding :: "lockid \<Rightarrow> 'z machine_scheme \<Rightarrow> bool" where
  "holding l s \<longleftrightarrow> locked (locks s l) \<and> lkcpu (locks s l) = Some (cpuid s)"

text \<open>The steps of \<open>acquire\<close> that are atomic for the other harts.\<close>

definition acquire_enter :: "lockid \<Rightarrow> ('z machine_scheme, unit) kop" where
  "acquire_enter l = kseq push_off (\<lambda>s. if holding l s then Panic ''acquire'' else Done () s)"

definition acquire_try :: "lockid \<Rightarrow> ('z machine_scheme, unit) kop" where
  "acquire_try l s =
     (if locked (locks s l) then Spin l s else Done () (upd_lock l (\<lambda>k. k\<lparr>locked := True\<rparr>) s))"

definition acquire_own :: "lockid \<Rightarrow> ('z machine_scheme, unit) kop" where
  "acquire_own l s = Done () (upd_lock l (\<lambda>k. k\<lparr>lkcpu := Some (cpuid s)\<rparr>) s)"

definition acquire :: "lockid \<Rightarrow> ('z machine_scheme, unit) kop" where
  "acquire l = kseq (acquire_enter l) (kseq (acquire_try l) (acquire_own l))"

text \<open>The steps of \<open>release\<close>.\<close>

definition release_disown :: "lockid \<Rightarrow> ('z machine_scheme, unit) kop" where
  "release_disown l s =
     (if \<not> holding l s then Panic ''release''
      else Done () (upd_lock l (\<lambda>k. k\<lparr>lkcpu := None\<rparr>) s))"

definition release_unlock :: "lockid \<Rightarrow> ('z machine_scheme, unit) kop" where
  "release_unlock l = kmod (upd_lock l (\<lambda>k. k\<lparr>locked := False\<rparr>))"

definition release :: "lockid \<Rightarrow> ('z machine_scheme, unit) kop" where
  "release l = kseq (release_disown l) (kseq (release_unlock l) pop_off)"

section \<open>One critical section\<close>

text \<open>
  \<open>lock_idle\<close>: nobody holds the lock. \<open>cpu_ok\<close>: interrupts are off while \<open>push_off\<close>s are
  pending. Under both, \<open>acquire\<close> succeeds (\<open>acquired\<close> is the state it leaves), and \<open>release\<close>
  after it restores everything except \<open>intena\<close>, where the outermost \<open>push_off\<close> has saved the
  interrupt-enable bit (\<open>relock\<close>).
\<close>

definition lock_idle :: "lockid \<Rightarrow> 'z machine_scheme \<Rightarrow> bool" where
  "lock_idle l s \<longleftrightarrow> \<not> locked (locks s l) \<and> lkcpu (locks s l) = None"

definition cpu_ok :: "'z machine_scheme \<Rightarrow> bool" where
  "cpu_ok s \<longleftrightarrow> (0 < noff (mycpu s) \<longrightarrow> \<not> intr_get s)"

definition ready :: "lockid \<Rightarrow> 'z machine_scheme \<Rightarrow> bool" where
  "ready l s \<longleftrightarrow> lock_idle l s \<and> cpu_ok s"

definition pushed :: "'z machine_scheme \<Rightarrow> 'z machine_scheme" where
  "pushed s =
     s\<lparr>sie := (sie s)(hart s := False),
       cpus := (cpus s)(hart s := (cpus s (hart s))
         \<lparr>intena := (if noff (cpus s (hart s)) = 0 then sie s (hart s) else intena (cpus s (hart s))),
          noff := noff (cpus s (hart s)) + 1\<rparr>)\<rparr>"

definition acquired :: "lockid \<Rightarrow> 'z machine_scheme \<Rightarrow> 'z machine_scheme" where
  "acquired l s = upd_lock l (\<lambda>k. k\<lparr>locked := True, lkcpu := Some (hart s)\<rparr>) (pushed s)"

definition relock :: "'z machine_scheme \<Rightarrow> 'z machine_scheme" where
  "relock s =
     s\<lparr>cpus := (cpus s)(hart s := (cpus s (hart s))
         \<lparr>intena := (if noff (cpus s (hart s)) = 0 then sie s (hart s) else intena (cpus s (hart s)))\<rparr>)\<rparr>"

lemmas cpu_defs = cpuid_def mycpu_def upd_mycpu_def intr_get_def intr_on_def intr_off_def
lemmas lock_defs = acquire_def acquire_enter_def acquire_try_def acquire_own_def release_def
  release_disown_def release_unlock_def holding_def upd_lock_def

lemma push_off_pushed: "push_off s = Done () (pushed s)"
  by (simp add: push_off_def pushed_def cpu_defs Let_def)

lemma pop_off_pushed: "cpu_ok s \<Longrightarrow> pop_off (pushed s) = Done () (relock s)"
  by (auto simp: pop_off_def pushed_def relock_def cpu_ok_def cpu_defs Let_def fun_upd_idem)

lemma acquire_idle: "lock_idle l s \<Longrightarrow> acquire l s = Done () (acquired l s)"
  by (simp add: lock_idle_def acquired_def lock_defs push_off_pushed pushed_def cpu_defs)

lemma release_acquired: "ready l s \<Longrightarrow> release l (acquired l s) = Done () (relock s)"
  by (auto simp: ready_def lock_idle_def cpu_ok_def acquired_def pushed_def relock_def lock_defs
      pop_off_def cpu_defs Let_def fun_upd_idem)

lemma relock_simps [simp]:
  "hart (relock s) = hart s" "sie (relock s) = sie s" "locks (relock s) = locks s"
  "relock (relock s) = relock s" "lock_idle l (relock s) = lock_idle l s"
  "cpu_ok (relock s) = cpu_ok s" "ready l (relock s) = ready l s"
  by (simp_all add: relock_def lock_idle_def cpu_ok_def ready_def cpu_defs)

text \<open>Locks nest: a second lock is taken and released while the first stays held.\<close>

lemma relock_acquired [simp]: "relock (acquired l s) = acquired l s"
  by (rule machine.equality)
    (auto simp: relock_def acquired_def pushed_def upd_lock_def fun_eq_iff)

lemma acquired_simps [simp]:
  "hart (acquired l s) = hart s" "cpu_ok (acquired l s)"
  "holding l (acquired l s)" "\<not> intr_get (acquired l s)"
  "l \<noteq> k \<Longrightarrow> lock_idle k (acquired l s) = lock_idle k s"
  "l \<noteq> k \<Longrightarrow> ready k (acquired l s) = lock_idle k s"
  "noff (cpus (acquired l s) (hart s)) = noff (cpus s (hart s)) + 1"
  by (simp_all add: acquired_def pushed_def lock_idle_def cpu_ok_def ready_def
      holding_def upd_lock_def cpu_defs)

lemma pushed_simps [simp]:
  "hart (pushed s) = hart s" "locks (pushed s) = locks s" "cpu_ok (pushed s)"
  "noff (cpus (pushed s) (hart s)) = noff (cpus s (hart s)) + 1"
  by (simp_all add: pushed_def cpu_ok_def cpu_defs)

lemma pushed_relock [simp]: "pushed (relock s) = pushed s"
  by (simp add: pushed_def relock_def)

lemma acquired_relock [simp]: "acquired l (relock s) = acquired l s"
  by (simp add: acquired_def)

lemma cproc_relock [simp]: "cproc (cpus (relock s) h) = cproc (cpus s h)"
  "cproc (cpus (acquired l s) h) = cproc (cpus s h)" "cproc (cpus (pushed s) h) = cproc (cpus s h)"
  by (simp_all add: relock_def acquired_def pushed_def upd_lock_def)

lemma noff_relock [simp]: "noff (cpus (relock s) h) = noff (cpus s h)"
  by (simp add: relock_def)

lemma noff_acquired: "noff (cpus (acquired l s) h) = (if h = hart s then Suc (noff (cpus s h)) else noff (cpus s h))"
  by (simp add: acquired_def pushed_def upd_lock_def)

lemma acquire_ready [simp]: "ready l s \<Longrightarrow> acquire l s = Done () (acquired l s)"
  by (simp add: ready_def acquire_idle)

lemma ready_idle [simp]: "ready l s \<Longrightarrow> lock_idle l s"
  by (simp add: ready_def)

declare release_acquired [simp]

section \<open>All harts on one lock\<close>

text \<open>Where a hart is in \<open>acquire\<close>, its critical section, and \<open>release\<close>.\<close>

datatype pc = Outside | Spinning | Won | Critical | Leaving | Unlocked

text \<open>
  One atomic step of one hart: it runs the next step of \<open>acquire\<close> or \<open>release\<close> on the shared
  machine. A failed test-and-set leaves everything as it is, so it needs no rule.
\<close>

inductive lstep :: "lockid \<Rightarrow> machine \<times> (nat \<Rightarrow> pc) \<Rightarrow> machine \<times> (nat \<Rightarrow> pc) \<Rightarrow> bool"
  for l where
  enter: "pcs h = Outside \<Longrightarrow> acquire_enter l (s\<lparr>hart := h\<rparr>) = Done () t \<Longrightarrow>
    lstep l (s, pcs) (t, pcs(h := Spinning))"
| test_and_set: "pcs h = Spinning \<Longrightarrow> acquire_try l (s\<lparr>hart := h\<rparr>) = Done () t \<Longrightarrow>
    lstep l (s, pcs) (t, pcs(h := Won))"
| own: "pcs h = Won \<Longrightarrow> acquire_own l (s\<lparr>hart := h\<rparr>) = Done () t \<Longrightarrow>
    lstep l (s, pcs) (t, pcs(h := Critical))"
| disown: "pcs h = Critical \<Longrightarrow> release_disown l (s\<lparr>hart := h\<rparr>) = Done () t \<Longrightarrow>
    lstep l (s, pcs) (t, pcs(h := Leaving))"
| unlock: "pcs h = Leaving \<Longrightarrow> release_unlock l (s\<lparr>hart := h\<rparr>) = Done () t \<Longrightarrow>
    lstep l (s, pcs) (t, pcs(h := Unlocked))"
| leave: "pcs h = Unlocked \<Longrightarrow> pop_off (s\<lparr>hart := h\<rparr>) = Done () t \<Longrightarrow>
    lstep l (s, pcs) (t, pcs(h := Outside))"

definition lock_start :: "lockid \<Rightarrow> machine \<times> (nat \<Rightarrow> pc) \<Rightarrow> bool" where
  "lock_start l c \<longleftrightarrow> lock_idle l (fst c) \<and> (\<forall>h. noff (cpus (fst c) h) = 0) \<and> snd c = (\<lambda>_. Outside)"

inductive lreach :: "lockid \<Rightarrow> machine \<times> (nat \<Rightarrow> pc) \<Rightarrow> bool" for l where
  init: "lock_start l c \<Longrightarrow> lreach l c"
| step: "lreach l c \<Longrightarrow> lstep l c d \<Longrightarrow> lreach l d"

text \<open>
  The invariant: the lock word is set exactly while some hart (and then only one) is between its
  test-and-set and its unlock, the owner field names that hart exactly while it is in its
  critical section, and every hart inside has one pending \<open>push_off\<close> and interrupts off.
\<close>

fun inside :: "pc \<Rightarrow> bool" where
  "inside Won = True"
| "inside Critical = True"
| "inside Leaving = True"
| "inside _ = False"

definition lock_inv_for :: "lockid \<Rightarrow> nat option \<Rightarrow> machine \<times> (nat \<Rightarrow> pc) \<Rightarrow> bool" where
  "lock_inv_for l owner c \<longleftrightarrow>
     (\<forall>h. inside (snd c h) \<longleftrightarrow> owner = Some h)
     \<and> (locked (locks (fst c) l) \<longleftrightarrow> owner \<noteq> None)
     \<and> (\<forall>h. lkcpu (locks (fst c) l) = Some h \<longleftrightarrow> snd c h = Critical)
     \<and> (\<forall>h. noff (cpus (fst c) h) = (if snd c h = Outside then 0 else 1))
     \<and> (\<forall>h. snd c h \<noteq> Outside \<longrightarrow> \<not> sie (fst c) h)"

definition lock_inv :: "lockid \<Rightarrow> machine \<times> (nat \<Rightarrow> pc) \<Rightarrow> bool" where
  "lock_inv l c \<longleftrightarrow> (\<exists>owner. lock_inv_for l owner c)"

lemma lock_inv_start: "lock_start l c \<Longrightarrow> lock_inv_for l None c"
  by (simp add: lock_start_def lock_inv_for_def lock_idle_def)

lemma lock_inv_at:
  "lock_inv_for l owner (s, pcs) \<Longrightarrow>
     (inside (pcs h) \<longleftrightarrow> owner = Some h) \<and> noff (cpus s h) = (if pcs h = Outside then 0 else 1)
     \<and> (lkcpu (locks s l) = Some h \<longleftrightarrow> pcs h = Critical) \<and> (pcs h \<noteq> Outside \<longrightarrow> \<not> sie s h)
     \<and> (locked (locks s l) \<longleftrightarrow> owner \<noteq> None)"
  by (simp add: lock_inv_for_def)

lemma lock_inv_step:
  "lstep l c d \<Longrightarrow> lock_inv_for l owner c \<Longrightarrow> \<exists>owner'. lock_inv_for l owner' d"
proof (induction rule: lstep.induct)
  case (enter pcs h s t)
  then have t: "t = pushed (s\<lparr>hart := h\<rparr>)"
    by (simp add: acquire_enter_def push_off_pushed split: if_splits)
  from enter.hyps(1) lock_inv_at [OF enter.prems, of h] have "owner \<noteq> Some h" by auto
  with enter.hyps(1) enter.prems have "lock_inv_for l owner (t, pcs(h := Spinning))"
    by (auto simp: lock_inv_for_def pushed_def t)
  then show ?case ..
next
  case (test_and_set pcs h s t)
  then have free: "\<not> locked (locks s l)" and t: "t = upd_lock l (\<lambda>k. k\<lparr>locked := True\<rparr>) (s\<lparr>hart := h\<rparr>)"
    by (auto simp: acquire_try_def split: if_splits)
  with test_and_set.hyps(1) test_and_set.prems have "lock_inv_for l (Some h) (t, pcs(h := Won))"
    by (auto simp: lock_inv_for_def t upd_lock_def)
  then show ?case ..
next
  case (own pcs h s t)
  then have "owner = Some h" using lock_inv_at [OF own.prems, of h] by simp
  with own have "lock_inv_for l owner (t, pcs(h := Critical))"
    by (auto simp: lock_inv_for_def acquire_own_def upd_lock_def cpu_defs)
  then show ?case ..
next
  case (disown pcs h s t)
  then have "owner = Some h" using lock_inv_at [OF disown.prems, of h] by simp
  moreover have "t = upd_lock l (\<lambda>k. k\<lparr>lkcpu := None\<rparr>) (s\<lparr>hart := h\<rparr>)"
    using disown.hyps(2) by (simp add: release_disown_def split: if_splits)
  ultimately have "lock_inv_for l owner (t, pcs(h := Leaving))"
    using disown.hyps(1) disown.prems by (auto simp: lock_inv_for_def upd_lock_def)
  then show ?case ..
next
  case (unlock pcs h s t)
  then have "owner = Some h" using lock_inv_at [OF unlock.prems, of h] by simp
  with unlock have "lock_inv_for l None (t, pcs(h := Unlocked))"
    by (auto simp: lock_inv_for_def release_unlock_def upd_lock_def)
  then show ?case ..
next
  case (leave pcs h s t)
  then have "owner \<noteq> Some h" using lock_inv_at [OF leave.prems, of h] by simp
  with leave have "lock_inv_for l owner (t, pcs(h := Outside))"
    by (auto simp: lock_inv_for_def pop_off_def cpu_defs Let_def split: if_splits)
  then show ?case ..
qed

lemma lock_inv_reach: "lreach l c \<Longrightarrow> lock_inv l c"
  unfolding lock_inv_def
  by (induction rule: lreach.induct) (auto intro: lock_inv_start dest: lock_inv_step)

text \<open>
  What a hart does next, by where it is: the code it runs at each program counter.
\<close>

fun next_code :: "lockid \<Rightarrow> pc \<Rightarrow> (machine, unit) kop" where
  "next_code l Outside = acquire_enter l"
| "next_code l Spinning = acquire_try l"
| "next_code l Won = acquire_own l"
| "next_code l Critical = release_disown l"
| "next_code l Leaving = release_unlock l"
| "next_code l Unlocked = pop_off"

text \<open>
  C22: \<^verbatim>\<open>acquire\<close> and \<^verbatim>\<open>release\<close> give mutual exclusion on every interleaving of any number of
  harts, starting from a free lock: two harts are never between their test-and-set and their
  unlock at the same time, a hart in its critical section is the recorded owner with interrupts
  off, and no step of any hart is a panic (\<^verbatim>\<open>acquire\<close>, \<^verbatim>\<open>release\<close>, \<^verbatim>\<open>pop_off\<close>).
\<close>

theorem spinlock_mutual_exclusion:
  assumes "lreach l (s, pcs)"
  shows "(inside (pcs h) \<and> inside (pcs k) \<longrightarrow> h = k)
    \<and> (pcs h = Critical \<longrightarrow> holding l (s\<lparr>hart := h\<rparr>) \<and> \<not> intr_get (s\<lparr>hart := h\<rparr>))
    \<and> next_code l (pcs h) (s\<lparr>hart := h\<rparr>) \<noteq> Panic m"
proof -
  obtain owner where inv: "lock_inv_for l owner (s, pcs)"
    using lock_inv_reach [OF assms] by (auto simp: lock_inv_def)
  note at = lock_inv_at [OF inv]
  have "next_code l (pcs h) (s\<lparr>hart := h\<rparr>) \<noteq> Panic m"
    using at [of h]
    by (cases "pcs h")
      (auto simp: lock_defs cpu_defs push_off_pushed pushed_def pop_off_def Let_def)
  moreover have "inside (pcs h) \<and> inside (pcs k) \<longrightarrow> h = k"
    using at [of h] at [of k] by auto
  moreover have "pcs h = Critical \<longrightarrow> holding l (s\<lparr>hart := h\<rparr>) \<and> \<not> intr_get (s\<lparr>hart := h\<rparr>)"
    using at [of h] by (auto simp: holding_def cpu_defs)
  ultimately show ?thesis by blast
qed

definition example_machine :: machine where
  "example_machine = \<lparr>hart = 0, cpus = (\<lambda>_. \<lparr>cproc = None, noff = 0, intena = False\<rparr>),
     sie = (\<lambda>_. True), locks = (\<lambda>_. \<lparr>locked = False, lkname = ''kmem'', lkcpu = None\<rparr>)\<rparr>"

lemma example_two_harts:
  "\<exists>t. lreach KmemLock (t, (\<lambda>_. Outside)(0 := Spinning, 1 := Spinning, 0 := Won, 0 := Critical))
     \<and> locked (locks t KmemLock)"
proof -
  define c0 where "c0 = (example_machine, \<lambda>_::nat. Outside)"
  have "lreach KmemLock c0"
    by (rule lreach.init) (simp add: lock_start_def c0_def example_machine_def lock_idle_def)
  then show ?thesis unfolding c0_def
    apply -
    apply (rule exI, rule conjI)
     apply (rule lreach.step, rule lreach.step, rule lreach.step, rule lreach.step, assumption)
        apply (rule lstep.enter [where h = 0], simp, simp add: lock_defs push_off_pushed pushed_def example_machine_def cpu_defs)
       apply (rule lstep.enter [where h = 1], simp, simp add: lock_defs push_off_pushed pushed_def example_machine_def cpu_defs)
      apply (rule lstep.test_and_set [where h = 0], simp, simp add: lock_defs example_machine_def)
     apply (rule lstep.own [where h = 0], simp, simp add: lock_defs cpu_defs)
    apply simp
    done
qed

theorem spinlock_mutual_exclusion_witness:
  "\<exists>t. holding KmemLock (t\<lparr>hart := 0\<rparr>) \<and> \<not> intr_get (t\<lparr>hart := 0\<rparr> :: machine)
     \<and> acquire_try KmemLock (t\<lparr>hart := 1\<rparr>) \<noteq> Panic ''acquire''"
proof -
  obtain t where "lreach KmemLock (t, (\<lambda>_. Outside)(0 := Spinning, 1 := Spinning, 0 := Won, 0 := Critical))"
    using example_two_harts by blast
  from spinlock_mutual_exclusion [OF this, of 0 1] spinlock_mutual_exclusion [OF this, of 1 0 "''acquire''"]
  show ?thesis by (intro exI [of _ t]) simp
qed

end
