(* ===== verification/Riscv.thy ===== *)
theory Riscv
  imports CString
begin

text \<open>
  The constants and macros of \<^verbatim>\<open>kernel/riscv.h\<close>, \<^verbatim>\<open>kernel/memlayout.h\<close> and
  \<^verbatim>\<open>kernel/param.h\<close> that the components use: pages, page table entries and the layout of
  memory; and the arithmetic of pages: an aligned page is the set of addresses that round down
  to it, so two pages never overlap, and an 8-byte slot of a page stays inside it.
\<close>

section \<open>Pages\<close>

definition PGSIZE :: uint64 where "PGSIZE = 4096"

definition PGROUNDUP :: "uint64 \<Rightarrow> uint64" where
  "PGROUNDUP sz = (sz + PGSIZE - 1) AND NOT (PGSIZE - 1)"

definition PGROUNDDOWN :: "uint64 \<Rightarrow> uint64" where
  "PGROUNDDOWN a = a AND NOT (PGSIZE - 1)"

section \<open>Page table entries\<close>

type_synonym pte = uint64

definition PTE_V :: uint64 where "PTE_V = push_bit 0 1"
definition PTE_R :: uint64 where "PTE_R = push_bit 1 1"
definition PTE_W :: uint64 where "PTE_W = push_bit 2 1"
definition PTE_X :: uint64 where "PTE_X = push_bit 3 1"
definition PTE_U :: uint64 where "PTE_U = push_bit 4 1"

definition PA2PTE :: "uint64 \<Rightarrow> uint64" where
  "PA2PTE pa = push_bit 10 (drop_bit 12 pa)"

definition PTE2PA :: "uint64 \<Rightarrow> uint64" where
  "PTE2PA pte = push_bit 12 (drop_bit 10 pte)"

definition PTE_FLAGS :: "uint64 \<Rightarrow> uint64" where
  "PTE_FLAGS pte = pte AND 0x3FF"

definition PXSHIFT :: "nat \<Rightarrow> nat" where
  "PXSHIFT level = 12 + 9 * level"

definition PX :: "nat \<Rightarrow> uint64 \<Rightarrow> uint64" where
  "PX level va = drop_bit (PXSHIFT level) va AND 0x1FF"

definition MAXVA :: uint64 where "MAXVA = push_bit (9 + 9 + 9 + 12 - 1) 1"

section \<open>Layout\<close>

definition UART0 :: uint64 where "UART0 = 0x10000000"
definition VIRTIO0 :: uint64 where "VIRTIO0 = 0x10001000"
definition PLIC :: uint64 where "PLIC = 0x0c000000"
definition KERNBASE :: uint64 where "KERNBASE = 0x80000000"
definition PHYSTOP :: uint64 where "PHYSTOP = KERNBASE + 128 * 1024 * 1024"
definition TRAMPOLINE :: uint64 where "TRAMPOLINE = MAXVA - PGSIZE"
definition KSTACK :: "nat \<Rightarrow> uint64" where
  "KSTACK p = TRAMPOLINE - (of_nat p + 1) * 2 * PGSIZE"
definition TRAPFRAME :: uint64 where "TRAPFRAME = TRAMPOLINE - PGSIZE"

definition SATP_SV39 :: uint64 where "SATP_SV39 = push_bit 60 8"
definition MAKE_SATP :: "uint64 \<Rightarrow> uint64" where
  "MAKE_SATP pagetable = SATP_SV39 OR drop_bit 12 pagetable"

section \<open>Parameters\<close>

definition NPROC :: nat where "NPROC = 64"
definition NCPU :: nat where "NCPU = 8"
definition NOFILE :: nat where "NOFILE = 16"
definition NFILE :: nat where "NFILE = 100"
definition NINODE :: nat where "NINODE = 50"
definition NDEV :: nat where "NDEV = 10"
definition ROOTDEV :: uint where "ROOTDEV = 1"
definition MAXARG :: nat where "MAXARG = 32"
definition MAXOPBLOCKS :: nat where "MAXOPBLOCKS = 10"
definition LOGBLOCKS :: nat where "LOGBLOCKS = MAXOPBLOCKS * 3"
definition NBUF :: nat where "NBUF = MAXOPBLOCKS * 3"
definition FSSIZE :: nat where "FSSIZE = 2000"
definition MAXPATH :: nat where "MAXPATH = 128"
definition USERSTACK :: uint64 where "USERSTACK = 2"

section \<open>Arithmetic of pages\<close>

definition aligned :: "uint64 \<Rightarrow> bool" where
  "aligned p \<longleftrightarrow> p mod PGSIZE = 0"

definition on_page :: "uint64 \<Rightarrow> uint64 \<Rightarrow> bool" where
  "on_page p a \<longleftrightarrow> unat (a - p) < 4096"

lemma page_mask: "NOT (PGSIZE - 1) = (NOT (mask 12) :: uint64)"
  by (simp add: PGSIZE_def mask_eq_exp_minus_1)

lemma PGROUNDDOWN_bits: "PGROUNDDOWN a = push_bit 12 (drop_bit 12 a)"
  unfolding PGROUNDDOWN_def page_mask
  by (rule bit_word_eqI) (auto simp: bit_simps)

lemma unat_PGROUNDDOWN: "unat (PGROUNDDOWN a) = unat a div 4096 * 4096"
proof -
  have "unat a div 4096 * 4096 \<le> unat a" by simp
  then have "unat a div 4096 * 4096 < 2 ^ 64" using unat_bound64 [of a] by simp
  then show ?thesis
    by (simp add: PGROUNDDOWN_bits push_bit_eq_mult drop_bit_eq_div unat_div unat_word_ariths)
qed

lemma unat_PGROUNDUP:
  assumes "unat a + 4095 < 2 ^ 64" shows "unat (PGROUNDUP a) = (unat a + 4095) div 4096 * 4096"
proof -
  have eq: "PGROUNDUP a = PGROUNDDOWN (a + 4095)"
    by (simp add: PGROUNDUP_def PGROUNDDOWN_def PGSIZE_def add.commute)
  have "unat (a + 4095) = unat a + 4095" using assms by (simp add: unat_word_ariths)
  then show ?thesis unfolding eq unat_PGROUNDDOWN by simp
qed

lemma aligned_unat: "aligned p \<longleftrightarrow> unat p mod 4096 = 0"
  by (simp add: aligned_def PGSIZE_def unat_mod word_unat_eq_iff)

lemma aligned_PGROUNDDOWN [simp]: "aligned (PGROUNDDOWN a)"
  by (simp add: aligned_unat unat_PGROUNDDOWN)

lemma PGROUNDDOWN_le: "PGROUNDDOWN a \<le> a"
  by (simp add: word_le_nat_alt unat_PGROUNDDOWN)

lemma PGROUNDDOWN_aligned: "aligned p \<Longrightarrow> PGROUNDDOWN p = p"
  by (auto simp: word_unat_eq_iff unat_PGROUNDDOWN aligned_unat)

lemma aligned_top: "aligned p \<Longrightarrow> unat p + 4096 \<le> 18446744073709551616"
proof -
  assume "aligned p"
  then obtain k where "unat p = 4096 * k" by (auto simp: aligned_unat mod_eq_0_iff_dvd)
  then show ?thesis using unat_bound64 [of p] by simp
qed

lemma on_page_iff: "aligned p \<Longrightarrow> on_page p a \<longleftrightarrow> PGROUNDDOWN a = p"
proof -
  assume p: "aligned p"
  then obtain k where k: "unat p = 4096 * k" by (auto simp: aligned_unat mod_eq_0_iff_dvd)
  have "unat (a - p) < 4096 \<longleftrightarrow> unat a div 4096 = k"
    using k aligned_top [OF p] unat_bound64 [of a] by (auto simp: unat_sub_if')
  then show ?thesis by (auto simp: on_page_def word_unat_eq_iff unat_PGROUNDDOWN k)
qed

lemma on_page_unique: "aligned p \<Longrightarrow> aligned q \<Longrightarrow> on_page p a \<Longrightarrow> on_page q a \<Longrightarrow> p = q"
  by (simp add: on_page_iff)

lemma on_page_offset [simp]: "k < 4096 \<Longrightarrow> on_page p (p + of_nat k)"
  by (simp add: on_page_def)

text \<open>The 512 8-byte slots of a page: \<open>slot p i\<close> is \<^verbatim>\<open>&pagetable[i]\<close>.\<close>

definition slot :: "uint64 \<Rightarrow> uint64 \<Rightarrow> uint64" where
  "slot p i = p + 8 * i"

definition agree_on :: "uint64 \<Rightarrow> mem \<Rightarrow> mem \<Rightarrow> bool" where
  "agree_on p m m' \<longleftrightarrow> (\<forall>a. on_page p a \<longrightarrow> m a = m' a)"

lemma slot_byte:
  assumes "i < 512" "k < 8" shows "on_page p (slot p i + of_nat k)"
proof -
  have "unat i < 512" using assms by (simp add: word_less_nat_alt)
  then have "unat (8 * i) = 8 * unat i" by (simp add: unat_word_ariths)
  then have "unat (8 * i + of_nat k) < 4096"
    using assms(2) \<open>unat i < 512\<close> by (subst unat_add_nowrap) simp_all
  moreover have eq: "slot p i + of_nat k - p = 8 * i + of_nat k" by (simp add: slot_def)
  ultimately show ?thesis unfolding on_page_def eq by simp
qed

lemma slot_unat: "i < 512 \<Longrightarrow> unat (slot p i - p) = 8 * unat i"
proof -
  assume "i < 512"
  then have "unat i < 512" by (simp add: word_less_nat_alt)
  then show ?thesis by (simp add: slot_def unat_word_ariths)
qed

lemma read64_page: "i < 512 \<Longrightarrow> agree_on p m m' \<Longrightarrow> read64 m (slot p i) = read64 m' (slot p i)"
  by (rule read64_frame) (simp add: slot_byte agree_on_def)

lemma on_slot: "i < 512 \<Longrightarrow> unat (a - slot p i) < 8 \<Longrightarrow> on_page p a"
  using slot_byte [of i "unat (a - slot p i)" p] by simp

lemma write64_page: "i < 512 \<Longrightarrow> \<not> on_page p a \<Longrightarrow> write64 m (slot p i) v a = m a"
  using on_slot by (auto simp: write64_def)

lemma write64_agree:
  "i < 512 \<Longrightarrow> aligned p \<Longrightarrow> aligned q \<Longrightarrow> p \<noteq> q \<Longrightarrow> agree_on q (write64 m (slot p i) v) m"
  unfolding agree_on_def by (metis write64_page on_page_unique)

lemma read_slot_same [simp]: "read64 (write64 m (slot p i) v) (slot p i) = v"
  by simp

lemma read_slot_other:
  assumes "i < 512" "j < 512" "i \<noteq> j"
  shows "read64 (write64 m (slot p i) v) (slot p j) = read64 m (slot p j)"
proof (rule read64_write64_other)
  have eq: "slot p j - slot p i = 8 * j - 8 * i" "slot p i - slot p j = 8 * i - 8 * j"
    by (simp_all add: slot_def)
  have *: "8 \<le> unat (8 * x - 8 * y)" if "x < 512" "y < 512" "x \<noteq> y" for x y :: uint64
  proof -
    have "unat x < 512" "unat y < 512" "unat x \<noteq> unat y"
      using that by (simp_all add: word_less_nat_alt word_unat_eq_iff)
    moreover have "unat (8 * x) = 8 * unat x" "unat (8 * y) = 8 * unat y"
      using calculation by (simp_all add: unat_word_ariths)
    ultimately show ?thesis by (auto simp: unat_sub_if')
  qed
  show "8 \<le> unat (slot p j - slot p i)" "8 \<le> unat (slot p i - slot p j)"
    unfolding eq using * assms by simp_all
qed

lemma memset_page: "memset m p c 4096 = (\<lambda>a. if on_page p a then ucast c else m a)"
  by (simp add: memset_closed on_page_def)

lemma memset_agree: "aligned p \<Longrightarrow> aligned q \<Longrightarrow> p \<noteq> q \<Longrightarrow> agree_on q (memset m p c 4096) m"
  unfolding agree_on_def memset_page by (metis on_page_unique)

lemma read64_zero_page [simp]: "i < 512 \<Longrightarrow> read64 (memset m p 0 4096) (slot p i) = 0"
proof -
  assume "i < 512"
  then have "read64 (memset m p 0 4096) (slot p i) = read64 (\<lambda>_. 0) (slot p i)"
    by (intro read64_page) (simp_all add: agree_on_def memset_page)
  then show ?thesis by (simp add: read64_def get64_def get32_def at_ptr_def)
qed

lemma agree_on_refl [simp]: "agree_on p m m"
  by (simp add: agree_on_def)

lemma agree_on_trans [trans]: "agree_on p m m' \<Longrightarrow> agree_on p m' m'' \<Longrightarrow> agree_on p m m''"
  by (simp add: agree_on_def)

lemma agree_on_sym: "agree_on p m m' \<Longrightarrow> agree_on p m' m"
  by (simp add: agree_on_def)

end
