(* ===== verification/Kalloc.thy ===== *)
theory Kalloc
  imports Riscv Spinlock
begin

text \<open>
  \<^verbatim>\<open>kernel/kalloc.c\<close>: the allocator of physical pages. The free list lives in the free pages
  themselves: the first 8 bytes of a free page hold the address of the next one. \<open>free_chain\<close>
  relates this chain in memory to a list of pages, \<open>kmem_inv\<close> adds that the pages are distinct
  and lie between \<^verbatim>\<open>end\<close> and \<^verbatim>\<open>PHYSTOP\<close>. The locale \<open>page_allocator\<close> is what the other
  components rely on, and \<open>kalloc\<close> and \<open>kfree\<close> are an instance of it.

  Physical memory is byte-addressed. The addresses of the linker script (\<^verbatim>\<open>end\<close>, \<^verbatim>\<open>etext\<close>,
  \<^verbatim>\<open>trampoline\<close>) are fields of the state that no operation changes.
\<close>

section \<open>State\<close>

record kmem = machine +
  pmem :: mem
  freelist :: uint64
  ld_end :: uint64
  ld_etext :: uint64
  ld_trampoline :: uint64

section \<open>Operations\<close>

definition set_pmem :: "(mem \<Rightarrow> mem) \<Rightarrow> ('z kmem_scheme, unit) kop" where
  "set_pmem f = kmod (\<lambda>s. s\<lparr>pmem := f (pmem s)\<rparr>)"

definition kfree :: "uint64 \<Rightarrow> ('z kmem_scheme, unit) kop" where
  "kfree pa s =
     (if pa mod PGSIZE \<noteq> 0 \<or> pa < ld_end s \<or> PHYSTOP \<le> pa then Panic ''kfree''
      else kseq (set_pmem (\<lambda>m. memset m pa 1 4096))
          (kseq (acquire KmemLock)
          (kseq (kmod (\<lambda>s. s\<lparr>pmem := write64 (pmem s) pa (freelist s)\<rparr>))
          (kseq (kmod (\<lambda>s. s\<lparr>freelist := pa\<rparr>))
                (release KmemLock)))) s)"

definition kalloc :: "('z kmem_scheme, uint64) kop" where
  "kalloc =
     kseq (acquire KmemLock)
    (kbind (kget freelist) (\<lambda>r.
     kseq (kwhen (r \<noteq> 0) (kmod (\<lambda>s. s\<lparr>freelist := read64 (pmem s) r\<rparr>)))
    (kseq (release KmemLock)
    (kseq (kwhen (r \<noteq> 0) (set_pmem (\<lambda>m. memset m r 5 4096)))
          (kret r)))))"

text \<open>
  The loop of \<open>freerange\<close>. Its fuel is the number of pages between the bounds, which is enough
  whenever the bounds do not wrap around.
\<close>

fun freerange_loop :: "nat \<Rightarrow> uint64 \<Rightarrow> uint64 \<Rightarrow> ('z kmem_scheme, unit) kop" where
  "freerange_loop 0 p pa_end = (\<lambda>_. Diverge)"
| "freerange_loop (Suc n) p pa_end =
     (if p + PGSIZE \<le> pa_end then kseq (kfree p) (freerange_loop n (p + PGSIZE) pa_end) else kret ())"

definition freerange :: "uint64 \<Rightarrow> uint64 \<Rightarrow> ('z kmem_scheme, unit) kop" where
  "freerange pa_start pa_end =
     freerange_loop (unat (pa_end - PGROUNDUP pa_start) div 4096 + 1) (PGROUNDUP pa_start) pa_end"

definition kinit :: "('z kmem_scheme, unit) kop" where
  "kinit = kseq (initlock KmemLock ''kmem'') (\<lambda>s. freerange (ld_end s) PHYSTOP s)"

text \<open>A client that calls the allocator \<open>n\<close> times in a row.\<close>

fun kalloc_seq :: "('s, 'p) kop \<Rightarrow> nat \<Rightarrow> ('s, 'p list) kop" where
  "kalloc_seq alloc 0 = kret []"
| "kalloc_seq alloc (Suc n) = kbind alloc (\<lambda>p. kbind (kalloc_seq alloc n) (\<lambda>ps. kret (p # ps)))"

section \<open>The free list in memory\<close>

fun free_chain :: "mem \<Rightarrow> uint64 \<Rightarrow> uint64 list \<Rightarrow> bool" where
  "free_chain m p [] \<longleftrightarrow> p = 0"
| "free_chain m p (x # xs) \<longleftrightarrow> p = x \<and> p \<noteq> 0 \<and> free_chain m (read64 m p) xs"

definition layout_ok :: "'z kmem_scheme \<Rightarrow> bool" where
  "layout_ok s \<longleftrightarrow> KERNBASE \<le> ld_end s \<and> ld_end s \<le> PHYSTOP"

definition page_ok :: "'z kmem_scheme \<Rightarrow> uint64 \<Rightarrow> bool" where
  "page_ok s p \<longleftrightarrow> aligned p \<and> ld_end s \<le> p \<and> p < PHYSTOP"

definition kmem_inv :: "'z kmem_scheme \<Rightarrow> uint64 list \<Rightarrow> bool" where
  "kmem_inv s xs \<longleftrightarrow>
     layout_ok s \<and> ready KmemLock s \<and> free_chain (pmem s) (freelist s) xs \<and> distinct xs
     \<and> (\<forall>x \<in> set xs. page_ok s x)"

section \<open>Locks and memory\<close>

text \<open>Taking and releasing locks does not touch memory, and commutes with writing to it.\<close>

lemma kmem_lock_simps [simp]:
  "pmem (acquired l s) = pmem s" "pmem (relock s) = pmem s"
  "freelist (acquired l s) = freelist s" "freelist (relock s) = freelist s"
  "ld_end (acquired l s) = ld_end s" "ld_end (relock s) = ld_end s"
  "ld_etext (acquired l s) = ld_etext s" "ld_etext (relock s) = ld_etext s"
  "ld_trampoline (acquired l s) = ld_trampoline s" "ld_trampoline (relock s) = ld_trampoline s"
  by (simp_all add: acquired_def pushed_def relock_def upd_lock_def)

lemma kmem_lock_upd [simp]:
  "(acquired l s)\<lparr>pmem := m\<rparr> = acquired l (s\<lparr>pmem := m\<rparr>)"
  "(acquired l s)\<lparr>freelist := f\<rparr> = acquired l (s\<lparr>freelist := f\<rparr>)"
  "(relock s)\<lparr>pmem := m\<rparr> = relock (s\<lparr>pmem := m\<rparr>)"
  "(relock s)\<lparr>freelist := f\<rparr> = relock (s\<lparr>freelist := f\<rparr>)"
  by (simp_all add: acquired_def pushed_def relock_def upd_lock_def)

lemma kmem_ready_upd [simp]:
  "lock_idle l (s\<lparr>pmem := m\<rparr>) = lock_idle l s" "lock_idle l (s\<lparr>freelist := f\<rparr>) = lock_idle l s"
  "cpu_ok (s\<lparr>pmem := m\<rparr>) = cpu_ok s" "cpu_ok (s\<lparr>freelist := f\<rparr>) = cpu_ok s"
  "ready l (s\<lparr>pmem := m\<rparr>) = ready l s" "ready l (s\<lparr>freelist := f\<rparr>) = ready l s"
  by (simp_all add: ready_def lock_idle_def cpu_ok_def cpu_defs)

lemma set_pmem_eval [simp]: "set_pmem f s = Done () (s\<lparr>pmem := f (pmem s)\<rparr>)"
  by (simp add: set_pmem_def)

lemma page_ok_simps [simp]:
  "page_ok (s\<lparr>pmem := m\<rparr>) = page_ok s" "page_ok (s\<lparr>freelist := f\<rparr>) = page_ok s"
  "page_ok (relock s) = page_ok s" "page_ok (acquired l s) = page_ok s"
  "layout_ok (s\<lparr>pmem := m\<rparr>) = layout_ok s" "layout_ok (s\<lparr>freelist := f\<rparr>) = layout_ok s"
  "layout_ok (relock s) = layout_ok s" "layout_ok (acquired l s) = layout_ok s"
  by (simp_all add: page_ok_def layout_ok_def fun_eq_iff)

lemma kmem_inv_relock [simp]: "kmem_inv (relock s) xs = kmem_inv s xs"
  by (simp add: kmem_inv_def)

section \<open>What the operations do\<close>

lemma kfree_guard: "pa mod PGSIZE \<noteq> 0 \<or> pa < ld_end s \<or> PHYSTOP \<le> pa \<longleftrightarrow> \<not> page_ok s pa"
  unfolding page_ok_def aligned_def not_le [symmetric] by (simp only: de_Morgan_conj not_not)

lemma kfree_eval:
  "ready KmemLock s \<Longrightarrow> page_ok s pa \<Longrightarrow>
   kfree pa s = Done ()
     (relock (s\<lparr>pmem := write64 (memset (pmem s) pa 1 4096) pa (freelist s), freelist := pa\<rparr>))"
  unfolding kfree_def kfree_guard by simp

lemma kfree_panic: "\<not> page_ok s pa \<Longrightarrow> kfree pa s = Panic ''kfree''"
  unfolding kfree_def kfree_guard by simp

lemma kalloc_empty: "ready KmemLock s \<Longrightarrow> freelist s = 0 \<Longrightarrow> kalloc s = Done 0 (relock s)"
  by (simp add: kalloc_def)

lemma kalloc_page:
  "ready KmemLock s \<Longrightarrow> freelist s = r \<Longrightarrow> r \<noteq> 0 \<Longrightarrow>
   kalloc s = Done r
     (relock (s\<lparr>freelist := read64 (pmem s) r, pmem := memset (pmem s) r 5 4096\<rparr>))"
  by (simp add: kalloc_def)

lemma slot_0 [simp]: "slot p 0 = p"
  by (simp add: slot_def)

lemma page_ok_nonzero: "layout_ok s \<Longrightarrow> page_ok s p \<Longrightarrow> p \<noteq> 0"
  by (auto simp: layout_ok_def page_ok_def KERNBASE_def)

lemma free_chain_frame:
  "free_chain m p xs \<Longrightarrow> (\<And>x. x \<in> set xs \<Longrightarrow> agree_on x m m') \<Longrightarrow> free_chain m' p xs"
  by (induction xs arbitrary: p) (use read64_page [of 0] in force)+

lemma free_chain_unique: "free_chain m p xs \<Longrightarrow> free_chain m p ys \<Longrightarrow> xs = ys"
proof (induction xs arbitrary: p ys)
  case Nil
  then show ?case by (cases ys) auto
next
  case (Cons x xs)
  then show ?case by (cases ys) auto
qed

lemma kmem_inv_frame:
  "kmem_inv s xs \<Longrightarrow> (\<And>x. x \<in> set xs \<Longrightarrow> agree_on x (pmem s) m) \<Longrightarrow> kmem_inv (s\<lparr>pmem := m\<rparr>) xs"
  by (auto simp: kmem_inv_def intro: free_chain_frame)

lemma kfree_agree:
  "aligned p \<Longrightarrow> aligned q \<Longrightarrow> p \<noteq> q \<Longrightarrow> agree_on q (write64 (memset m p c 4096) p v) m"
  using write64_agree [of 0 p q "memset m p c 4096" v] memset_agree [of p q m c]
  by (auto intro: agree_on_trans)

lemma kfree_inv:
  assumes "kmem_inv s xs" "page_ok s pa" "pa \<notin> set xs"
  shows "\<exists>t. kfree pa s = Done () t \<and> kmem_inv t (pa # xs)"
proof -
  let ?m = "write64 (memset (pmem s) pa 1 4096) pa (freelist s)"
  have al: "aligned pa" "\<forall>x \<in> set xs. aligned x"
    using assms by (auto simp: page_ok_def kmem_inv_def)
  have "free_chain ?m (freelist s) xs"
    by (rule free_chain_frame [of "pmem s"])
      (use assms al in \<open>auto simp: kmem_inv_def intro!: agree_on_sym [OF kfree_agree]\<close>)
  then show ?thesis
    using assms page_ok_nonzero [of s pa] by (simp add: kmem_inv_def kfree_eval)
qed

lemma kalloc_inv_Nil: "kmem_inv s [] \<Longrightarrow> kalloc s = Done 0 (relock s)"
  by (simp add: kmem_inv_def kalloc_empty)

lemma kalloc_inv_explicit:
  assumes "kmem_inv s (p # xs)"
  shows "\<exists>t f. kalloc s = Done p t \<and> kmem_inv t xs
    \<and> t = relock (s\<lparr>freelist := f, pmem := memset (pmem s) p 5 4096\<rparr>)"
proof -
  let ?m = "memset (pmem s) p 5 4096"
  have head: "freelist s = p" "p \<noteq> 0" "free_chain (pmem s) (read64 (pmem s) p) xs"
    using assms by (auto simp: kmem_inv_def)
  have "free_chain ?m (read64 (pmem s) p) xs"
    by (rule free_chain_frame [OF head(3)], rule agree_on_sym [OF memset_agree])
      (use assms in \<open>auto simp: kmem_inv_def page_ok_def\<close>)
  then show ?thesis
    using assms head by (auto simp: kmem_inv_def kalloc_page)
qed

lemma kalloc_inv_Cons:
  assumes "kmem_inv s (p # xs)"
  shows "\<exists>t. kalloc s = Done p t \<and> kmem_inv t xs \<and> (\<forall>a. pmem t a = (if on_page p a then 5 else pmem s a))"
  using kalloc_inv_explicit [OF assms] by (auto simp: memset_page)

text \<open>
  \<open>mem_step s t\<close>: between \<open>s\<close> and \<open>t\<close> only memory and the free list changed (and the saved
  interrupt-enable bit of this hart).
\<close>

definition mem_step :: "'z kmem_scheme \<Rightarrow> 'z kmem_scheme \<Rightarrow> bool" where
  "mem_step s t \<longleftrightarrow> (\<exists>m f. relock t = relock (s\<lparr>freelist := f, pmem := m\<rparr>))"

lemma mem_step_refl [simp]: "mem_step s s"
  unfolding mem_step_def by (rule exI [of _ "pmem s"], rule exI [of _ "freelist s"]) simp

lemma mem_step_relock [simp]: "mem_step s (relock t) = mem_step s t"
  by (simp add: mem_step_def)

lemma mem_step_trans [trans]:
  assumes "mem_step s t" "mem_step t u" shows "mem_step s u"
proof -
  obtain m f m' f' where 1: "relock t = relock (s\<lparr>freelist := f, pmem := m\<rparr>)"
      and 2: "relock u = relock (t\<lparr>freelist := f', pmem := m'\<rparr>)"
    using assms by (auto simp: mem_step_def)
  have "relock u = (relock t)\<lparr>freelist := f', pmem := m'\<rparr>" using 2 by simp
  also have "\<dots> = relock (s\<lparr>freelist := f', pmem := m'\<rparr>)" unfolding 1 by simp
  finally show ?thesis unfolding mem_step_def by blast
qed

lemma mem_step_upd [simp]:
  "mem_step s (s\<lparr>pmem := m\<rparr>)" "mem_step s (s\<lparr>freelist := f\<rparr>)" "mem_step s (s\<lparr>freelist := f, pmem := m\<rparr>)"
  "mem_step s (s\<lparr>pmem := m, freelist := f\<rparr>)"
proof -
  show "mem_step s (s\<lparr>pmem := m\<rparr>)"
    unfolding mem_step_def by (rule exI [of _ m], rule exI [of _ "freelist s"]) simp
  show "mem_step s (s\<lparr>freelist := f\<rparr>)"
    unfolding mem_step_def by (rule exI [of _ "pmem s"], rule exI [of _ f]) simp
  show 1: "mem_step s (s\<lparr>freelist := f, pmem := m\<rparr>)" unfolding mem_step_def by blast
  have "s\<lparr>pmem := m, freelist := f\<rparr> = s\<lparr>freelist := f, pmem := m\<rparr>" by simp
  then show "mem_step s (s\<lparr>pmem := m, freelist := f\<rparr>)" using 1 by (simp only:)
qed

lemma mem_step_fields:
  assumes "mem_step s t"
  shows "hart t = hart s" "sie t = sie s" "locks t = locks s" "ready l t = ready l s" "cpu_ok t = cpu_ok s"
    "lock_idle l t = lock_idle l s" "ld_end t = ld_end s" "page_ok t = page_ok s" "layout_ok t = layout_ok s"
proof -
  obtain m f where eq: "relock t = relock (s\<lparr>freelist := f, pmem := m\<rparr>)"
    using assms by (auto simp: mem_step_def)
  show "hart t = hart s" using arg_cong [OF eq, of hart] by simp
  show "sie t = sie s" using arg_cong [OF eq, of sie] by simp
  show "locks t = locks s" using arg_cong [OF eq, of locks] by simp
  show "ready l t = ready l s" using arg_cong [OF eq, of "ready l"] by simp
  show "cpu_ok t = cpu_ok s" using arg_cong [OF eq, of cpu_ok] by simp
  show "lock_idle l t = lock_idle l s" using arg_cong [OF eq, of "lock_idle l"] by simp
  show "ld_end t = ld_end s" using arg_cong [OF eq, of ld_end] by simp
  show "page_ok t = page_ok s" using arg_cong [OF eq, of page_ok] by simp
  show "layout_ok t = layout_ok s" using arg_cong [OF eq, of layout_ok] by simp
qed

lemma kfree_explicit:
  assumes "kmem_inv s fl" "page_ok s pa" "pa \<notin> set fl"
  shows "\<exists>t. kfree pa s = Done () t \<and> kmem_inv t (pa # fl) \<and> mem_step s t
    \<and> (\<forall>q. aligned q \<longrightarrow> q \<noteq> pa \<longrightarrow> agree_on q (pmem s) (pmem t))"
proof -
  obtain t where t: "kfree pa s = Done () t" "kmem_inv t (pa # fl)" using kfree_inv [OF assms] by blast
  have teq: "t = relock (s\<lparr>pmem := write64 (memset (pmem s) pa 1 4096) pa (freelist s), freelist := pa\<rparr>)"
    using t(1) kfree_eval [of s pa] assms by (simp add: kmem_inv_def)
  have "agree_on q (pmem s) (pmem t)" if "aligned q" "q \<noteq> pa" for q
    unfolding teq using that assms(2) by (auto simp: page_ok_def intro!: agree_on_sym [OF kfree_agree])
  moreover have "mem_step s t" by (simp add: teq)
  ultimately show ?thesis using t by blast
qed

section \<open>The interface\<close>

text \<open>
  What a client of the allocator relies on: \<open>inv s ps\<close> says that \<open>ps\<close> are the pages the
  allocator can still hand out, in the order in which it will.
\<close>

locale page_allocator =
  fixes alloc :: "('s, 'p) kop"
    and free :: "'p \<Rightarrow> ('s, unit) kop"
    and null :: 'p
    and inv :: "'s \<Rightarrow> 'p list \<Rightarrow> bool"
    and valid :: "'s \<Rightarrow> 'p \<Rightarrow> bool"
  assumes alloc_none: "inv s [] \<Longrightarrow> \<exists>t. alloc s = Done null t \<and> inv t []"
    and alloc_some: "inv s (p # ps) \<Longrightarrow> \<exists>t. alloc s = Done p t \<and> inv t ps"
    and free_page: "inv s ps \<Longrightarrow> valid s p \<Longrightarrow> p \<notin> set ps \<Longrightarrow> \<exists>t. free p s = Done () t \<and> inv t (p # ps)"
    and pages: "inv s ps \<Longrightarrow> distinct ps \<and> null \<notin> set ps \<and> (\<forall>p \<in> set ps. valid s p)"
    and valid_alloc: "alloc s = Done p t \<Longrightarrow> inv s ps \<Longrightarrow> valid t q = valid s q"
begin

text \<open>Calls in a row hand out the free pages one after the other, and then nothing.\<close>

lemma alloc_in_order:
  "inv s (ps @ qs) \<Longrightarrow> \<exists>t. kalloc_seq alloc (length ps) s = Done ps t \<and> inv t qs"
proof (induction ps arbitrary: s)
  case (Cons p ps)
  then obtain u where "alloc s = Done p u" "inv u (ps @ qs)" using alloc_some [of s p "ps @ qs"] by auto
  then show ?case using Cons.IH [of u] by auto
qed simp

lemma alloc_exhausted:
  "inv s ps \<Longrightarrow> \<exists>t. kalloc_seq alloc (length ps + 1) s = Done (ps @ [null]) t \<and> inv t []"
proof (induction ps arbitrary: s)
  case Nil
  then show ?case using alloc_none by fastforce
next
  case (Cons p ps)
  then obtain u where "alloc s = Done p u" "inv u ps" using alloc_some by blast
  then show ?case using Cons.IH [of u] by auto
qed

text \<open>A page that is handed out and given back is the next one to be handed out.\<close>

lemma alloc_free:
  assumes "inv s (p # ps)"
  shows "\<exists>t u. alloc s = Done p t \<and> free p t = Done () u \<and> inv u (p # ps)"
proof -
  obtain t where t: "alloc s = Done p t" "inv t ps" using alloc_some [OF assms] by blast
  moreover have "p \<notin> set ps" "valid t p"
    using pages [OF assms] valid_alloc [OF t(1) assms] by simp_all
  ultimately show ?thesis using free_page by blast
qed

end

lemma kalloc_layout: "kmem_inv s ps \<Longrightarrow> kalloc s = Done p t \<Longrightarrow> page_ok t = page_ok s \<and> layout_ok t"
  by (cases ps) (auto simp: kalloc_inv_Nil kmem_inv_def kalloc_page)

lemma kmem_inv_pages: "kmem_inv s ps \<Longrightarrow> distinct ps \<and> 0 \<notin> set ps \<and> (\<forall>p \<in> set ps. page_ok s p)"
  using page_ok_nonzero [of s 0] by (auto simp: kmem_inv_def)

interpretation km: page_allocator kalloc kfree 0 kmem_inv page_ok
proof
  show "kmem_inv s [] \<Longrightarrow> \<exists>t. kalloc s = Done 0 t \<and> kmem_inv t []" for s :: "'a kmem_scheme"
    by (simp add: kalloc_inv_Nil)
  show "kmem_inv s (p # ps) \<Longrightarrow> \<exists>t. kalloc s = Done p t \<and> kmem_inv t ps" for s :: "'a kmem_scheme" and p ps
    using kalloc_inv_Cons by blast
  show "kmem_inv s ps \<Longrightarrow> page_ok s p \<Longrightarrow> p \<notin> set ps \<Longrightarrow> \<exists>t. kfree p s = Done () t \<and> kmem_inv t (p # ps)"
    for s :: "'a kmem_scheme" and p ps by (rule kfree_inv)
  show "kmem_inv s ps \<Longrightarrow> distinct ps \<and> 0 \<notin> set ps \<and> (\<forall>p \<in> set ps. page_ok s p)"
    for s :: "'a kmem_scheme" and ps by (rule kmem_inv_pages)
  show "kalloc s = Done p t \<Longrightarrow> kmem_inv s ps \<Longrightarrow> page_ok t q = page_ok s q"
    for s t :: "'a kmem_scheme" and p ps q by (simp add: kalloc_layout)
qed

section \<open>Boot\<close>

definition page_range :: "uint64 \<Rightarrow> nat \<Rightarrow> uint64 list" where
  "page_range p n = map (\<lambda>i. p + of_nat i * 4096) [0..<n]"

lemma page_range_Suc: "page_range p (Suc n) = p # page_range (p + 4096) n"
  by (auto simp: page_range_def upt_conv_Cons map_Suc_upt [symmetric] algebra_simps simp del: upt_Suc)

lemma unat_PHYSTOP: "unat PHYSTOP = 2281701376"
  by (simp add: PHYSTOP_def KERNBASE_def)

lemma unat_next_page: "unat (p :: uint64) < 2281701376 \<Longrightarrow> unat (p + 4096) = unat p + 4096"
  by (simp add: unat_word_ariths)

lemma page_range_above: "q \<in> set (page_range p n) \<Longrightarrow> unat p + n * 4096 \<le> 2281701376 \<Longrightarrow> unat p \<le> unat q"
  by (auto simp: page_range_def unat_word_ariths)

lemma aligned_next: "aligned p \<Longrightarrow> unat p < 2281701376 \<Longrightarrow> aligned (p + 4096)"
  by (simp add: aligned_unat unat_next_page)

lemma freerange_loop_inv:
  assumes "kmem_inv s xs" "aligned p" "ld_end s \<le> p" "n < fuel"
    and "unat p + n * 4096 \<le> 2281701376" "2281701376 < unat p + n * 4096 + 4096"
    and "\<forall>x \<in> set xs. x < p"
  shows "\<exists>t. freerange_loop fuel p PHYSTOP s = Done () t \<and> kmem_inv t (rev (page_range p n) @ xs) \<and> mem_step s t"
  using assms
proof (induction n arbitrary: fuel p s xs)
  case 0
  then have "\<not> p + PGSIZE \<le> PHYSTOP"
    by (auto simp: word_le_nat_alt unat_PHYSTOP PGSIZE_def unat_word_ariths)
  with 0 show ?case by (cases fuel) (simp_all add: page_range_def)
next
  case (Suc n)
  then obtain f where f: "fuel = Suc f" by (cases fuel) auto
  have small: "unat p < 2281701376" using Suc.prems(5) by simp
  note next_p = unat_next_page [OF small] and al = aligned_next [OF Suc.prems(2) small]
  have ok: "page_ok s p"
    using Suc.prems small by (simp add: page_ok_def word_less_nat_alt unat_PHYSTOP)
  obtain u where u: "kfree p s = Done () u" "kmem_inv u (p # xs)" "mem_step s u"
    using kfree_explicit [OF Suc.prems(1) ok] Suc.prems(7) by auto
  have "p < p + 4096" using next_p by (simp add: word_less_nat_alt)
  moreover have "ld_end u = ld_end s" by (rule mem_step_fields(7) [OF u(3)])
  ultimately obtain t where t: "freerange_loop f (p + 4096) PHYSTOP u = Done () t"
      "kmem_inv t (rev (page_range (p + 4096) n) @ p # xs)" "mem_step u t"
    using Suc.IH [OF u(2) al, of f] Suc.prems next_p f
    by (force intro: order_less_trans order.trans [OF _ less_imp_le])
  moreover have "p + PGSIZE \<le> PHYSTOP"
    using next_p Suc.prems(5) by (simp add: word_le_nat_alt unat_PHYSTOP PGSIZE_def)
  ultimately show ?case using u f mem_step_trans [OF u(3) t(3)] by (simp add: PGSIZE_def page_range_Suc)
qed

lemma kinit_inv:
  assumes "layout_ok s" "cpu_ok s" "freelist s = 0"
  defines "p \<equiv> PGROUNDUP (ld_end s)"
    and "u \<equiv> upd_lock KmemLock (\<lambda>_. \<lparr>locked = False, lkname = ''kmem'', lkcpu = None\<rparr>) s"
  shows "\<exists>t. kinit s = Done () t \<and> kmem_inv t (rev (page_range p ((2281701376 - unat p) div 4096))) \<and> mem_step u t"
proof -
  let ?n = "(2281701376 - unat p) div 4096"
  have u: "initlock KmemLock ''kmem'' s = Done () u" "ld_end u = ld_end s"
    by (simp_all add: initlock_def u_def upd_lock_def)
  have inv: "kmem_inv u []"
    using assms(1-3)
    by (simp add: u_def upd_lock_def kmem_inv_def layout_ok_def ready_def lock_idle_def cpu_ok_def cpu_defs)
  have top: "unat (ld_end s) \<le> 2281701376"
    using assms(1) by (simp add: layout_ok_def word_le_nat_alt unat_PHYSTOP)
  have p: "unat p = (unat (ld_end s) + 4095) div 4096 * 4096"
    unfolding p_def using top by (intro unat_PGROUNDUP) simp
  moreover have "(unat (ld_end s) + 4095) div 4096 \<le> (2281701376 + 4095) div 4096"
    using top by (intro div_le_mono) simp
  ultimately have le: "unat p \<le> 2281701376" by simp
  have fuel: "unat (PHYSTOP - p) = 2281701376 - unat p"
    using le by (simp add: unat_sub word_le_nat_alt unat_PHYSTOP)
  have "\<exists>t. freerange_loop (?n + 1) p PHYSTOP u = Done () t \<and> kmem_inv t (rev (page_range p ?n) @ []) \<and> mem_step u t"
    using le p by (intro freerange_loop_inv [OF inv]) (auto simp: aligned_unat word_le_nat_alt u(2))
  then show ?thesis by (simp add: kinit_def u freerange_def fuel flip: p_def del: freerange_loop.simps)
qed

section \<open>Properties\<close>

text \<open>
  C7. After \<^verbatim>\<open>kinit\<close> the free list is a chain through memory of exactly the pages from
  \<^verbatim>\<open>PGROUNDUP(end)\<close> up to \<^verbatim>\<open>PHYSTOP\<close>, each once, whatever memory held before, with the lock
  free; the loop ends.
\<close>

theorem kinit_frees_all:
  assumes "layout_ok s" "cpu_ok s" "freelist s = 0"
  shows "\<exists>t. kinit s = Done () t
    \<and> kmem_inv t (rev (page_range (PGROUNDUP (ld_end s))
        ((unat PHYSTOP - unat (PGROUNDUP (ld_end s))) div 4096)))"
  using kinit_inv [OF assms] by (auto simp: unat_PHYSTOP)

definition boot_machine :: kmem where
  "boot_machine = \<lparr>hart = 0, cpus = (\<lambda>_. \<lparr>cproc = None, noff = 0, intena = False\<rparr>),
     sie = (\<lambda>_. False), locks = (\<lambda>_. \<lparr>locked = False, lkname = [], lkcpu = None\<rparr>),
     pmem = (\<lambda>_. 0), freelist = 0, ld_end = 0x87FF9123, ld_etext = 0x80008000,
     ld_trampoline = 0x80007000\<rparr>"

lemma boot_machine_ok: "layout_ok boot_machine" "cpu_ok boot_machine" "freelist boot_machine = 0"
  by (simp_all add: boot_machine_def layout_ok_def cpu_ok_def cpu_defs KERNBASE_def PHYSTOP_def)

lemma boot_machine_pages:
  "unat (PGROUNDUP (ld_end boot_machine)) = 2281676800" "PGROUNDUP (ld_end boot_machine) = 0x87FFA000"
  by (simp_all add: boot_machine_def PGROUNDUP_def PGSIZE_def)

definition boot_pages :: "uint64 list" where
  "boot_pages = [0x87FFF000, 0x87FFE000, 0x87FFD000, 0x87FFC000, 0x87FFB000, 0x87FFA000]"

lemma boot_page_range: "rev (page_range 0x87FFA000 6) = boot_pages"
  by (simp add: page_range_def boot_pages_def upt_rec numeral_nat)

theorem kinit_frees_all_witness:
  "layout_ok boot_machine \<and> cpu_ok boot_machine \<and> freelist boot_machine = 0
   \<and> (\<exists>t. kinit boot_machine = Done () t \<and> kmem_inv t boot_pages)"
  using kinit_frees_all [OF boot_machine_ok] boot_machine_ok
  by (simp add: boot_machine_pages unat_PHYSTOP boot_page_range)

text \<open>A machine after boot.\<close>

lemma booted: "\<exists>s. kinit boot_machine = Done () s \<and> kmem_inv s boot_pages"
  using kinit_inv [OF boot_machine_ok] by (auto simp: boot_machine_pages boot_page_range)

text \<open>
  C8. With the free list \<open>ps\<close>, successive calls of \<^verbatim>\<open>kalloc\<close> return exactly the pages \<open>ps\<close>, in
  order, and then 0; the pages are distinct, page-aligned and between \<^verbatim>\<open>end\<close> and \<^verbatim>\<open>PHYSTOP\<close>. So
  no page is handed out twice and the allocator fails only when nothing is left.
\<close>

theorem kalloc_exhausts:
  assumes "kmem_inv s ps"
  shows "(\<exists>t. kalloc_seq kalloc (length ps + 1) s = Done (ps @ [0]) t \<and> kmem_inv t [])
    \<and> distinct ps \<and> (\<forall>p \<in> set ps. p mod PGSIZE = 0 \<and> ld_end s \<le> p \<and> p < PHYSTOP)"
  using km.alloc_exhausted [OF assms] kmem_inv_pages [OF assms]
  by (simp add: page_ok_def aligned_def)

theorem kalloc_exhausts_witness:
  "\<exists>s t :: kmem. kmem_inv s boot_pages \<and> kalloc_seq kalloc 7 s = Done (boot_pages @ [0]) t"
proof -
  obtain s :: kmem where s: "kmem_inv s boot_pages" using booted by blast
  have "length boot_pages + 1 = 7" by (simp add: boot_pages_def)
  with s kalloc_exhausts [OF s(1)] show ?thesis by metis
qed

text \<open>
  C9. \<^verbatim>\<open>kfree\<close> panics on every pointer that is not an aligned page between \<^verbatim>\<open>end\<close> and
  \<^verbatim>\<open>PHYSTOP\<close>; on a page that is not already free it puts the page at the front of the free
  list, changes no byte outside that page, and the next \<^verbatim>\<open>kalloc\<close> returns it, filled with 5s.
\<close>

theorem kfree_then_kalloc:
  assumes "kmem_inv s ps" "pa \<notin> set ps"
  shows "(if page_ok s pa
          then \<exists>t u. kfree pa s = Done () t \<and> kmem_inv t (pa # ps)
             \<and> (\<forall>a. \<not> on_page pa a \<longrightarrow> pmem t a = pmem s a)
             \<and> kalloc t = Done pa u \<and> kmem_inv u ps
             \<and> (\<forall>a. pmem u a = (if on_page pa a then 5 else pmem s a))
          else kfree pa s = Panic ''kfree'')"
proof (cases "page_ok s pa")
  case True
  obtain t where t: "kfree pa s = Done () t" "kmem_inv t (pa # ps)"
    using kfree_inv [OF assms(1) True assms(2)] by blast
  have frame: "\<forall>a. \<not> on_page pa a \<longrightarrow> pmem t a = pmem s a"
    using t(1) True assms(1) write64_page [of 0 pa]
    by (auto simp: kfree_eval kmem_inv_def memset_page)
  obtain u where "kalloc t = Done pa u" "kmem_inv u ps" "\<forall>a. pmem u a = (if on_page pa a then 5 else pmem t a)"
    using kalloc_inv_Cons [OF t(2)] by blast
  with t frame True show ?thesis by auto
qed (simp add: kfree_panic)

theorem kfree_then_kalloc_witness:
  "\<exists>s t u :: kmem. kmem_inv s (tl boot_pages) \<and> kfree 0x87FFF000 s = Done () t \<and> kalloc t = Done 0x87FFF000 u
     \<and> kfree 0x87FFF008 s = Panic ''kfree''"
proof -
  obtain s :: kmem where s: "kmem_inv s (0x87FFF000 # tl boot_pages)" using booted by (auto simp: boot_pages_def)
  obtain t where t: "kmem_inv t (tl boot_pages)" "kalloc s = Done 0x87FFF000 t"
    using kalloc_inv_Cons [OF s] by blast
  have "page_ok t 0x87FFF000" "\<not> page_ok t 0x87FFF008"
    using kmem_inv_pages [OF s] kalloc_layout [OF s t(2)]
    by (auto simp: page_ok_def aligned_def PGSIZE_def)
  moreover have "0x87FFF000 \<notin> set (tl boot_pages)" "0x87FFF008 \<notin> set (tl boot_pages)" by (simp_all add: boot_pages_def)
  ultimately show ?thesis
    using t(1) kfree_then_kalloc [OF t(1), where pa = "0x87FFF000"]
      kfree_then_kalloc [OF t(1), where pa = "0x87FFF008"] by auto
qed

end
