(* ===== verification/Pagetable.thy ===== *)
theory Pagetable
  imports Kalloc "HOL-Library.Sublist"
begin

text \<open>
  The tree of tables behind a page table root, seen as a function from paths to pages.

  \<open>node_at\<close> follows a path of table indices through valid entries. A table is well formed
  (\<open>pt_tree\<close>) when no two paths reach the same page and interior entries carry no permission.
  \<open>lookup\<close> is the leaf entry of a virtual address. The lemmas say what one store to an entry,
  or a change of pages outside the tree, does to paths and leaf entries; the proofs about
  \<^verbatim>\<open>vm.c\<close> use only these.
\<close>

section \<open>Paths\<close>

definition ent :: "mem \<Rightarrow> uint64 \<Rightarrow> uint64 \<Rightarrow> pte" where
  "ent m p i = read64 m (slot p i)"

fun node_at :: "mem \<Rightarrow> uint64 \<Rightarrow> uint64 list \<Rightarrow> uint64 option" where
  "node_at m p [] = Some p"
| "node_at m p (i # is) =
     (if ent m p i AND PTE_V \<noteq> 0 then node_at m (PTE2PA (ent m p i)) is else None)"

definition short :: "nat \<Rightarrow> uint64 list \<Rightarrow> bool" where
  "short l is \<longleftrightarrow> length is \<le> l \<and> (\<forall>i \<in> set is. i < 512)"

definition nodes :: "mem \<Rightarrow> nat \<Rightarrow> uint64 \<Rightarrow> uint64 set" where
  "nodes m l p = {q. \<exists>is. short l is \<and> node_at m p is = Some q}"

definition pt_tree :: "mem \<Rightarrow> nat \<Rightarrow> uint64 \<Rightarrow> bool" where
  "pt_tree m l p \<longleftrightarrow>
     (\<forall>is js q. short l is \<longrightarrow> short l js \<longrightarrow> node_at m p is = Some q \<longrightarrow> node_at m p js = Some q \<longrightarrow> is = js)
     \<and> (\<forall>is i q. short (l - 1) is \<longrightarrow> 0 < l \<longrightarrow> i < 512 \<longrightarrow> node_at m p is = Some q
          \<longrightarrow> ent m q i AND PTE_V \<noteq> 0 \<longrightarrow> ent m q i AND (PTE_R OR PTE_W OR PTE_X) = 0)
     \<and> (\<forall>q \<in> nodes m l p. aligned q)"

definition leaf_node :: "mem \<Rightarrow> uint64 \<Rightarrow> uint64 \<Rightarrow> uint64 option" where
  "leaf_node m pt va = node_at m pt [PX 2 va, PX 1 va]"

definition lookup :: "mem \<Rightarrow> uint64 \<Rightarrow> uint64 \<Rightarrow> pte" where
  "lookup m pt va = (case leaf_node m pt va of None \<Rightarrow> 0 | Some p \<Rightarrow> ent m p (PX 0 va))"

definition same_vpage :: "uint64 \<Rightarrow> uint64 \<Rightarrow> bool" where
  "same_vpage va va' \<longleftrightarrow> PX 2 va = PX 2 va' \<and> PX 1 va = PX 1 va' \<and> PX 0 va = PX 0 va'"

section \<open>Bits of entries and addresses\<close>

lemma PX_less [simp]: "PX l va < 512"
proof -
  have "drop_bit (PXSHIFT l) va AND 0x1FF \<le> 0x1FF" by (rule word_and_le1)
  then show ?thesis unfolding PX_def by (rule order_le_less_trans) simp
qed

lemma PTE_V_1: "PTE_V = 1"
  by (simp add: PTE_V_def)

lemma valid_bit: "e AND PTE_V \<noteq> 0 \<longleftrightarrow> bit e 0"
  by (simp add: PTE_V_1 bit_0 and_one_eq odd_iff_mod_2_eq_one)

lemma aligned_bits: "aligned p \<longleftrightarrow> (\<forall>n < 12. \<not> bit p n)"
proof -
  have "aligned p \<longleftrightarrow> take_bit 12 p = 0"
    by (simp add: aligned_def PGSIZE_def take_bit_eq_mod)
  then show ?thesis by (auto simp: bit_eq_iff bit_simps)
qed

lemma PTE2PA_PA2PTE:
  assumes "aligned p" "\<And>n. 10 \<le> n \<Longrightarrow> \<not> bit f n"
  shows "PTE2PA (PA2PTE p OR f) = p"
proof (rule bit_word_eqI)
  fix n :: nat
  assume "n < LENGTH(64)"
  then show "bit (PTE2PA (PA2PTE p OR f)) n = bit p n"
    using assms by (cases "n < 12") (auto simp: PTE2PA_def PA2PTE_def bit_simps aligned_bits)
qed

lemma PA2PTE_low: "n < 10 \<Longrightarrow> bit (PA2PTE p OR f) n = bit f n"
  by (simp add: PA2PTE_def bit_simps)

lemma small_bits: "unat (f :: uint64) < 2 ^ k \<Longrightarrow> k \<le> n \<Longrightarrow> \<not> bit f n"
proof -
  assume "unat f < 2 ^ k" "k \<le> n"
  then have "unat f < 2 ^ n" by (meson order_less_le_trans one_le_numeral power_increasing)
  then have "\<not> bit (unat f) n" by (simp add: bit_iff_odd)
  then show ?thesis by (auto simp: bit_unsigned_iff dest: bit_imp_le_length)
qed

lemma small_flag: "f < 1024 \<Longrightarrow> 10 \<le> n \<Longrightarrow> \<not> bit (f :: uint64) n"
  by (rule small_bits [of f 10]) (simp_all add: word_less_nat_alt)

lemma interior_flags: "(PA2PTE n OR PTE_V) AND (PTE_R OR PTE_W OR PTE_X) = 0"
proof (rule bit_word_eqI)
  fix k :: nat
  have rwx: "PTE_R OR PTE_W OR PTE_X = 14" by (simp add: PTE_R_def PTE_W_def PTE_X_def)
  show "bit ((PA2PTE n OR PTE_V) AND (PTE_R OR PTE_W OR PTE_X)) k = bit (0 :: uint64) k"
    unfolding rwx using small_flag [of 14 k]
    by (cases "k < 10") (auto simp: bit_and_iff PA2PTE_low PTE_V_1 bit_1_iff)
qed

lemma MAXVA_unat: "unat MAXVA = 2 ^ 38"
  by (simp add: MAXVA_def)

lemma PX_bit: "bit (PX l va) n \<longleftrightarrow> n < 9 \<and> bit va (12 + 9 * l + n)"
proof -
  have m: "(0x1FF :: uint64) = mask 9" by (simp add: mask_eq_exp_minus_1)
  show ?thesis unfolding PX_def PXSHIFT_def m by (auto simp: bit_simps dest: bit_imp_le_length)
qed

lemma same_vpage_iff:
  assumes "va < MAXVA" "va' < MAXVA"
  shows "same_vpage va va' \<longleftrightarrow> PGROUNDDOWN va = PGROUNDDOWN va'"
proof
  have high: "\<not> bit w n" if "w < MAXVA" "38 \<le> n" for w :: uint64 and n
    using that by (intro small_bits [of w 38]) (simp_all add: word_less_nat_alt MAXVA_unat)
  assume same: "same_vpage va va'"
  have px: "bit va (12 + 9 * l + k) = bit va' (12 + 9 * l + k)" if "l < 3" "k < 9" for l k
  proof -
    have "PX l va = PX l va'" using same that(1) by (auto simp: same_vpage_def less_Suc_eq numeral_3_eq_3 numeral_2_eq_2)
    then have "bit (PX l va) k = bit (PX l va') k" by simp
    then show ?thesis using that(2) by (simp add: PX_bit)
  qed
  have "bit va n = bit va' n" if "12 \<le> n" for n
  proof (cases "n < 39")
    case True
    then show ?thesis using px [of "(n - 12) div 9" "(n - 12) mod 9"] that by (simp add: algebra_simps)
  next
    case False
    then show ?thesis using high assms by simp
  qed
  then show "PGROUNDDOWN va = PGROUNDDOWN va'"
    by (intro bit_word_eqI) (auto simp: PGROUNDDOWN_bits bit_simps)
next
  assume eq: "PGROUNDDOWN va = PGROUNDDOWN va'"
  have "bit va n = bit va' n" if "12 \<le> n" for n
    using arg_cong [OF eq, of "\<lambda>w. bit w n"] that
    by (auto simp: PGROUNDDOWN_bits bit_simps dest: bit_imp_le_length)
  then show "same_vpage va va'"
    unfolding same_vpage_def by (intro conjI bit_word_eqI) (auto simp: PX_bit)
qed

section \<open>Following paths\<close>

lemma node_at_append:
  "node_at m p (is @ js) = (case node_at m p is of None \<Rightarrow> None | Some q \<Rightarrow> node_at m q js)"
  by (induction "is" arbitrary: p) auto

declare node_at.simps(2) [simp del]

lemma node_at_snoc:
  "node_at m p (is @ [i]) = (case node_at m p is of None \<Rightarrow> None
     | Some q \<Rightarrow> if ent m q i AND PTE_V \<noteq> 0 then Some (PTE2PA (ent m q i)) else None)"
  by (simp add: node_at_append node_at.simps(2) split: option.split)

lemma short_append: "short l (is @ js) \<Longrightarrow> short l is"
  by (simp add: short_def)

lemma short_snoc: "short (Suc l) (is @ [i]) \<longleftrightarrow> short l is \<and> i < 512"
  by (auto simp: short_def)

lemma short_Nil [simp]: "short l []"
  by (simp add: short_def)

lemma nodes_root [simp]: "p \<in> nodes m l p"
  by (auto simp: nodes_def intro: exI [of _ "[]"])

lemma nodesI: "short l is \<Longrightarrow> node_at m p is = Some q \<Longrightarrow> q \<in> nodes m l p"
  by (auto simp: nodes_def)

text \<open>Changing pages outside the tree changes nothing.\<close>

lemma node_at_frame:
  assumes "\<And>q i. q \<in> nodes m l p \<Longrightarrow> i < 512 \<Longrightarrow> ent m' q i = ent m q i" "short l is"
  shows "node_at m' p is = node_at m p is"
  using assms(2)
proof (induction "is" rule: rev_induct)
  case (snoc i "is")
  then have IH: "node_at m' p is = node_at m p is" and i: "i < 512" and sh: "short l is"
    by (auto simp: short_def)
  show ?case
  proof (cases "node_at m p is")
    case (Some q)
    then have "ent m' q i = ent m q i" using assms(1) i nodesI [OF sh] by blast
    then show ?thesis by (simp add: node_at_snoc IH Some)
  qed (simp add: node_at_snoc IH)
qed simp

text \<open>
  A store to entry \<open>i\<close> of the table at path \<open>is\<close> changes only the paths through that entry.
\<close>

lemma node_at_store:
  assumes tree: "pt_tree m l p" and at: "short l is" "node_at m p is = Some q"
    and same: "\<And>r j. r \<in> nodes m l p \<Longrightarrow> j < 512 \<Longrightarrow> \<not> (r = q \<and> j = i) \<Longrightarrow> ent m' r j = ent m r j"
    and js: "short l js" "\<not> prefix (is @ [i]) js"
  shows "node_at m' p js = node_at m p js"
  using js
proof (induction js rule: rev_induct)
  case (snoc j js)
  then have sh: "short l js" and j: "j < 512" by (auto simp: short_def)
  have "\<not> prefix (is @ [i]) js" using snoc.prems(2) by (auto simp: prefix_def)
  then have IH: "node_at m' p js = node_at m p js" using snoc.IH sh by simp
  show ?case
  proof (cases "node_at m p js")
    case (Some r)
    have "\<not> (r = q \<and> j = i)"
    proof
      assume "r = q \<and> j = i"
      then have "js = is" using tree at sh Some by (auto simp: pt_tree_def)
      with \<open>r = q \<and> j = i\<close> snoc.prems(2) show False by simp
    qed
    then have "ent m' r j = ent m r j" using same nodesI [OF sh Some] j by blast
    then show ?thesis by (simp add: node_at_snoc IH Some)
  qed (simp add: node_at_snoc IH)
qed simp

section \<open>Entries after a store\<close>

lemma ent_write64:
  "aligned q \<Longrightarrow> aligned r \<Longrightarrow> i < 512 \<Longrightarrow> j < 512 \<Longrightarrow>
   ent (write64 m (slot q i) v) r j = (if r = q \<and> j = i then v else ent m r j)"
proof (cases "r = q")
  case True
  assume "i < 512" "j < 512"
  then show ?thesis using True read_slot_other [of i j m q v] by (auto simp: ent_def)
next
  case False
  assume "aligned q" "aligned r" "i < 512" "j < 512"
  then show ?thesis
    using False read64_page [OF _ write64_agree, of j i q r m v] by (auto simp: ent_def)
qed

lemma ent_memset:
  "aligned n \<Longrightarrow> aligned r \<Longrightarrow> j < 512 \<Longrightarrow> ent (memset m n 0 4096) r j = (if r = n then 0 else ent m r j)"
  by (auto simp: ent_def intro!: read64_page memset_agree)

lemma ent_agree: "agree_on r m m' \<Longrightarrow> j < 512 \<Longrightarrow> ent m' r j = ent m r j"
  unfolding ent_def by (rule read64_page [OF _ agree_on_sym])

lemma pt_tree_aligned: "pt_tree m l p \<Longrightarrow> q \<in> nodes m l p \<Longrightarrow> aligned q"
  by (simp add: pt_tree_def)

lemma pt_tree_unique:
  "pt_tree m l p \<Longrightarrow> short l is \<Longrightarrow> short l js \<Longrightarrow> node_at m p is = Some q \<Longrightarrow> node_at m p js = Some q \<Longrightarrow> is = js"
  unfolding pt_tree_def by blast

lemma pt_treeI:
  assumes "\<And>is js q. short 2 is \<Longrightarrow> short 2 js \<Longrightarrow> node_at m p is = Some q \<Longrightarrow> node_at m p js = Some q \<Longrightarrow> is = js"
    and "\<And>is i q. short 1 is \<Longrightarrow> i < 512 \<Longrightarrow> node_at m p is = Some q \<Longrightarrow> ent m q i AND PTE_V \<noteq> 0
          \<Longrightarrow> ent m q i AND (PTE_R OR PTE_W OR PTE_X) = 0"
    and "\<And>q. q \<in> nodes m 2 p \<Longrightarrow> aligned q"
  shows "pt_tree m 2 p"
  unfolding pt_tree_def using assms by simp

lemma short_mono: "short l is \<Longrightarrow> l \<le> k \<Longrightarrow> short k is"
  by (auto simp: short_def)

lemma pt_tree_interior:
  "pt_tree m (Suc l) p \<Longrightarrow> short l is \<Longrightarrow> i < 512 \<Longrightarrow> node_at m p is = Some q \<Longrightarrow> ent m q i AND PTE_V \<noteq> 0 \<Longrightarrow>
   ent m q i AND (PTE_R OR PTE_W OR PTE_X) = 0"
  unfolding pt_tree_def by simp

text \<open>Transfer along memories with the same paths and the same interior entries.\<close>

lemma nodes_cong: "(\<And>is. short l is \<Longrightarrow> node_at m' p is = node_at m p is) \<Longrightarrow> nodes m' l p = nodes m l p"
  unfolding nodes_def by (rule Collect_cong) (metis)

lemma pt_tree_cong:
  assumes "pt_tree m (Suc l) p" "\<And>is. short (Suc l) is \<Longrightarrow> node_at m' p is = node_at m p is"
    and "\<And>is q i. short l is \<Longrightarrow> node_at m p is = Some q \<Longrightarrow> i < 512 \<Longrightarrow> ent m' q i = ent m q i"
  shows "pt_tree m' (Suc l) p"
proof -
  have "nodes m' (Suc l) p = nodes m (Suc l) p" by (rule nodes_cong) (rule assms(2))
  moreover have "node_at m' p is = node_at m p is" if "short l is" for "is"
    using assms(2) short_mono [OF that, of "Suc l"] by simp
  ultimately show ?thesis
    unfolding pt_tree_def
    using assms(2,3) pt_tree_unique [OF assms(1)] pt_tree_interior [OF assms(1)] pt_tree_aligned [OF assms(1)]
    by simp
qed

text \<open>A change of pages that are not in the tree.\<close>

lemma tree_frame:
  assumes "pt_tree m 2 p" "\<And>q. q \<in> nodes m 2 p \<Longrightarrow> agree_on q m m'"
  shows "pt_tree m' 2 p" "nodes m' 2 p = nodes m 2 p" "lookup m' p va = lookup m p va"
    "leaf_node m' p va = leaf_node m p va"
proof -
  have e: "ent m' q i = ent m q i" if "q \<in> nodes m 2 p" "i < 512" for q i
    using assms(2) that ent_agree by blast
  then have n: "node_at m' p is = node_at m p is" if "short 2 is" for "is"
    using that by (rule node_at_frame)
  show "nodes m' 2 p = nodes m 2 p" using n by (rule nodes_cong)
  have "ent m' q i = ent m q i" if "short 1 is" "node_at m p is = Some q" "i < 512" for "is" q i
    using e [OF nodesI [OF short_mono [OF that(1)] that(2)] that(3)] by simp
  then show "pt_tree m' 2 p" using assms(1) n pt_tree_cong [of m 1 p m'] by (simp add: numeral_2_eq_2)
  have "short 2 [PX 2 va, PX 1 va]" by (simp add: short_def)
  then show "leaf_node m' p va = leaf_node m p va" unfolding leaf_node_def by (rule n)
  show "lookup m' p va = lookup m p va"
    using \<open>short 2 [PX 2 va, PX 1 va]\<close> n e nodesI [of 2 "[PX 2 va, PX 1 va]" m p] by (auto simp: lookup_def leaf_node_def split: option.splits)
qed

text \<open>A store to a leaf entry.\<close>

lemma tree_leaf_store:
  fixes v :: pte
  assumes tree: "pt_tree m 2 p" and leaf: "leaf_node m p va = Some q"
  defines "m' \<equiv> write64 m (slot q (PX 0 va)) v"
  shows "pt_tree m' 2 p" "nodes m' 2 p = nodes m 2 p" "leaf_node m' p va' = leaf_node m p va'"
    "lookup m' p va' = (if same_vpage va' va then v else lookup m p va')"
proof -
  let ?is = "[PX 2 va, PX 1 va]"
  have at: "short 2 ?is" "node_at m p ?is = Some q" using leaf by (auto simp: short_def leaf_node_def)
  have al: "aligned r" if "r \<in> nodes m 2 p" for r using pt_tree_aligned [OF tree that] .
  have e: "ent m' r j = (if r = q \<and> j = PX 0 va then v else ent m r j)" if "r \<in> nodes m 2 p" "j < 512" for r j
    unfolding m'_def using that al nodesI [OF at] by (simp add: ent_write64)
  have n: "node_at m' p js = node_at m p js" if "short 2 js" for js
  proof (rule node_at_store [OF tree at _ that])
    show "ent m' r j = ent m r j" if "r \<in> nodes m 2 p" "j < 512" "\<not> (r = q \<and> j = PX 0 va)" for r j
      using e [OF that(1,2)] that(3) by auto
    show "\<not> prefix (?is @ [PX 0 va]) js" using that by (auto simp: short_def prefix_def)
  qed
  show "nodes m' 2 p = nodes m 2 p" using n by (rule nodes_cong)
  have "ent m' r j = ent m r j" if "short 1 is" "node_at m p is = Some r" "j < 512" for "is" r j
  proof -
    have "is \<noteq> ?is" using that(1) by (auto simp: short_def)
    then have "r \<noteq> q" using pt_tree_unique [OF tree _ at(1) that(2)] short_mono [OF that(1)] at(2) by auto
    then show ?thesis using e [OF nodesI [OF short_mono [OF that(1)] that(2)] that(3)] by simp
  qed
  then show "pt_tree m' 2 p" using tree n pt_tree_cong [of m 1 p m'] by (simp add: numeral_2_eq_2)
  have path: "short 2 [PX 2 w, PX 1 w]" for w by (simp add: short_def)
  show lf: "leaf_node m' p va' = leaf_node m p va'" unfolding leaf_node_def using path by (rule n)
  show "lookup m' p va' = (if same_vpage va' va then v else lookup m p va')"
  proof (cases "leaf_node m p va'")
    case None
    then have "\<not> same_vpage va' va" using leaf by (auto simp: same_vpage_def leaf_node_def)
    then show ?thesis using None lf by (simp add: lookup_def)
  next
    case (Some r)
    then have at': "node_at m p [PX 2 va', PX 1 va'] = Some r" by (simp only: leaf_node_def)
    have r: "r \<in> nodes m 2 p" by (rule nodesI [OF path at'])
    have "r = q \<longleftrightarrow> [PX 2 va', PX 1 va'] = ?is"
    proof
      assume "r = q"
      then show "[PX 2 va', PX 1 va'] = ?is" using pt_tree_unique [OF tree path at(1)] at' at(2) by blast
    next
      assume "[PX 2 va', PX 1 va'] = ?is"
      then show "r = q" using at' at(2) by simp
    qed
    then show ?thesis using Some lf e [OF r, of "PX 0 va'"] by (simp add: lookup_def same_vpage_def)
  qed
qed

text \<open>Hanging a fresh, zeroed page into an empty interior entry.\<close>

lemma tree_grow:
  assumes tree: "pt_tree m 2 p" and at: "short 1 is" "node_at m p is = Some q"
    and i: "i < 512" "ent m q i AND PTE_V = 0"
    and n: "aligned n" "n \<notin> nodes m 2 p"
  defines "m' \<equiv> write64 (memset m n 0 4096) (slot q i) (PA2PTE n OR PTE_V)"
  shows "node_at m' p (is @ [i]) = Some n" "pt_tree m' 2 p" "nodes m' 2 p = insert n (nodes m 2 p)"
    "lookup m' p va = lookup m p va"
proof -
  have at2: "short 2 is" using short_mono [OF at(1)] by simp
  have q: "q \<in> nodes m 2 p" using nodesI [OF at2 at(2)] .
  then have nq: "n \<noteq> q" using n(2) by auto
  have al: "aligned r" if "r \<in> nodes m 2 p" for r using pt_tree_aligned [OF tree that] .
  have e: "ent m' r j = (if r = q \<and> j = i then PA2PTE n OR PTE_V else if r = n then 0 else ent m r j)"
    if "aligned r" "j < 512" for r j
    unfolding m'_def using that al q n(1) i(1) by (simp add: ent_write64 ent_memset)
  have fresh: "PTE2PA (PA2PTE n OR PTE_V) = n" "(PA2PTE n OR PTE_V) AND PTE_V \<noteq> 0"
    using n(1) small_flag [of 1] by (auto intro!: PTE2PA_PA2PTE simp: valid_bit PA2PTE_low PTE_V_1)
  have off: "node_at m' p js = node_at m p js" if "short 2 js" "\<not> prefix (is @ [i]) js" for js
  proof (rule node_at_store [OF tree at2 at(2) _ that])
    show "ent m' r j = ent m r j" if "r \<in> nodes m 2 p" "j < 512" "\<not> (r = q \<and> j = i)" for r j
      using e [OF al [OF that(1)] that(2)] that n(2) by auto
  qed
  have q': "node_at m' p is = Some q" using off [OF at2] at(2) by (simp add: prefix_def)
  show on: "node_at m' p (is @ [i]) = Some n"
    using e [OF al [OF q] i(1)] fresh by (simp add: node_at_snoc q')
  have below': "node_at m' p (is @ i # k # ks) = None" if "k < 512" for k ks
    using e [OF n(1) that] nq on node_at_append [of m' p "is @ [i]" "k # ks"]
    by (simp add: node_at.simps(2))
  have below: "node_at m p (is @ i # ks) = None" for ks
    using i(2) by (simp add: node_at_append at(2) node_at.simps(2))
  have view: "node_at m' p js = (if js = is @ [i] then Some n else node_at m p js)" if "short 2 js" for js
  proof (cases "prefix (is @ [i]) js")
    case True
    then obtain ks where ks: "js = is @ i # ks" by (auto simp: prefix_def)
    show ?thesis
    proof (cases ks)
      case Nil
      then show ?thesis using ks on by simp
    next
      case (Cons k ks')
      then have "k < 512" using that ks by (simp add: short_def)
      then show ?thesis using Cons ks below below' by simp
    qed
  next
    case False
    then have "js \<noteq> is @ [i]" by auto
    then show ?thesis using off [OF that False] by simp
  qed
  have sh: "short 2 (is @ [i])" using at(1) i(1) by (auto simp: short_def)
  have old: "node_at m' p js = Some r" if "short 2 js" "node_at m p js = Some r" for js r
    using view [OF that(1)] that(2) below [of "[]"] by (cases "js = is @ [i]") simp_all
  show nodes': "nodes m' 2 p = insert n (nodes m 2 p)"
  proof
    have "r \<in> insert n (nodes m 2 p)" if "short 2 js" "node_at m' p js = Some r" for js r
      using view [OF that(1)] that nodesI [OF that(1), of m p r] by (cases "js = is @ [i]") simp_all
    then show "nodes m' 2 p \<subseteq> insert n (nodes m 2 p)" unfolding nodes_def [of m'] by blast
    have "r \<in> nodes m' 2 p" if "short 2 js" "node_at m p js = Some r" for js r
      using nodesI [OF that(1) old [OF that]] .
    then have "nodes m 2 p \<subseteq> nodes m' 2 p" unfolding nodes_def [of m] by blast
    then show "insert n (nodes m 2 p) \<subseteq> nodes m' 2 p" using nodesI [OF sh on] by blast
  qed
  have uniq: "is' = js'" if "short 2 is'" "short 2 js'" "node_at m' p is' = Some r" "node_at m' p js' = Some r" for is' js' r
  proof (cases "r = n")
    case True
    have u: "k = is @ [i]" if "short 2 k" "node_at m' p k = Some n" for k
      using view [OF that(1)] that(2) n(2) nodesI [OF that(1), of m p n] by (cases "k = is @ [i]") simp_all
    show ?thesis using u [OF that(1)] u [OF that(2)] that(3,4) True by simp
  next
    case False
    have u: "node_at m p k = Some r" if "short 2 k" "node_at m' p k = Some r" for k
      using view [OF that(1)] that(2) False by (cases "k = is @ [i]") simp_all
    show ?thesis using pt_tree_unique [OF tree that(1,2) u [OF that(1,3)] u [OF that(2,4)]] .
  qed
  have inter: "ent m' r j AND (PTE_R OR PTE_W OR PTE_X) = 0"
    if "short 1 js" "j < 512" "node_at m' p js = Some r" "ent m' r j AND PTE_V \<noteq> 0" for js j r
  proof -
    have js: "short 2 js" using short_mono [OF that(1)] by simp
    have ar: "aligned r" using nodesI [OF js that(3)] nodes' al n(1) by auto
    have zero: "(PA2PTE n OR PTE_V) AND (PTE_R OR PTE_W OR PTE_X) = 0" by (rule interior_flags)
    show ?thesis
    proof (cases "js = is @ [i]")
      case True
      then have "r = n" using on that(3) by simp
      then have "ent m' r j = 0" using e [OF ar that(2)] nq by simp
      then show ?thesis by simp
    next
      case False
      then have r: "node_at m p js = Some r" using view [OF js] that(3) by simp
      then have "r \<noteq> n" using nodesI [OF js, of m p r] n(2) by blast
      then have er: "ent m' r j = (if r = q \<and> j = i then PA2PTE n OR PTE_V else ent m r j)"
        using e [OF ar that(2)] by simp
      have tree1: "pt_tree m (Suc 1) p" using tree by (simp only: Suc_1)
      show ?thesis
      proof (cases "r = q \<and> j = i")
        case True
        then show ?thesis unfolding er using zero by (simp only: if_True simp_thms)
      next
        case False
        then have "ent m' r j = ent m r j" using er by (simp only: if_False)
        then show ?thesis using pt_tree_interior [OF tree1 that(1,2) r] that(4) by simp
      qed
    qed
  qed
  have "aligned r" if "r \<in> nodes m' 2 p" for r using that al n(1) unfolding nodes' by blast
  with uniq inter show "pt_tree m' 2 p" by (rule pt_treeI)
  have path: "short 2 [PX 2 va, PX 1 va]" by (simp add: short_def)
  show "lookup m' p va = lookup m p va"
  proof (cases "[PX 2 va, PX 1 va] = is @ [i]")
    case True
    then have "leaf_node m' p va = Some n" "leaf_node m p va = None"
      using view [OF path] below [of "[]"] by (auto simp: leaf_node_def)
    then show ?thesis using e [OF n(1), of "PX 0 va"] nq by (simp add: lookup_def)
  next
    case False
    then have lf: "leaf_node m' p va = leaf_node m p va" unfolding leaf_node_def view [OF path] by (simp only: if_False)
    have "ent m' r (PX 0 va) = ent m r (PX 0 va)" if "leaf_node m p va = Some r" for r
    proof -
      have r: "r \<in> nodes m 2 p" using nodesI [OF path] that by (simp add: leaf_node_def)
      have "[PX 2 va, PX 1 va] \<noteq> is" using at(1) by (auto simp: short_def)
      then have "r \<noteq> q" using pt_tree_unique [OF tree path at2] that at(2) by (auto simp: leaf_node_def)
      then show ?thesis using e [OF al [OF r], of "PX 0 va"] r n(2) by auto
    qed
    then show ?thesis using lf by (auto simp: lookup_def split: option.splits)
  qed
qed

end
