(* ===== verification/Vm.thy ===== *)
theory Vm
  imports Pagetable
begin

text \<open>
  \<^verbatim>\<open>kernel/vm.c\<close>: Sv39 page tables in physical memory. The definitions follow the code: a table
  is a page of 512 8-byte entries, and every read or write of an entry is a read or write of
  memory. The parts that need the current process (\<open>vmfault\<close>, \<open>copyin\<close>, \<open>copyout\<close>) are in the
  theory \<open>Usermem\<close>.

  A C \<^verbatim>\<open>int\<close> result is an \<open>int\<close>; a null pointer is 0.
\<close>

section \<open>State\<close>

record vmem = kmem +
  kernel_pagetable :: uint64
  satp :: "nat \<Rightarrow> uint64"

section \<open>Operations\<close>

text \<open>The loop of \<open>walk\<close>, from the level given down to level 1.\<close>

fun walk_levels :: "nat \<Rightarrow> uint64 \<Rightarrow> uint64 \<Rightarrow> bool \<Rightarrow> ('z kmem_scheme, uint64) kop" where
  "walk_levels 0 pagetable va alloc = kret (slot pagetable (PX 0 va))"
| "walk_levels (Suc l) pagetable va alloc =
     (let pte = slot pagetable (PX (Suc l) va) in
      kbind (kget (\<lambda>s. read64 (pmem s) pte)) (\<lambda>e.
      if e AND PTE_V \<noteq> 0 then walk_levels l (PTE2PA e) va alloc
      else if \<not> alloc then kret 0
      else kbind kalloc (\<lambda>pagetable'.
        if pagetable' = 0 then kret 0
        else kseq (set_pmem (\<lambda>m. memset m pagetable' 0 4096))
            (kseq (set_pmem (\<lambda>m. write64 m pte (PA2PTE pagetable' OR PTE_V)))
                  (walk_levels l pagetable' va alloc)))))"

definition walk :: "uint64 \<Rightarrow> uint64 \<Rightarrow> bool \<Rightarrow> ('z kmem_scheme, uint64) kop" where
  "walk pagetable va alloc =
     (if MAXVA \<le> va then kpanic ''walk'' else walk_levels 2 pagetable va alloc)"

definition walkaddr :: "uint64 \<Rightarrow> uint64 \<Rightarrow> ('z kmem_scheme, uint64) kop" where
  "walkaddr pagetable va =
     (if MAXVA \<le> va then kret 0
      else kbind (walk pagetable va False) (\<lambda>pte.
        if pte = 0 then kret 0
        else kbind (kget (\<lambda>s. read64 (pmem s) pte)) (\<lambda>e.
          if e AND PTE_V = 0 then kret 0
          else if e AND PTE_U = 0 then kret 0
          else kret (PTE2PA e))))"

text \<open>
  The loop of \<open>mappages\<close>. The fuel is the number of pages from \<open>a\<close> to \<open>lst\<close>, so it is enough
  for every aligned range, also one that wraps around.
\<close>

fun mappages_loop :: "nat \<Rightarrow> uint64 \<Rightarrow> uint64 \<Rightarrow> uint64 \<Rightarrow> uint64 \<Rightarrow> uint64 \<Rightarrow> ('z kmem_scheme, int) kop" where
  "mappages_loop 0 pagetable a lst pa perm = (\<lambda>_. Diverge)"
| "mappages_loop (Suc n) pagetable a lst pa perm =
     kbind (walk pagetable a True) (\<lambda>pte.
     if pte = 0 then kret (-1)
     else kbind (kget (\<lambda>s. read64 (pmem s) pte)) (\<lambda>e.
       if e AND PTE_V \<noteq> 0 then kpanic ''mappages: remap''
       else kseq (set_pmem (\<lambda>m. write64 m pte (PA2PTE pa OR perm OR PTE_V)))
         (if a = lst then kret 0
          else mappages_loop n pagetable (a + PGSIZE) lst (pa + PGSIZE) perm)))"

definition mappages :: "uint64 \<Rightarrow> uint64 \<Rightarrow> uint64 \<Rightarrow> uint64 \<Rightarrow> uint64 \<Rightarrow> ('z kmem_scheme, int) kop" where
  "mappages pagetable va sz pa perm =
     (if va mod PGSIZE \<noteq> 0 then kpanic ''mappages: va not aligned''
      else if sz mod PGSIZE \<noteq> 0 then kpanic ''mappages: size not aligned''
      else if sz = 0 then kpanic ''mappages: size''
      else let lst = va + sz - PGSIZE
           in mappages_loop (unat (lst - va) div 4096 + 1) pagetable va lst pa perm)"

definition kvmmap :: "uint64 \<Rightarrow> uint64 \<Rightarrow> uint64 \<Rightarrow> uint64 \<Rightarrow> uint64 \<Rightarrow> ('z kmem_scheme, unit) kop" where
  "kvmmap kpgtbl va pa sz perm =
     kbind (mappages kpgtbl va sz pa perm) (\<lambda>r. if r \<noteq> 0 then kpanic ''kvmmap'' else kret ())"

text \<open>\<^verbatim>\<open>proc_mapstacks\<close> of \<^verbatim>\<open>proc.c\<close>: a kernel stack for every slot of the process table.\<close>

definition proc_mapstacks :: "uint64 \<Rightarrow> ('z kmem_scheme, unit) kop" where
  "proc_mapstacks kpgtbl =
     kfor [0..<NPROC] (\<lambda>p.
       kbind kalloc (\<lambda>pa.
       if pa = 0 then kpanic ''kalloc''
       else kvmmap kpgtbl (KSTACK p) pa PGSIZE (PTE_R OR PTE_W)))"

definition kvmmake :: "('z kmem_scheme, uint64) kop" where
  "kvmmake =
     kbind kalloc (\<lambda>kpgtbl.
     kseq (set_pmem (\<lambda>m. memset m kpgtbl 0 4096))
    (kseq (kvmmap kpgtbl UART0 UART0 PGSIZE (PTE_R OR PTE_W))
    (kseq (kvmmap kpgtbl VIRTIO0 VIRTIO0 PGSIZE (PTE_R OR PTE_W))
    (kseq (kvmmap kpgtbl PLIC PLIC 0x4000000 (PTE_R OR PTE_W))
    (kbind (kget ld_etext) (\<lambda>etext.
     kseq (kvmmap kpgtbl KERNBASE KERNBASE (etext - KERNBASE) (PTE_R OR PTE_X))
    (kseq (kvmmap kpgtbl etext etext (PHYSTOP - etext) (PTE_R OR PTE_W))
    (kbind (kget ld_trampoline) (\<lambda>trampoline.
     kseq (kvmmap kpgtbl TRAMPOLINE trampoline PGSIZE (PTE_R OR PTE_X))
    (kseq (proc_mapstacks kpgtbl)
          (kret kpgtbl)))))))))))"

definition kvminit :: "('z vmem_scheme, unit) kop" where
  "kvminit = kbind kvmmake (\<lambda>pt. kmod (\<lambda>s. s\<lparr>kernel_pagetable := pt\<rparr>))"

text \<open>The two TLB flushes of \<open>kvminithart\<close> have no counterpart: the model has no TLB.\<close>

definition kvminithart :: "('z vmem_scheme, unit) kop" where
  "kvminithart = kmod (\<lambda>s. s\<lparr>satp := (satp s)(hart s := MAKE_SATP (kernel_pagetable s))\<rparr>)"

definition uvmcreate :: "('z kmem_scheme, uint64) kop" where
  "uvmcreate =
     kbind kalloc (\<lambda>pagetable.
     if pagetable = 0 then kret 0
     else kseq (set_pmem (\<lambda>m. memset m pagetable 0 4096)) (kret pagetable))"

text \<open>
  The loop of \<open>uvmunmap\<close> and its body; the fuel is the number of pages in the range plus one for
  the last test.
\<close>

definition unmap_page :: "uint64 \<Rightarrow> uint64 \<Rightarrow> bool \<Rightarrow> ('z kmem_scheme, unit) kop" where
  "unmap_page pagetable a do_free =
     kbind (walk pagetable a False) (\<lambda>pte.
       if pte = 0 then kret ()
       else kbind (kget (\<lambda>s. read64 (pmem s) pte)) (\<lambda>e.
         if e AND PTE_V = 0 then kret ()
         else kseq (kwhen do_free (kfree (PTE2PA e))) (set_pmem (\<lambda>m. write64 m pte 0))))"

fun uvmunmap_loop :: "nat \<Rightarrow> uint64 \<Rightarrow> uint64 \<Rightarrow> uint64 \<Rightarrow> bool \<Rightarrow> ('z kmem_scheme, unit) kop" where
  "uvmunmap_loop 0 pagetable a limit do_free = (\<lambda>_. Diverge)"
| "uvmunmap_loop (Suc n) pagetable a limit do_free =
     (if a < limit
      then kseq (unmap_page pagetable a do_free)
                (uvmunmap_loop n pagetable (a + PGSIZE) limit do_free)
      else kret ())"

definition uvmunmap :: "uint64 \<Rightarrow> uint64 \<Rightarrow> uint64 \<Rightarrow> bool \<Rightarrow> ('z kmem_scheme, unit) kop" where
  "uvmunmap pagetable va npages do_free =
     (if va mod PGSIZE \<noteq> 0 then kpanic ''uvmunmap: not aligned''
      else let limit = va + npages * PGSIZE
           in uvmunmap_loop (unat (limit - va) div 4096 + 1) pagetable va limit do_free)"

text \<open>\<open>npages\<close> of \<open>uvmdealloc\<close> is an \<^verbatim>\<open>int\<close>: the quotient is cut to 32 bits and sign-extended.\<close>

definition uvmdealloc :: "uint64 \<Rightarrow> uint64 \<Rightarrow> uint64 \<Rightarrow> ('z kmem_scheme, uint64) kop" where
  "uvmdealloc pagetable oldsz newsz =
     (if oldsz \<le> newsz then kret oldsz
      else kseq (kwhen (PGROUNDUP newsz < PGROUNDUP oldsz)
                  (let npages = ucast ((PGROUNDUP oldsz - PGROUNDUP newsz) div PGSIZE) :: uint
                   in uvmunmap pagetable (PGROUNDUP newsz) (scast npages) True))
                (kret newsz))"

fun uvmalloc_loop :: "nat \<Rightarrow> uint64 \<Rightarrow> uint64 \<Rightarrow> uint64 \<Rightarrow> uint64 \<Rightarrow> uint64 \<Rightarrow> ('z kmem_scheme, uint64) kop" where
  "uvmalloc_loop 0 pagetable oldsz newsz xperm a = (\<lambda>_. Diverge)"
| "uvmalloc_loop (Suc n) pagetable oldsz newsz xperm a =
     (if a < newsz then
        kbind kalloc (\<lambda>mem.
        if mem = 0 then kseq (uvmdealloc pagetable a oldsz) (kret 0)
        else kseq (set_pmem (\<lambda>m. memset m mem 0 4096))
            (kbind (mappages pagetable a PGSIZE mem (PTE_R OR PTE_U OR xperm)) (\<lambda>r.
             if r \<noteq> 0 then kseq (kfree mem) (kseq (uvmdealloc pagetable a oldsz) (kret 0))
             else uvmalloc_loop n pagetable oldsz newsz xperm (a + PGSIZE))))
      else kret newsz)"

definition uvmalloc :: "uint64 \<Rightarrow> uint64 \<Rightarrow> uint64 \<Rightarrow> uint64 \<Rightarrow> ('z kmem_scheme, uint64) kop" where
  "uvmalloc pagetable oldsz newsz xperm =
     (if newsz < oldsz then kret oldsz
      else let oldsz = PGROUNDUP oldsz
           in uvmalloc_loop (unat (newsz - oldsz) div 4096 + 2) pagetable oldsz newsz xperm oldsz)"

text \<open>
  \<open>freewalk\<close> recurses as deep as the tables go; the fuel bounds the depth, and the three levels
  of Sv39 are enough for every tree that \<open>walk\<close> builds.
\<close>

fun freewalk :: "nat \<Rightarrow> uint64 \<Rightarrow> ('z kmem_scheme, unit) kop" where
  "freewalk 0 pagetable = (\<lambda>_. Diverge)"
| "freewalk (Suc depth) pagetable =
     kseq (kfor [0..<512] (\<lambda>i.
             let pte = slot pagetable (of_nat i) in
             kbind (kget (\<lambda>s. read64 (pmem s) pte)) (\<lambda>e.
             if e AND PTE_V \<noteq> 0 \<and> e AND (PTE_R OR PTE_W OR PTE_X) = 0
             then kseq (freewalk depth (PTE2PA e)) (set_pmem (\<lambda>m. write64 m pte 0))
             else if e AND PTE_V \<noteq> 0 then kpanic ''freewalk: leaf''
             else kret ())))
          (kfree pagetable)"

definition uvmfree :: "uint64 \<Rightarrow> uint64 \<Rightarrow> ('z kmem_scheme, unit) kop" where
  "uvmfree pagetable sz =
     kseq (kwhen (0 < sz) (uvmunmap pagetable 0 (PGROUNDUP sz div PGSIZE) True))
          (freewalk 3 pagetable)"

fun uvmcopy_loop :: "nat \<Rightarrow> uint64 \<Rightarrow> uint64 \<Rightarrow> uint64 \<Rightarrow> uint64 \<Rightarrow> ('z kmem_scheme, int) kop" where
  "uvmcopy_loop 0 old new sz i = (\<lambda>_. Diverge)"
| "uvmcopy_loop (Suc n) old new sz i =
     (if i < sz then
        kbind (walk old i False) (\<lambda>pte.
        if pte = 0 then uvmcopy_loop n old new sz (i + PGSIZE)
        else kbind (kget (\<lambda>s. read64 (pmem s) pte)) (\<lambda>e.
          if e AND PTE_V = 0 then uvmcopy_loop n old new sz (i + PGSIZE)
          else kbind kalloc (\<lambda>mem.
            if mem = 0 then kseq (uvmunmap new 0 (i div PGSIZE) True) (kret (-1))
            else kseq (set_pmem (\<lambda>m. memmove m mem (PTE2PA e) 4096))
                (kbind (mappages new i PGSIZE mem (PTE_FLAGS e)) (\<lambda>r.
                 if r \<noteq> 0
                 then kseq (kfree mem) (kseq (uvmunmap new 0 (i div PGSIZE) True) (kret (-1)))
                 else uvmcopy_loop n old new sz (i + PGSIZE))))))
      else kret 0)"

definition uvmcopy :: "uint64 \<Rightarrow> uint64 \<Rightarrow> uint64 \<Rightarrow> ('z kmem_scheme, int) kop" where
  "uvmcopy old new sz = uvmcopy_loop (unat sz div 4096 + 2) old new sz 0"

definition uvmclear :: "uint64 \<Rightarrow> uint64 \<Rightarrow> ('z kmem_scheme, unit) kop" where
  "uvmclear pagetable va =
     kbind (walk pagetable va False) (\<lambda>pte.
     if pte = 0 then kpanic ''uvmclear''
     else set_pmem (\<lambda>m. write64 m pte (read64 m pte AND NOT PTE_U)))"

definition ismapped :: "uint64 \<Rightarrow> uint64 \<Rightarrow> ('z kmem_scheme, bool) kop" where
  "ismapped pagetable va =
     kbind (walk pagetable va False) (\<lambda>pte.
     if pte = 0 then kret False
     else kget (\<lambda>s. read64 (pmem s) pte AND PTE_V \<noteq> 0))"

text \<open>
  \<open>copyinstr\<close>: the destination buffer is returned as the list of bytes written to it, in order.
  The inner loop copies within one page; it stops at a NUL, which it also copies.
\<close>

fun copyinstr_page :: "mem \<Rightarrow> uint64 \<Rightarrow> nat \<Rightarrow> uchar list \<times> bool" where
  "copyinstr_page m p 0 = ([], False)"
| "copyinstr_page m p (Suc n) =
     (if m p = 0 then ([0], True)
      else let (bs, got_null) = copyinstr_page m (p + 1) n in (m p # bs, got_null))"

fun copyinstr_loop :: "nat \<Rightarrow> uint64 \<Rightarrow> uint64 \<Rightarrow> nat \<Rightarrow> ('z kmem_scheme, int \<times> uchar list) kop" where
  "copyinstr_loop 0 pagetable srcva mx = (\<lambda>_. Diverge)"
| "copyinstr_loop (Suc k) pagetable srcva mx =
     (if mx = 0 then kret (-1, [])
      else let va0 = PGROUNDDOWN srcva in
        kbind (walkaddr pagetable va0) (\<lambda>pa0.
        if pa0 = 0 then kret (-1, [])
        else let n = min (unat (PGSIZE - (srcva - va0))) mx in
          kbind (kget (\<lambda>s. copyinstr_page (pmem s) (pa0 + (srcva - va0)) n)) (\<lambda>(bs, got_null).
          if got_null then kret (0, bs)
          else kbind (copyinstr_loop k pagetable (va0 + PGSIZE) (mx - n)) (\<lambda>(r, bs').
               kret (r, bs @ bs')))))"

definition copyinstr :: "uint64 \<Rightarrow> uint64 \<Rightarrow> nat \<Rightarrow> ('z kmem_scheme, int \<times> uchar list) kop" where
  "copyinstr pagetable srcva mx = copyinstr_loop (mx + 1) pagetable srcva mx"

section \<open>Page tables in the state\<close>

text \<open>
  \<open>pt_inv s pt fl\<close>: \<open>fl\<close> is the free list, and \<open>pt\<close> is the root of a well-formed tree of pages
  that are not free. \<open>grown s pt fl t fl'\<close>: from \<open>s\<close> to \<open>t\<close> the tree took pages from the front of
  the free list, and no page outside the tree and the free list changed.
\<close>

abbreviation tables :: "'z kmem_scheme \<Rightarrow> uint64 \<Rightarrow> uint64 set" where
  "tables s pt \<equiv> nodes (pmem s) 2 pt"

definition pt_inv :: "'z kmem_scheme \<Rightarrow> uint64 \<Rightarrow> uint64 list \<Rightarrow> bool" where
  "pt_inv s pt fl \<longleftrightarrow>
     kmem_inv s fl \<and> pt_tree (pmem s) 2 pt \<and> (\<forall>q \<in> tables s pt. page_ok s q) \<and> tables s pt \<inter> set fl = {}"

definition grown :: "'z kmem_scheme \<Rightarrow> uint64 \<Rightarrow> uint64 list \<Rightarrow> 'z kmem_scheme \<Rightarrow> uint64 list \<Rightarrow> bool" where
  "grown s pt fl t fl' \<longleftrightarrow>
     mem_step s t \<and> pt_inv t pt fl' \<and> (\<exists>used. fl = used @ fl' \<and> tables t pt = tables s pt \<union> set used)
     \<and> (\<forall>q. aligned q \<longrightarrow> q \<notin> tables s pt \<longrightarrow> q \<notin> set fl \<longrightarrow> agree_on q (pmem s) (pmem t))"

lemma grown_refl: "pt_inv s pt fl \<Longrightarrow> grown s pt fl s fl"
  by (simp add: grown_def)

lemma grown_trans:
  assumes "grown s pt fl t fl'" "grown t pt fl' u fl''" shows "grown s pt fl u fl''"
proof -
  obtain us where us: "fl = us @ fl'" "tables t pt = tables s pt \<union> set us"
    using assms(1) by (auto simp: grown_def)
  obtain us' where us': "fl' = us' @ fl''" "tables u pt = tables t pt \<union> set us'"
    using assms(2) by (auto simp: grown_def)
  have "\<exists>used. fl = used @ fl'' \<and> tables u pt = tables s pt \<union> set used"
    using us us' by (intro exI [of _ "us @ us'"]) auto
  moreover have "agree_on q (pmem s) (pmem u)" if "aligned q" "q \<notin> tables s pt" "q \<notin> set fl" for q
  proof -
    have "agree_on q (pmem s) (pmem t)" using assms(1) that by (simp add: grown_def)
    moreover have "agree_on q (pmem t) (pmem u)" using assms(2) that us by (simp add: grown_def)
    ultimately show ?thesis by (rule agree_on_trans)
  qed
  ultimately show ?thesis using assms mem_step_trans [of s t u] unfolding grown_def by blast
qed

lemma grown_inv: "grown s pt fl t fl' \<Longrightarrow> pt_inv t pt fl'"
  by (simp add: grown_def)

lemma pt_inv_node: "pt_inv s pt fl \<Longrightarrow> q \<in> tables s pt \<Longrightarrow> page_ok s q \<and> aligned q \<and> q \<noteq> 0 \<and> q \<notin> set fl"
  using page_ok_nonzero [of s q] by (auto simp: pt_inv_def kmem_inv_def page_ok_def)

lemma slot_nonzero: "aligned q \<Longrightarrow> q \<noteq> 0 \<Longrightarrow> i < 512 \<Longrightarrow> slot q i \<noteq> 0"
proof
  assume q: "aligned q" "q \<noteq> 0" "i < 512" and "slot q i = 0"
  then have "on_page q 0" using slot_byte [of i 0 q] by simp
  then show False using q on_page_iff [of q 0] by (simp add: PGROUNDDOWN_def)
qed

text \<open>One level of \<open>walk\<close>: taking a page from the allocator and hanging it into an empty entry.\<close>

lemma grow_step:
  assumes inv: "pt_inv s pt (n # fl)" and at: "short 1 is" "node_at (pmem s) pt is = Some q"
    and i: "i < 512" "ent (pmem s) q i AND PTE_V = 0"
  defines "m' \<equiv> write64 (memset (pmem s) n 0 4096) (slot q i) (PA2PTE n OR PTE_V)"
  shows "\<exists>t. kalloc s = Done n t \<and> n \<noteq> 0 \<and> memset (pmem t) n 0 4096 = memset (pmem s) n 0 4096
    \<and> grown s pt (n # fl) (t\<lparr>pmem := m'\<rparr>) fl \<and> node_at m' pt (is @ [i]) = Some n
    \<and> (\<forall>va. lookup m' pt va = lookup (pmem s) pt va)"
proof -
  obtain t f where t: "kalloc s = Done n t" "kmem_inv t fl"
      "t = relock (s\<lparr>freelist := f, pmem := memset (pmem s) n 5 4096\<rparr>)"
    using kalloc_inv_explicit inv by (fastforce simp: pt_inv_def)
  have q: "q \<in> tables s pt" using nodesI [OF short_mono [OF at(1)] at(2)] by simp
  have tree: "pt_tree (pmem s) 2 pt" and nn: "n \<notin> tables s pt" "n \<notin> set fl" "page_ok s n" "n \<noteq> 0"
    using inv kmem_inv_pages [of s "n # fl"] by (auto simp: pt_inv_def)
  then have al: "aligned n" "aligned q" "q \<notin> set fl" "q \<noteq> n"
    using pt_inv_node [OF inv q] by (auto simp: page_ok_def)
  note g = tree_grow [OF tree at i al(1) nn(1), folded m'_def]
  have same: "agree_on x (pmem s) m'" if "aligned x" "x \<noteq> n" "x \<noteq> q" for x
  proof -
    have "agree_on x m' (memset (pmem s) n 0 4096)"
      unfolding m'_def using that al i(1) by (intro write64_agree) auto
    also have "agree_on x (memset (pmem s) n 0 4096) (pmem s)" using that al by (intro memset_agree) auto
    finally show ?thesis by (rule agree_on_sym)
  qed
  have "kmem_inv (t\<lparr>pmem := m'\<rparr>) fl"
  proof (rule kmem_inv_frame [OF t(2)])
    fix x
    assume x: "x \<in> set fl"
    then have "aligned x" "x \<noteq> n" "x \<noteq> q" using kmem_inv_pages [OF t(2)] al nn(2) by (auto simp: page_ok_def)
    moreover have "agree_on x (pmem t) (pmem s)"
      using \<open>aligned x\<close> \<open>x \<noteq> n\<close> al unfolding t(3) by (auto intro: memset_agree)
    ultimately show "agree_on x (pmem t) m'" using same agree_on_trans by blast
  qed
  then have "pt_inv (t\<lparr>pmem := m'\<rparr>) pt fl"
    using inv g(2,3) nn unfolding pt_inv_def by (auto simp: t(3))
  then have "grown s pt (n # fl) (t\<lparr>pmem := m'\<rparr>) fl"
    unfolding grown_def using g(3) q same by (auto simp: t(3))
  then show ?thesis using t(1) nn(4) g(1,4) by (auto simp: t(3) memset_page)
qed

lemma path_snoc: "l < 2 \<Longrightarrow> take (2 - Suc l) [PX 2 va, PX 1 va] @ [PX (Suc l) va] = take (2 - l) [PX 2 va, PX 1 va]"
  by (cases l) (auto simp: less_Suc_eq numeral_2_eq_2)

definition walk_result :: "'z kmem_scheme \<Rightarrow> uint64 \<Rightarrow> uint64 \<Rightarrow> uint64 \<Rightarrow> bool" where
  "walk_result s pt va r \<longleftrightarrow> (\<exists>q. leaf_node (pmem s) pt va = Some q \<and> r = slot q (PX 0 va))"

lemma walk_levels_alloc:
  assumes "l \<le> 2" "pt_inv s pt fl" "node_at (pmem s) pt (take (2 - l) [PX 2 va, PX 1 va]) = Some p"
  shows "\<exists>r t fl'. walk_levels l p va True s = Done r t \<and> grown s pt fl t fl'
    \<and> (\<forall>va'. lookup (pmem t) pt va' = lookup (pmem s) pt va')
    \<and> (if r = 0 then fl' = [] else walk_result t pt va r)"
  using assms
proof (induction l arbitrary: s p fl)
  case 0
  then have leaf: "leaf_node (pmem s) pt va = Some p" by (simp add: leaf_node_def)
  then have "p \<in> tables s pt" unfolding leaf_node_def by (rule nodesI [rotated]) (simp add: short_def)
  then have "slot p (PX 0 va) \<noteq> 0" using pt_inv_node [OF 0(2)] by (intro slot_nonzero) auto
  then show ?case using 0 leaf grown_refl [OF 0(2)] by (auto simp: walk_result_def)
next
  case (Suc l)
  let ?is = "take (2 - Suc l) [PX 2 va, PX 1 va]" and ?i = "PX (Suc l) va"
  have sh: "short 1 ?is"
    using Suc.prems(1) by (auto simp: short_def le_Suc_eq numeral_2_eq_2)
  have path: "take (2 - l) [PX 2 va, PX 1 va] = ?is @ [?i]"
    using Suc.prems(1) path_snoc [of l va] by auto
  show ?case
  proof (cases "ent (pmem s) p ?i AND PTE_V = 0")
    case False
    then have "node_at (pmem s) pt (?is @ [?i]) = Some (PTE2PA (ent (pmem s) p ?i))"
      using Suc.prems(3) by (simp add: node_at_snoc)
    then show ?thesis using Suc.IH [OF _ Suc.prems(2)] Suc.prems(1) False path by (simp add: ent_def Let_def)
  next
    case True
    show ?thesis
    proof (cases fl)
      case Nil
      then show ?thesis using Suc.prems True grown_refl [of "relock s" pt "[]"]
        by (simp add: ent_def kalloc_inv_Nil pt_inv_def grown_def Let_def)
    next
      case (Cons n ns)
      let ?m = "write64 (memset (pmem s) n 0 4096) (slot p ?i) (PA2PTE n OR PTE_V)"
      from grow_step [OF Suc.prems(2) [unfolded Cons] sh Suc.prems(3) _ True]
      obtain t where t: "kalloc s = Done n t" "n \<noteq> 0" "memset (pmem t) n 0 4096 = memset (pmem s) n 0 4096"
          "grown s pt (n # ns) (t\<lparr>pmem := ?m\<rparr>) ns" "node_at ?m pt (?is @ [?i]) = Some n"
          "\<forall>va. lookup ?m pt va = lookup (pmem s) pt va" by auto
      from Suc.IH [OF _ grown_inv [OF t(4)]] t(5) Suc.prems(1) path
      obtain r u fl' where u: "walk_levels l n va True (t\<lparr>pmem := ?m\<rparr>) = Done r u"
          "grown (t\<lparr>pmem := ?m\<rparr>) pt ns u fl'" "\<forall>va'. lookup (pmem u) pt va' = lookup ?m pt va'"
          "if r = 0 then fl' = [] else walk_result u pt va r" by auto
      have "walk_levels (Suc l) p va True s = Done r u"
        using True t(1-3) u(1) by (simp add: ent_def Let_def)
      then show ?thesis using grown_trans [OF t(4) u(2)] u(3,4) t(6) Cons by auto
    qed
  qed
qed

lemma walk_alloc:
  assumes "pt_inv s pt fl" "va < MAXVA"
  shows "\<exists>r t fl'. walk pt va True s = Done r t \<and> grown s pt fl t fl'
    \<and> (\<forall>va'. lookup (pmem t) pt va' = lookup (pmem s) pt va')
    \<and> (if r = 0 then fl' = [] else walk_result t pt va r)"
  using walk_levels_alloc [of 2 s pt fl va pt] assms by (simp add: walk_def)

lemma walk_find:
  "va < MAXVA \<Longrightarrow> walk pt va False s =
     Done (case leaf_node (pmem s) pt va of None \<Rightarrow> 0 | Some q \<Rightarrow> slot q (PX 0 va)) s"
  by (simp add: walk_def leaf_node_def numeral_2_eq_2 node_at.simps(2) ent_def Let_def not_le)

text \<open>A store through the pointer that \<open>walk\<close> returned.\<close>

lemma leaf_table: "leaf_node m pt va = Some q \<Longrightarrow> q \<in> nodes m 2 pt"
  unfolding leaf_node_def by (rule nodesI [of _ "[PX 2 va, PX 1 va]"]) (simp_all add: short_def)

lemma walk_result_read: "walk_result s pt va r \<Longrightarrow> read64 (pmem s) r = lookup (pmem s) pt va"
  by (auto simp: walk_result_def lookup_def ent_def)

lemma leaf_store_step:
  fixes v :: pte
  assumes inv: "pt_inv s pt fl" and r: "walk_result s pt va r"
  defines "t \<equiv> s\<lparr>pmem := write64 (pmem s) r v\<rparr>"
  shows "grown s pt fl t fl" "lookup (pmem t) pt va' = (if same_vpage va' va then v else lookup (pmem s) pt va')"
    "leaf_node (pmem t) pt va' = leaf_node (pmem s) pt va'"
proof -
  obtain q where q: "leaf_node (pmem s) pt va = Some q" "r = slot q (PX 0 va)" using r by (auto simp: walk_result_def)
  note qt = leaf_table [OF q(1)]
  note qn = pt_inv_node [OF inv qt]
  have tree: "pt_tree (pmem s) 2 pt" using inv by (simp add: pt_inv_def)
  note st = tree_leaf_store [OF tree q(1), of v, folded q(2)]
  have same: "agree_on x (pmem s) (pmem t)" if "aligned x" "x \<noteq> q" for x
    unfolding t_def q(2) using that qn by (auto intro: agree_on_sym [OF write64_agree])
  have "kmem_inv t fl" unfolding t_def
  proof (rule kmem_inv_frame)
    show "kmem_inv s fl" using inv by (simp add: pt_inv_def)
    then show "agree_on x (pmem s) (write64 (pmem s) r v)" if "x \<in> set fl" for x
      using same [of x] that kmem_inv_pages [of s fl] qn by (auto simp: t_def page_ok_def)
  qed
  then have "pt_inv t pt fl" using inv st(1,2) by (simp add: pt_inv_def t_def)
  then show "grown s pt fl t fl" using st(2) same qt by (auto simp: grown_def t_def)
  show "lookup (pmem t) pt va' = (if same_vpage va' va then v else lookup (pmem s) pt va')"
    "leaf_node (pmem t) pt va' = leaf_node (pmem s) pt va'"
    using st(3,4) by (simp_all add: t_def)
qed

lemma walkaddr_eval:
  assumes "pt_inv s pt fl"
  shows "walkaddr pt va s = Done (if va < MAXVA \<and> lookup (pmem s) pt va AND PTE_V \<noteq> 0 \<and> lookup (pmem s) pt va AND PTE_U \<noteq> 0
     then PTE2PA (lookup (pmem s) pt va) else 0) s"
proof (cases "leaf_node (pmem s) pt va")
  case None
  then show ?thesis by (auto simp: walkaddr_def walk_find lookup_def)
next
  case (Some q)
  then have "slot q (PX 0 va) \<noteq> 0"
    using pt_inv_node [OF assms leaf_table] by (intro slot_nonzero) auto
  then show ?thesis using Some by (auto simp: walkaddr_def walk_find lookup_def ent_def)
qed

section \<open>Mapping pages\<close>

definition va_at :: "uint64 \<Rightarrow> nat \<Rightarrow> uint64" where
  "va_at va i = va + of_nat i * 4096"

definition mapped_upto :: "mem \<Rightarrow> mem \<Rightarrow> uint64 \<Rightarrow> uint64 \<Rightarrow> uint64 \<Rightarrow> uint64 \<Rightarrow> nat \<Rightarrow> bool" where
  "mapped_upto m m' pt va pa perm k \<longleftrightarrow>
     (\<forall>i < k. lookup m' pt (va_at va i) = PA2PTE (va_at pa i) OR perm OR PTE_V)
     \<and> (\<forall>va'. (\<forall>i < k. \<not> same_vpage va' (va_at va i)) \<longrightarrow> lookup m' pt va' = lookup m pt va')"

lemma va_at_0 [simp]: "va_at va 0 = va"
  by (simp add: va_at_def)

lemma va_at_Suc: "va_at va (Suc i) = va_at (va + 4096) i"
  by (simp add: va_at_def algebra_simps)

lemma unat_va_at: "unat va + i * 4096 < 2 ^ 64 \<Longrightarrow> unat (va_at va i) = unat va + i * 4096"
  by (simp add: va_at_def unat_word_ariths)

lemma va_at_below: "unat va + i * 4096 < 2 ^ 38 \<Longrightarrow> va_at va i < MAXVA"
  by (simp add: word_less_nat_alt unat_va_at MAXVA_unat)

lemma same_vpage_at:
  assumes "aligned va" "unat va + i * 4096 < 2 ^ 38" "unat va + j * 4096 < 2 ^ 38"
  shows "same_vpage (va_at va i) (va_at va j) \<longleftrightarrow> i = j"
proof -
  have "aligned (va_at va i)" "aligned (va_at va j)"
    using assms by (simp_all add: aligned_unat unat_va_at)
  moreover have "va_at va i = va_at va j \<longleftrightarrow> i = j"
    using assms by (auto simp: word_unat_eq_iff unat_va_at)
  ultimately show ?thesis
    using assms same_vpage_iff [OF va_at_below va_at_below] PGROUNDDOWN_aligned by simp
qed

lemma same_vpage_refl [simp]: "same_vpage va va"
  by (simp add: same_vpage_def)

lemma same_vpage_sym: "same_vpage a b \<longleftrightarrow> same_vpage b a"
  by (auto simp: same_vpage_def)

text \<open>The first page of a range: it is mapped, or the allocator ran out of pages for tables.\<close>

lemma mapped_upto_Suc:
  assumes "aligned va" "unat va + k * 4096 < 2 ^ 38"
    and first: "\<And>va'. lookup m1 pt va' = (if same_vpage va' va then PA2PTE pa OR perm OR PTE_V else lookup m pt va')"
    and rest: "mapped_upto m1 m2 pt (va + 4096) (pa + 4096) perm k"
  shows "mapped_upto m m2 pt va pa perm (Suc k)"
proof -
  have off: "\<not> same_vpage va (va_at (va + 4096) i)" if "i < k" for i
    using assms(1,2) that same_vpage_at [of va 0 "Suc i"] by (simp add: va_at_Suc)
  then have "lookup m2 pt va = PA2PTE pa OR perm OR PTE_V"
    using rest first by (simp add: mapped_upto_def)
  then show ?thesis
    using rest first unfolding mapped_upto_def
    by (auto simp: va_at_Suc All_less_Suc2)
qed

lemma mappages_loop_ok:
  assumes "pt_inv s pt fl" "aligned va" "unat va + n * 4096 < 2 ^ 38" "n < fuel"
    and "\<forall>i \<le> n. lookup (pmem s) pt (va_at va i) AND PTE_V = 0"
  shows "\<exists>r t fl' k. mappages_loop fuel pt va (va_at va n) pa perm s = Done r t \<and> grown s pt fl t fl'
    \<and> mapped_upto (pmem s) (pmem t) pt va pa perm k
    \<and> (r = 0 \<and> k = Suc n \<or> r = -1 \<and> k \<le> n \<and> fl' = [])"
  using assms
proof (induction n arbitrary: fuel va pa s fl)
  case (0 fuel va pa s fl)
  then obtain f where f: "fuel = Suc f" by (cases fuel) auto
  have va: "va < MAXVA" using va_at_below [of va 0] 0(3) by simp
  obtain r t fl' where w: "walk pt va True s = Done r t" "grown s pt fl t fl'"
      "\<forall>va'. lookup (pmem t) pt va' = lookup (pmem s) pt va'" "if r = 0 then fl' = [] else walk_result t pt va r"
    using walk_alloc [OF 0(1) va] by blast
  show ?case
  proof (cases "r = 0")
    case True
    then show ?thesis using w f by (auto simp: mapped_upto_def)
  next
    case False
    then have wr: "walk_result t pt va r" using w(4) by simp
    note st = leaf_store_step [OF grown_inv [OF w(2)] wr, of "PA2PTE pa OR perm OR PTE_V"]
    have "mapped_upto (pmem s) (write64 (pmem t) r (PA2PTE pa OR perm OR PTE_V)) pt va pa perm (Suc 0)"
      using st(2) w(3) by (auto simp: mapped_upto_def)
    moreover have "read64 (pmem t) r AND PTE_V = 0"
      using walk_result_read [OF wr] w(3) 0(5) by simp
    ultimately show ?thesis using w(1) f False grown_trans [OF w(2) st(1)]
      by (intro exI [of _ 0] exI [of _ "t\<lparr>pmem := write64 (pmem t) r (PA2PTE pa OR perm OR PTE_V)\<rparr>"]
          exI [of _ fl'] exI [of _ "Suc 0"]) simp
  qed
next
  case (Suc n fuel va pa s fl)
  then obtain f where f: "fuel = Suc f" by (cases fuel) auto
  have va: "va < MAXVA" using va_at_below [of va 0] Suc.prems(3) by simp
  obtain r t fl' where w: "walk pt va True s = Done r t" "grown s pt fl t fl'"
      "\<forall>va'. lookup (pmem t) pt va' = lookup (pmem s) pt va'" "if r = 0 then fl' = [] else walk_result t pt va r"
    using walk_alloc [OF Suc.prems(1) va] by blast
  show ?case
  proof (cases "r = 0")
    case True
    then show ?thesis using w f by (auto simp: mapped_upto_def intro!: exI [of _ 0])
  next
    case False
    then have wr: "walk_result t pt va r" using w(4) by simp
    let ?u = "t\<lparr>pmem := write64 (pmem t) r (PA2PTE pa OR perm OR PTE_V)\<rparr>"
    note st = leaf_store_step [OF grown_inv [OF w(2)] wr, of "PA2PTE pa OR perm OR PTE_V"]
    have free: "read64 (pmem t) r AND PTE_V = 0"
      using walk_result_read [OF wr] w(3) Suc.prems(5) va_at_0 [of va] by (metis le0)
    have nxt: "unat (va + 4096) = unat va + 4096" "aligned (va + 4096)"
      using unat_va_at [of va 1] Suc.prems(2,3) by (simp_all add: va_at_def aligned_unat)
    have inval: "\<forall>i \<le> n. lookup (pmem ?u) pt (va_at (va + 4096) i) AND PTE_V = 0"
    proof (intro allI impI)
      fix i
      assume "i \<le> n"
      then have "\<not> same_vpage (va_at va (Suc i)) (va_at va 0)"
        using Suc.prems(2,3) by (subst same_vpage_at) auto
      then show "lookup (pmem ?u) pt (va_at (va + 4096) i) AND PTE_V = 0"
        using st(2) w(3) Suc.prems(5) \<open>i \<le> n\<close> by (simp add: va_at_Suc [symmetric])
    qed
    have "unat (va + 4096) + n * 4096 < 2 ^ 38" "n < f" using nxt(1) Suc.prems(3,4) f by simp_all
    from Suc.IH [OF grown_inv [OF st(1)] nxt(2) this inval]
    obtain r' v fl'' k where v: "mappages_loop f pt (va + 4096) (va_at (va + 4096) n) (pa + 4096) perm ?u = Done r' v"
        "grown ?u pt fl' v fl''" "mapped_upto (pmem ?u) (pmem v) pt (va + 4096) (pa + 4096) perm k"
        "r' = 0 \<and> k = Suc n \<or> r' = -1 \<and> k \<le> n \<and> fl'' = []"
      by blast
    have "mapped_upto (pmem s) (pmem v) pt va pa perm (Suc k)"
      using v(3,4) st(2) w(3) Suc.prems(2,3)
      by (intro mapped_upto_Suc [OF _ _ _ v(3)]) auto
    moreover have "va \<noteq> va_at va (Suc n)"
      using Suc.prems(3) by (simp add: word_unat_eq_iff unat_va_at)
    ultimately show ?thesis
      using v w(1) f False free grown_trans [OF w(2) grown_trans [OF st(1) v(2)]]
      by (intro exI [of _ r'] exI [of _ v] exI [of _ fl''] exI [of _ "Suc k"])
        (simp add: PGSIZE_def va_at_Suc)
  qed
qed

lemma mappages_ok:
  assumes "pt_inv s pt fl" "aligned va" "0 < n" "unat va + n * 4096 \<le> 2 ^ 38"
    and "\<forall>i < n. lookup (pmem s) pt (va_at va i) AND PTE_V = 0"
  shows "\<exists>r t fl' k. mappages pt va (of_nat n * 4096) pa perm s = Done r t \<and> grown s pt fl t fl'
    \<and> mapped_upto (pmem s) (pmem t) pt va pa perm k
    \<and> (r = 0 \<and> k = n \<or> r = -1 \<and> k < n \<and> fl' = [])"
proof -
  obtain n' where n: "n = Suc n'" using assms(3) by (cases n) auto
  have un: "unat (of_nat n * 4096 :: uint64) = n * 4096"
    using assms(4) by (simp add: unat_word_ariths)
  then have sz: "of_nat n * 4096 \<noteq> (0 :: uint64)" "of_nat n * 4096 mod PGSIZE = (0 :: uint64)"
    using assms(3) by (auto simp: word_unat_eq_iff unat_mod PGSIZE_def)
  have eq: "va + of_nat n * 4096 - PGSIZE = va_at va n'"
    by (simp add: n va_at_def PGSIZE_def algebra_simps)
  have fuel: "unat (va_at va n' - va) div 4096 + 1 = n"
    using assms(4) n by (simp add: va_at_def unat_word_ariths)
  have "va mod PGSIZE = 0" using assms(2) by (simp add: aligned_def)
  then have run: "mappages pt va (of_nat n * 4096) pa perm s = mappages_loop n pt va (va_at va n') pa perm s"
    by (simp only: mappages_def Let_def eq fuel sz simp_thms if_False)
  have "\<exists>r t fl' k. mappages_loop n pt va (va_at va n') pa perm s = Done r t \<and> grown s pt fl t fl'
    \<and> mapped_upto (pmem s) (pmem t) pt va pa perm k \<and> (r = 0 \<and> k = Suc n' \<or> r = -1 \<and> k \<le> n' \<and> fl' = [])"
    using assms n by (intro mappages_loop_ok) auto
  then show ?thesis unfolding run unfolding n less_Suc_eq_le .
qed

section \<open>Unmapping pages\<close>

text \<open>The pages behind the valid leaf entries of a range, in order.\<close>

definition leaf_pages :: "mem \<Rightarrow> uint64 \<Rightarrow> uint64 \<Rightarrow> nat \<Rightarrow> uint64 list" where
  "leaf_pages m pt va n =
     map (\<lambda>i. PTE2PA (lookup m pt (va_at va i))) (filter (\<lambda>i. lookup m pt (va_at va i) AND PTE_V \<noteq> 0) [0..<n])"

definition unmapped :: "mem \<Rightarrow> mem \<Rightarrow> uint64 \<Rightarrow> uint64 \<Rightarrow> nat \<Rightarrow> bool" where
  "unmapped m m' pt va n \<longleftrightarrow>
     (\<forall>i < n. lookup m' pt (va_at va i) AND PTE_V = 0)
     \<and> (\<forall>va'. (\<forall>i < n. \<not> same_vpage va' (va_at va i)) \<longrightarrow> lookup m' pt va' = lookup m pt va')"

definition can_free :: "'z kmem_scheme \<Rightarrow> uint64 \<Rightarrow> uint64 list \<Rightarrow> uint64 list \<Rightarrow> bool" where
  "can_free s pt fl ps \<longleftrightarrow>
     distinct ps \<and> (\<forall>p \<in> set ps. page_ok s p \<and> p \<notin> tables s pt \<and> p \<notin> set fl)"

lemma kfree_outside:
  assumes inv: "pt_inv s pt fl" and pa: "page_ok s pa" "pa \<notin> set fl" "pa \<notin> tables s pt"
  shows "\<exists>t. kfree pa s = Done () t \<and> mem_step s t \<and> pt_inv t pt (pa # fl) \<and> tables t pt = tables s pt
    \<and> (\<forall>va. lookup (pmem t) pt va = lookup (pmem s) pt va \<and> leaf_node (pmem t) pt va = leaf_node (pmem s) pt va)
    \<and> (\<forall>q. aligned q \<longrightarrow> q \<noteq> pa \<longrightarrow> agree_on q (pmem s) (pmem t))"
proof -
  have k: "kmem_inv s fl" "ready KmemLock s" and tree: "pt_tree (pmem s) 2 pt"
    using inv by (auto simp: pt_inv_def kmem_inv_def)
  obtain t where t: "kfree pa s = Done () t" "kmem_inv t (pa # fl)" using kfree_inv [OF k(1) pa(1,2)] by blast
  have teq: "t = relock (s\<lparr>pmem := write64 (memset (pmem s) pa 1 4096) pa (freelist s), freelist := pa\<rparr>)"
    using t(1) kfree_eval [OF k(2) pa(1)] by simp
  have same: "agree_on q (pmem s) (pmem t)" if "aligned q" "q \<noteq> pa" for q
    unfolding teq using that pa(1) by (auto simp: page_ok_def intro!: agree_on_sym [OF kfree_agree])
  have "agree_on q (pmem s) (pmem t)" if "q \<in> tables s pt" for q
    using same that pa(3) pt_inv_node [OF inv that] by blast
  note fr = tree_frame [OF tree this]
  have "pt_inv t pt (pa # fl)"
    using t(2) fr(1,2) inv pa(3) unfolding pt_inv_def by (auto simp: teq)
  moreover have "mem_step s t" by (simp add: teq)
  ultimately show ?thesis using t(1) fr same by blast
qed

lemma unmap_page_ok:
  assumes inv: "pt_inv s pt fl" and va: "va < MAXVA"
    and ps: "ps = (if lookup (pmem s) pt va AND PTE_V = 0 then [] else [PTE2PA (lookup (pmem s) pt va)])"
    and free: "do_free \<longrightarrow> can_free s pt fl ps"
  shows "\<exists>t. unmap_page pt va do_free s = Done () t \<and> mem_step s t
    \<and> pt_inv t pt (if do_free then ps @ fl else fl) \<and> tables t pt = tables s pt
    \<and> (\<forall>va'. lookup (pmem t) pt va' = (if same_vpage va' va \<and> ps \<noteq> [] then 0 else lookup (pmem s) pt va'))
    \<and> (\<forall>q. aligned q \<longrightarrow> q \<notin> tables s pt \<longrightarrow> \<not> (do_free \<and> q \<in> set ps) \<longrightarrow> agree_on q (pmem s) (pmem t))"
proof (cases "leaf_node (pmem s) pt va")
  case None
  then have "unmap_page pt va do_free s = Done () s" "ps = []"
    using va ps by (simp_all add: unmap_page_def walk_find lookup_def)
  then show ?thesis using inv by simp
next
  case (Some q)
  have nz: "slot q (PX 0 va) \<noteq> 0" using pt_inv_node [OF inv leaf_table [OF Some]] by (intro slot_nonzero) auto
  have e: "read64 (pmem s) (slot q (PX 0 va)) = lookup (pmem s) pt va"
    using Some by (simp add: lookup_def ent_def)
  show ?thesis
  proof (cases "lookup (pmem s) pt va AND PTE_V = 0")
    case True
    then have "unmap_page pt va do_free s = Done () s" "ps = []"
      using va ps nz e Some by (simp_all add: unmap_page_def walk_find)
    then show ?thesis using inv by simp
  next
    case valid: False
    let ?r = "slot q (PX 0 va)"
    obtain t where t: "kwhen do_free (kfree (PTE2PA (lookup (pmem s) pt va))) s = Done () t" "mem_step s t"
        "pt_inv t pt (if do_free then ps @ fl else fl)" "tables t pt = tables s pt"
        "\<forall>va. lookup (pmem t) pt va = lookup (pmem s) pt va \<and> leaf_node (pmem t) pt va = leaf_node (pmem s) pt va"
        "\<forall>q. aligned q \<longrightarrow> \<not> (do_free \<and> q \<in> set ps) \<longrightarrow> agree_on q (pmem s) (pmem t)"
    proof (cases do_free)
      case True
      then show ?thesis
        using that kfree_outside [OF inv, of "PTE2PA (lookup (pmem s) pt va)"] free ps valid
        by (auto simp: can_free_def)
    next
      case False
      then show ?thesis using that [of s] inv by simp
    qed
    have r: "walk_result t pt va ?r" using t(5) Some by (auto simp: walk_result_def)
    note st = leaf_store_step [OF t(3) r, of 0]
    have "unmap_page pt va do_free s = Done () (t\<lparr>pmem := write64 (pmem t) ?r 0\<rparr>)"
      using va nz e Some valid t(1) by (simp add: unmap_page_def walk_find)
    moreover have "agree_on x (pmem s) (write64 (pmem t) ?r 0)"
      if "aligned x" "x \<notin> tables s pt" "\<not> (do_free \<and> x \<in> set ps)" for x
    proof -
      have "agree_on x (pmem s) (pmem t)" using t(6) that by blast
      also have "agree_on x (pmem t) (write64 (pmem t) ?r 0)"
        using that leaf_table [OF Some] pt_inv_node [OF inv leaf_table [OF Some]]
        by (intro agree_on_sym [OF write64_agree]) auto
      finally show ?thesis .
    qed
    moreover have "mem_step s (t\<lparr>pmem := write64 (pmem t) ?r 0\<rparr>)"
      using t(2) mem_step_trans mem_step_upd(1) by blast
    moreover have "pt_inv (t\<lparr>pmem := write64 (pmem t) ?r 0\<rparr>) pt (if do_free then ps @ fl else fl)"
        "tables (t\<lparr>pmem := write64 (pmem t) ?r 0\<rparr>) pt = tables s pt"
      using st(1) t(4) by (auto simp: grown_def)
    ultimately show ?thesis using st(2) t(5) ps valid by auto
  qed
qed

lemma leaf_pages_Suc:
  "leaf_pages m pt va (Suc n) =
     (if lookup m pt va AND PTE_V = 0 then [] else [PTE2PA (lookup m pt va)]) @ leaf_pages m pt (va + 4096) n"
  by (simp add: leaf_pages_def upt_conv_Cons map_Suc_upt [symmetric] filter_map o_def va_at_Suc del: upt_Suc)

lemma leaf_pages_cong:
  "(\<And>i. i < n \<Longrightarrow> lookup m' pt (va_at va i) = lookup m pt (va_at va i)) \<Longrightarrow>
   leaf_pages m' pt va n = leaf_pages m pt va n"
  unfolding leaf_pages_def by (intro map_cong filter_cong) auto

lemma next_page:
  "aligned va \<Longrightarrow> unat va + Suc n * 4096 \<le> 2 ^ 38 \<Longrightarrow>
   unat (va + 4096) = unat va + 4096 \<and> aligned (va + 4096) \<and> va < MAXVA"
  using unat_va_at [of va 1] va_at_below [of va 0] by (simp add: va_at_def aligned_unat)

lemma same_vpage_next:
  "aligned va \<Longrightarrow> unat va + Suc n * 4096 \<le> 2 ^ 38 \<Longrightarrow> i < n \<Longrightarrow> \<not> same_vpage (va_at (va + 4096) i) va"
  using same_vpage_at [of va "Suc i" 0] by (simp add: va_at_Suc)

lemma uvmunmap_loop_ok:
  assumes "pt_inv s pt fl" "aligned va" "unat va + n * 4096 \<le> 2 ^ 38" "n < fuel"
    and "do_free \<longrightarrow> can_free s pt fl (leaf_pages (pmem s) pt va n)"
  shows "\<exists>t. uvmunmap_loop fuel pt va (va_at va n) do_free s = Done () t \<and> mem_step s t
    \<and> pt_inv t pt (if do_free then rev (leaf_pages (pmem s) pt va n) @ fl else fl)
    \<and> tables t pt = tables s pt \<and> unmapped (pmem s) (pmem t) pt va n
    \<and> (\<forall>q. aligned q \<longrightarrow> q \<notin> tables s pt \<longrightarrow> \<not> (do_free \<and> q \<in> set (leaf_pages (pmem s) pt va n))
         \<longrightarrow> agree_on q (pmem s) (pmem t))"
  using assms
proof (induction n arbitrary: fuel va s fl)
  case (0 fuel va s fl)
  then show ?case by (cases fuel) (simp_all add: leaf_pages_def unmapped_def)
next
  case (Suc n fuel va s fl)
  obtain f where f: "fuel = Suc f" using Suc.prems(4) by (cases fuel) auto
  have nxt: "unat (va + 4096) = unat va + 4096" "aligned (va + 4096)" "va < MAXVA"
    using next_page [OF Suc.prems(2,3)] by blast+
  define ps where "ps = (if lookup (pmem s) pt va AND PTE_V = 0 then [] else [PTE2PA (lookup (pmem s) pt va)])"
  let ?rest = "leaf_pages (pmem s) pt (va + 4096) n"
  have all: "leaf_pages (pmem s) pt va (Suc n) = ps @ ?rest" by (simp only: leaf_pages_Suc ps_def)
  have "do_free \<longrightarrow> can_free s pt fl ps" using Suc.prems(5) unfolding all can_free_def by auto
  from unmap_page_ok [OF Suc.prems(1) nxt(3) ps_def this]
  obtain t where t: "unmap_page pt va do_free s = Done () t" "mem_step s t"
      "pt_inv t pt (if do_free then ps @ fl else fl)" "tables t pt = tables s pt"
      "\<forall>va'. lookup (pmem t) pt va' = (if same_vpage va' va \<and> ps \<noteq> [] then 0 else lookup (pmem s) pt va')"
      "\<forall>q. aligned q \<longrightarrow> q \<notin> tables s pt \<longrightarrow> \<not> (do_free \<and> q \<in> set ps) \<longrightarrow> agree_on q (pmem s) (pmem t)"
    by blast
  have rest: "leaf_pages (pmem t) pt (va + 4096) n = ?rest"
    using t(5) same_vpage_next [OF Suc.prems(2,3)] by (intro leaf_pages_cong) simp
  have free: "do_free \<longrightarrow> can_free t pt (if do_free then ps @ fl else fl) (leaf_pages (pmem t) pt (va + 4096) n)"
    using Suc.prems(5) t(4) mem_step_fields(8) [OF t(2)] unfolding all rest can_free_def by auto
  have "unat (va + 4096) + n * 4096 \<le> 2 ^ 38" "n < f" using nxt(1) Suc.prems(3,4) f by simp_all
  from Suc.IH [OF t(3) nxt(2) this free]
  obtain u where u: "uvmunmap_loop f pt (va + 4096) (va_at (va + 4096) n) do_free t = Done () u" "mem_step t u"
      "pt_inv u pt (if do_free then rev ?rest @ (if do_free then ps @ fl else fl) else (if do_free then ps @ fl else fl))"
      "tables u pt = tables t pt" "unmapped (pmem t) (pmem u) pt (va + 4096) n"
      "\<forall>q. aligned q \<longrightarrow> q \<notin> tables t pt \<longrightarrow> \<not> (do_free \<and> q \<in> set ?rest) \<longrightarrow> agree_on q (pmem t) (pmem u)"
    unfolding rest by blast
  have "va < va_at va (Suc n)"
    using Suc.prems(3) by (simp add: word_less_nat_alt unat_va_at)
  then have "uvmunmap_loop fuel pt va (va_at va (Suc n)) do_free s = Done () u"
    using t(1) u(1) f by (simp add: va_at_Suc PGSIZE_def)
  moreover have "pt_inv u pt (if do_free then rev (ps @ ?rest) @ fl else fl)"
    using u(3) by (cases do_free) (auto simp: ps_def split: if_splits)
  moreover have "unmapped (pmem s) (pmem u) pt va (Suc n)"
  proof -
    have "lookup (pmem u) pt va = lookup (pmem t) pt va"
      using u(5) same_vpage_next [OF Suc.prems(2,3)] same_vpage_sym [of va] by (simp add: unmapped_def)
    then have "lookup (pmem u) pt va AND PTE_V = 0" using t(5) by (simp add: ps_def)
    then show ?thesis
      using u(5) t(5) unfolding unmapped_def by (auto simp: va_at_Suc All_less_Suc2)
  qed
  moreover have "agree_on q (pmem s) (pmem u)"
    if "aligned q" "q \<notin> tables s pt" "\<not> (do_free \<and> q \<in> set (ps @ ?rest))" for q
    using t(6) u(6) that t(4) agree_on_trans [of q "pmem s" "pmem t" "pmem u"] by auto
  ultimately show ?case
    using mem_step_trans [OF t(2) u(2)] t(4) u(4) unfolding all by (intro exI [of _ u]) auto
qed

lemma uvmunmap_ok:
  assumes "pt_inv s pt fl" "aligned va" "unat va + n * 4096 \<le> 2 ^ 38"
    and "do_free \<longrightarrow> can_free s pt fl (leaf_pages (pmem s) pt va n)"
  shows "\<exists>t. uvmunmap pt va (of_nat n) do_free s = Done () t \<and> mem_step s t
    \<and> pt_inv t pt (if do_free then rev (leaf_pages (pmem s) pt va n) @ fl else fl)
    \<and> tables t pt = tables s pt \<and> unmapped (pmem s) (pmem t) pt va n
    \<and> (\<forall>q. aligned q \<longrightarrow> q \<notin> tables s pt \<longrightarrow> \<not> (do_free \<and> q \<in> set (leaf_pages (pmem s) pt va n))
         \<longrightarrow> agree_on q (pmem s) (pmem t))"
proof -
  have eq: "va + of_nat n * PGSIZE = va_at va n" by (simp add: va_at_def PGSIZE_def)
  have fuel: "unat (va_at va n - va) div 4096 + 1 = n + 1"
    using assms(3) by (simp add: va_at_def unat_word_ariths)
  have "va mod PGSIZE = 0" using assms(2) by (simp add: aligned_def)
  then have run: "uvmunmap pt va (of_nat n) do_free s = uvmunmap_loop (n + 1) pt va (va_at va n) do_free s"
    by (simp only: uvmunmap_def Let_def eq fuel simp_thms if_False)
  show ?thesis unfolding run by (rule uvmunmap_loop_ok) (use assms in simp_all)
qed

lemma leaf_valid: "(PA2PTE p OR f OR PTE_V) AND PTE_V \<noteq> 0"
proof -
  have "bit (PA2PTE p OR (f OR PTE_V)) 0" by (subst PA2PTE_low) (simp_all add: bit_simps PTE_V_1)
  then show ?thesis by (simp add: valid_bit)
qed

lemma leaf_PA: "aligned p \<Longrightarrow> f < 1024 \<Longrightarrow> PTE2PA (PA2PTE p OR f OR PTE_V) = p"
  by (rule PTE2PA_PA2PTE) (auto simp: bit_or_iff PTE_V_1 bit_1_iff small_flag)

lemma user_bit: "e AND PTE_U \<noteq> 0 \<longleftrightarrow> bit e 4"
proof -
  have u: "PTE_U = 2 ^ 4" by (simp add: PTE_U_def)
  show ?thesis unfolding u and_exp_eq_0_iff_not_bit by simp
qed

lemma write_bit: "e AND PTE_W \<noteq> 0 \<longleftrightarrow> bit e 2"
proof -
  have w: "PTE_W = 2 ^ 2" by (simp add: PTE_W_def)
  show ?thesis unfolding w and_exp_eq_0_iff_not_bit by simp
qed

section \<open>A new table\<close>

lemma empty_table:
  assumes "\<And>i. i < 512 \<Longrightarrow> ent m p i = 0" "aligned p"
  shows "pt_tree m 2 p" "nodes m 2 p = {p}" "lookup m p va = 0"
proof -
  have none: "node_at m p is = None" if "short 2 is" "is \<noteq> []" for "is"
    using that assms(1) by (cases "is") (auto simp: node_at.simps(2) short_def)
  have "q = p" if "short 2 is" "node_at m p is = Some q" for "is" q
    using none [OF that(1)] that(2) by (cases "is = []") auto
  then have "nodes m 2 p \<subseteq> {p}" by (auto simp: nodes_def)
  then show n: "nodes m 2 p = {p}" using nodes_root by blast
  show "pt_tree m 2 p"
  proof (rule pt_treeI)
    show "is = js" if "short 2 is" "short 2 js" "node_at m p is = Some q" "node_at m p js = Some q" for "is" js q
      using none [OF that(1)] none [OF that(2)] that(3,4) by (cases "is = []"; cases "js = []") auto
    show "aligned q" if "q \<in> nodes m 2 p" for q using that n assms(2) by simp
    show "ent m q i AND (PTE_R OR PTE_W OR PTE_X) = 0"
      if "short 1 is" "i < 512" "node_at m p is = Some q" "ent m q i AND PTE_V \<noteq> 0" for "is" i q
    proof -
      have "q \<in> nodes m 2 p" using nodesI [OF short_mono [OF that(1)] that(3)] by simp
      then have "q = p" using n by simp
      then show ?thesis using assms(1) [OF that(2)] by simp
    qed
  qed
  have "leaf_node m p va = None" using none [of "[PX 2 va, PX 1 va]"] by (simp add: leaf_node_def short_def)
  then show "lookup m p va = 0" by (simp add: lookup_def)
qed

lemma uvmcreate_ok:
  assumes "kmem_inv s (p # fl)"
  shows "\<exists>t. uvmcreate s = Done p t \<and> pt_inv t p fl \<and> tables t p = {p} \<and> (\<forall>va. lookup (pmem t) p va = 0)
    \<and> p \<noteq> 0 \<and> mem_step s t \<and> (\<forall>q. aligned q \<longrightarrow> q \<noteq> p \<longrightarrow> agree_on q (pmem s) (pmem t))"
proof -
  obtain t f where t: "kalloc s = Done p t" "kmem_inv t fl"
      "t = relock (s\<lparr>freelist := f, pmem := memset (pmem s) p 5 4096\<rparr>)"
    using kalloc_inv_explicit [OF assms] by blast
  let ?m = "memset (pmem t) p 0 4096"
  have p: "aligned p" "page_ok t p" "p \<notin> set fl" "p \<noteq> 0"
    using kmem_inv_pages [OF assms] by (auto simp: t(3) page_ok_def)
  have "ent ?m p i = 0" if "i < 512" for i using that by (simp add: ent_def)
  note e = empty_table [OF this p(1)]
  have "kmem_inv (t\<lparr>pmem := ?m\<rparr>) fl"
    using kmem_inv_pages [OF t(2)] p
    by (intro kmem_inv_frame [OF t(2)] agree_on_sym [OF memset_agree]) (auto simp: page_ok_def)
  then have "pt_inv (t\<lparr>pmem := ?m\<rparr>) p fl" using e p by (simp add: pt_inv_def)
  moreover have "uvmcreate s = Done p (t\<lparr>pmem := ?m\<rparr>)" using t(1) p(4) by (simp add: uvmcreate_def)
  moreover have "mem_step s (t\<lparr>pmem := ?m\<rparr>)" by (simp add: t(3))
  moreover have "agree_on q (pmem s) ?m" if "aligned q" "q \<noteq> p" for q
    using that p(1) by (simp add: t(3) agree_on_def memset_page) (metis on_page_unique)
  ultimately show ?thesis using e p(4) by auto
qed

section \<open>Properties\<close>

text \<open>A booted machine with one empty address space.\<close>

lemma example_table:
  "\<exists>s :: kmem. pt_inv s 0x87FFF000 (tl boot_pages) \<and> tables s 0x87FFF000 = {0x87FFF000} \<and> (\<forall>va. lookup (pmem s) 0x87FFF000 va = 0)"
proof -
  obtain s :: kmem where s: "kmem_inv s (0x87FFF000 # tl boot_pages)" using booted by (auto simp: boot_pages_def)
  show ?thesis using uvmcreate_ok [OF s] by blast
qed

text \<open>
  C6. \<^verbatim>\<open>mappages\<close> on \<open>n\<close> unmapped user pages: if it returns 0 then \<^verbatim>\<open>walkaddr\<close> of each page of the
  range gives the corresponding physical page; if it returns -1 the free list is exhausted. In
  both cases every other virtual page translates as before, the tree of tables is well formed,
  its new tables come from the free list, and no page outside the tree and the free list is
  written.
\<close>

theorem mappages_walkaddr:
  assumes "pt_inv s pt fl" "aligned va" "0 < n" "unat va + n * 4096 \<le> 2 ^ 38"
    and "\<forall>i < n. lookup (pmem s) pt (va_at va i) AND PTE_V = 0"
    and "aligned pa" "unat pa + n * 4096 < 2 ^ 64" "perm < 1024" "perm AND PTE_U \<noteq> 0"
  shows "\<exists>r t fl'. mappages pt va (of_nat n * 4096) pa perm s = Done r t \<and> pt_inv t pt fl'
    \<and> (r = 0 \<and> (\<forall>i < n. walkaddr pt (va_at va i) t = Done (va_at pa i) t) \<or> r = -1 \<and> fl' = [])
    \<and> (\<forall>va'. (\<forall>i < n. \<not> same_vpage va' (va_at va i)) \<longrightarrow> (\<exists>x. walkaddr pt va' t = Done x t \<and> walkaddr pt va' s = Done x s))
    \<and> (\<exists>used. fl = used @ fl' \<and> tables t pt = tables s pt \<union> set used)
    \<and> (\<forall>q. aligned q \<longrightarrow> q \<notin> tables s pt \<longrightarrow> q \<notin> set fl \<longrightarrow> agree_on q (pmem s) (pmem t))"
proof -
  obtain r t fl' k where t: "mappages pt va (of_nat n * 4096) pa perm s = Done r t" "grown s pt fl t fl'"
      "mapped_upto (pmem s) (pmem t) pt va pa perm k" "r = 0 \<and> k = n \<or> r = -1 \<and> k < n \<and> fl' = []"
    using mappages_ok [OF assms(1-5)] by blast
  have inv: "pt_inv t pt fl'" using t(2) by (rule grown_inv)
  have "walkaddr pt (va_at va i) t = Done (va_at pa i) t" if "r = 0" "i < n" for i
  proof -
    have look: "lookup (pmem t) pt (va_at va i) = PA2PTE (va_at pa i) OR perm OR PTE_V"
      using t(3,4) that by (auto simp: mapped_upto_def)
    have "unat pa + i * 4096 < 2 ^ 64" using assms(7) that(2) by simp
    then have al: "aligned (va_at pa i)" using assms(6) by (simp add: aligned_unat unat_va_at)
    have "va_at va i < MAXVA" using assms(4) that(2) by (intro va_at_below) simp
    moreover have "bit perm 4" using assms(9) by (simp only: user_bit)
    then have "bit (PA2PTE (va_at pa i) OR (perm OR PTE_V)) 4" by (subst PA2PTE_low) (simp_all add: bit_or_iff)
    then have "(PA2PTE (va_at pa i) OR perm OR PTE_V) AND PTE_U \<noteq> 0"
      by (simp only: user_bit)
    ultimately show ?thesis
      using leaf_valid leaf_PA [OF al assms(8)] by (simp add: walkaddr_eval [OF inv] look)
  qed
  moreover have "\<exists>x. walkaddr pt va' t = Done x t \<and> walkaddr pt va' s = Done x s"
    if "\<forall>i < n. \<not> same_vpage va' (va_at va i)" for va'
  proof -
    have "lookup (pmem t) pt va' = lookup (pmem s) pt va'" using t(3,4) that by (auto simp: mapped_upto_def)
    then show ?thesis by (simp add: walkaddr_eval [OF inv] walkaddr_eval [OF assms(1)])
  qed
  ultimately show ?thesis using t(1,2,4) inv unfolding grown_def by blast
qed

theorem mappages_walkaddr_witness:
  "\<exists>(s :: kmem) r t fl'. mappages 0x87FFF000 0x1000 (of_nat 1 * 4096) 0x87FF0000 (PTE_R OR PTE_U) s = Done r t
     \<and> (r = 0 \<and> walkaddr 0x87FFF000 0x1000 t = Done 0x87FF0000 t \<or> r = -1 \<and> fl' = [])
     \<and> tl boot_pages \<noteq> []"
proof -
  obtain s :: kmem where s: "pt_inv s 0x87FFF000 (tl boot_pages)" "\<forall>va. lookup (pmem s) 0x87FFF000 va = 0"
    using example_table by blast
  have "aligned 0x1000" "aligned 0x87FF0000" by (simp_all add: aligned_def PGSIZE_def)
  with mappages_walkaddr [OF s(1), where va = "0x1000" and n = 1 and pa = "0x87FF0000" and perm = "PTE_R OR PTE_U"] s(2)
  obtain r t fl' where "mappages 0x87FFF000 0x1000 (of_nat 1 * 4096) 0x87FF0000 (PTE_R OR PTE_U) s = Done r t"
      "r = 0 \<and> walkaddr 0x87FFF000 0x1000 t = Done 0x87FF0000 t \<or> r = -1 \<and> fl' = []"
    by (auto simp: PTE_R_def PTE_U_def)
  then show ?thesis by (auto simp: boot_pages_def)
qed

end
