(* ===== verification/Uvm.thy ===== *)
theory Uvm
  imports Vm
begin

text \<open>
  The user part of \<^verbatim>\<open>kernel/vm.c\<close>: what \<open>uvmdealloc\<close>, \<open>uvmalloc\<close>, \<open>freewalk\<close>, \<open>uvmfree\<close> and
  \<open>uvmcopy\<close> do to an address space and to the free list. The theorems say that growing is all
  or nothing and that no page is lost: every page is on the free list, a table of the tree, or
  behind a leaf entry, before and after.
\<close>

section \<open>Growing and shrinking\<close>

lemma PGROUNDUP_aligned: "unat a + 4095 < 2 ^ 64 \<Longrightarrow> aligned (PGROUNDUP a)"
  by (simp add: aligned_unat unat_PGROUNDUP)

lemma PGROUNDUP_id: "aligned a \<Longrightarrow> PGROUNDUP a = a"
proof -
  assume a: "aligned a"
  then obtain k where k: "unat a = 4096 * k" by (auto simp: aligned_unat mod_eq_0_iff_dvd)
  show ?thesis using aligned_top [OF a] k by (simp add: word_unat_eq_iff unat_PGROUNDUP)
qed

lemma scast_small: "n < 2 ^ 31 \<Longrightarrow> (scast (of_nat n :: uint) :: uint64) = of_nat n"
proof -
  assume n: "n < 2 ^ 31"
  then have "sint (of_nat n :: uint) = int n"
    by (simp add: signed_of_nat signed_take_bit_int_eq_self)
  then show ?thesis by (simp add: scast_eq)
qed

lemma ucast_small: "n < 2 ^ 31 \<Longrightarrow> (ucast (of_nat n :: uint64) :: uint) = of_nat n"
  by (simp add: word_unat_eq_iff unsigned_ucast_eq take_bit_nat_eq_self_iff)

text \<open>\<open>uvmdealloc\<close> unmaps and frees the pages between the two sizes, rounded up.\<close>

lemma uvmdealloc_ok:
  assumes "pt_inv s pt fl" "unat newsz \<le> unat oldsz" "unat oldsz \<le> 2 ^ 38"
  defines "n \<equiv> (unat (PGROUNDUP oldsz) - unat (PGROUNDUP newsz)) div 4096"
  assumes free: "can_free s pt fl (leaf_pages (pmem s) pt (PGROUNDUP newsz) n)"
  shows "\<exists>t. uvmdealloc pt oldsz newsz s = Done newsz t \<and> mem_step s t
    \<and> pt_inv t pt (rev (leaf_pages (pmem s) pt (PGROUNDUP newsz) n) @ fl)
    \<and> tables t pt = tables s pt \<and> unmapped (pmem s) (pmem t) pt (PGROUNDUP newsz) n
    \<and> (\<forall>q. aligned q \<longrightarrow> q \<notin> tables s pt \<longrightarrow> q \<notin> set (leaf_pages (pmem s) pt (PGROUNDUP newsz) n)
         \<longrightarrow> agree_on q (pmem s) (pmem t))"
proof -
  have up: "unat (PGROUNDUP newsz) = (unat newsz + 4095) div 4096 * 4096"
      "unat (PGROUNDUP oldsz) = (unat oldsz + 4095) div 4096 * 4096"
    using assms(2,3) by (simp_all add: unat_PGROUNDUP)
  have le: "unat (PGROUNDUP newsz) \<le> unat (PGROUNDUP oldsz)"
    unfolding up using assms(2) by (intro mult_le_mono1 div_le_mono) simp
  have "(unat oldsz + 4095) div 4096 \<le> (2 ^ 38 + 4095) div 4096"
    using assms(3) by (intro div_le_mono) simp
  then have top: "unat (PGROUNDUP oldsz) \<le> 2 ^ 38" unfolding up by simp
  have np: "(PGROUNDUP oldsz - PGROUNDUP newsz) div PGSIZE = of_nat n"
    using le by (simp add: word_unat_eq_iff unat_div PGSIZE_def unat_sub word_le_nat_alt n_def
        unat_of_nat_small order_le_less_trans [OF div_le_dividend] less_imp_diff_less unat_bound64)
  have small: "n < 2 ^ 31" using top by (simp add: n_def)
  have cast: "scast (ucast (of_nat n :: uint64) :: uint) = (of_nat n :: uint64)"
    by (simp only: ucast_small [OF small] scast_small [OF small])
  have al: "aligned (PGROUNDUP newsz)" using assms(2,3) by (intro PGROUNDUP_aligned) simp
  have "n * 4096 = unat (PGROUNDUP oldsz) - unat (PGROUNDUP newsz)"
    unfolding n_def up by (simp add: diff_mult_distrib [symmetric])
  then have fits: "unat (PGROUNDUP newsz) + n * 4096 \<le> 2 ^ 38" using top le by simp
  from uvmunmap_ok [OF assms(1) al fits, of True] free
  obtain t where t: "uvmunmap pt (PGROUNDUP newsz) (of_nat n) True s = Done () t" "mem_step s t"
    "pt_inv t pt (rev (leaf_pages (pmem s) pt (PGROUNDUP newsz) n) @ fl)"
    "tables t pt = tables s pt" "unmapped (pmem s) (pmem t) pt (PGROUNDUP newsz) n"
    "\<forall>q. aligned q \<longrightarrow> q \<notin> tables s pt \<longrightarrow> q \<notin> set (leaf_pages (pmem s) pt (PGROUNDUP newsz) n) \<longrightarrow> agree_on q (pmem s) (pmem t)"
    by auto
  show ?thesis
  proof (cases "PGROUNDUP newsz < PGROUNDUP oldsz")
    case True
    then have "unat oldsz \<noteq> unat newsz" by (auto simp: word_unat_eq_iff [symmetric])
    then have "\<not> oldsz \<le> newsz" using assms(2) by (auto simp: word_le_nat_alt)
    then have "uvmdealloc pt oldsz newsz s = Done newsz t"
      using True t(1) by (simp add: uvmdealloc_def np cast Let_def)
    then show ?thesis using t by blast
  next
    case False
    then have "n = 0" by (simp add: n_def word_less_nat_alt)
    moreover have "uvmdealloc pt oldsz newsz s = Done newsz s"
      using False assms(2) by (auto simp: uvmdealloc_def word_le_nat_alt word_unat_eq_iff)
    ultimately show ?thesis using assms(1) by (simp add: leaf_pages_def unmapped_def)
  qed
qed

text \<open>A page fresh from the allocator, filled with any contents.\<close>

lemma kalloc_fill:
  assumes inv: "pt_inv s pt (n # fl)"
  shows "\<exists>t. kalloc s = Done n t \<and> n \<noteq> 0 \<and> page_ok s n \<and> n \<notin> tables s pt \<and> n \<notin> set fl
    \<and> (\<forall>q. aligned q \<longrightarrow> q \<noteq> n \<longrightarrow> agree_on q (pmem s) (pmem t))
    \<and> (\<forall>m. (\<forall>q. aligned q \<longrightarrow> q \<noteq> n \<longrightarrow> agree_on q (pmem s) m) \<longrightarrow>
         mem_step s (t\<lparr>pmem := m\<rparr>) \<and> pt_inv (t\<lparr>pmem := m\<rparr>) pt fl \<and> nodes m 2 pt = tables s pt
         \<and> (\<forall>va. lookup m pt va = lookup (pmem s) pt va))"
proof -
  obtain t f where t: "kalloc s = Done n t" "kmem_inv t fl"
      "t = relock (s\<lparr>freelist := f, pmem := memset (pmem s) n 5 4096\<rparr>)"
    using kalloc_inv_explicit inv by (fastforce simp: pt_inv_def)
  have tree: "pt_tree (pmem s) 2 pt" and nn: "n \<notin> tables s pt" "n \<notin> set fl" "page_ok s n" "n \<noteq> 0"
    using inv kmem_inv_pages [of s "n # fl"] by (auto simp: pt_inv_def)
  have al: "aligned n" using nn(3) by (simp add: page_ok_def)
  have t_agree: "agree_on q (pmem s) (pmem t)" if "aligned q" "q \<noteq> n" for q
    using that al unfolding t(3) by (auto intro!: agree_on_sym [OF memset_agree])
  have "mem_step s (t\<lparr>pmem := m\<rparr>) \<and> pt_inv (t\<lparr>pmem := m\<rparr>) pt fl \<and> nodes m 2 pt = tables s pt
      \<and> (\<forall>va. lookup m pt va = lookup (pmem s) pt va)"
    if m: "\<forall>q. aligned q \<longrightarrow> q \<noteq> n \<longrightarrow> agree_on q (pmem s) m" for m
  proof -
    have "agree_on q (pmem s) m" if "q \<in> tables s pt" for q
      using m that nn(1) pt_inv_node [OF inv that] by blast
    note fr = tree_frame [OF tree this]
    have "kmem_inv (t\<lparr>pmem := m\<rparr>) fl"
    proof (rule kmem_inv_frame [OF t(2)])
      fix x
      assume x: "x \<in> set fl"
      then have "aligned x" "x \<noteq> n" using kmem_inv_pages [OF t(2)] nn(2) by (auto simp: page_ok_def)
      then show "agree_on x (pmem t) m" using m t_agree agree_on_sym agree_on_trans by blast
    qed
    moreover have "mem_step s (t\<lparr>pmem := m\<rparr>)" by (simp add: t(3))
    ultimately show ?thesis using fr inv unfolding pt_inv_def by (auto simp: t(3))
  qed
  then show ?thesis using t(1) nn t_agree by blast
qed

definition zero_page :: "mem \<Rightarrow> uint64 \<Rightarrow> bool" where
  "zero_page m p \<longleftrightarrow> (\<forall>a. on_page p a \<longrightarrow> m a = 0)"

text \<open>
  The pages \<open>old\<close>, \<dots>, \<open>va_at old (k - 1)\<close> are mapped to distinct zeroed pages of their own, with the
  permissions given.
\<close>

definition user_range :: "'z kmem_scheme \<Rightarrow> uint64 \<Rightarrow> uint64 list \<Rightarrow> uint64 \<Rightarrow> uint64 \<Rightarrow> nat \<Rightarrow> bool" where
  "user_range s pt fl old perm k \<longleftrightarrow>
     can_free s pt fl (leaf_pages (pmem s) pt old k)
     \<and> (\<forall>i < k. \<exists>p. aligned p \<and> lookup (pmem s) pt (va_at old i) = PA2PTE p OR perm OR PTE_V \<and> zero_page (pmem s) p)"

lemma leaf_pages_snoc:
  "leaf_pages m pt va (Suc k) = leaf_pages m pt va k @
     (if lookup m pt (va_at va k) AND PTE_V = 0 then [] else [PTE2PA (lookup m pt (va_at va k))])"
  by (simp add: leaf_pages_def)

lemma zero_page_agree: "zero_page m p \<Longrightarrow> agree_on p m m' \<Longrightarrow> zero_page m' p"
  by (simp add: zero_page_def agree_on_def)

text \<open>Mapping one more page at the end of such a range.\<close>

lemma user_range_extend:
  assumes R: "user_range s pt fl old perm k" and old: "aligned old" "unat old + Suc k * 4096 \<le> 2 ^ 38"
    and n: "page_ok s n" "n \<notin> tables s pt" "n \<notin> set fl" "n \<notin> set (leaf_pages (pmem s) pt old k)"
    and perm: "perm < 1024"
    and t: "mem_step s t" "\<forall>q. aligned q \<longrightarrow> q \<noteq> n \<longrightarrow> q \<notin> tables s pt \<longrightarrow> q \<notin> set fl \<longrightarrow> agree_on q (pmem s) (pmem t)"
      "tables t pt \<subseteq> tables s pt \<union> set fl" "set fl' \<subseteq> set fl"
    and look: "\<And>va. lookup (pmem t) pt va = (if same_vpage va (va_at old k) then PA2PTE n OR perm OR PTE_V else lookup (pmem s) pt va)"
    and zero: "zero_page (pmem t) n"
  shows "user_range t pt fl' old perm (Suc k)"
    and "leaf_pages (pmem t) pt old (Suc k) = leaf_pages (pmem s) pt old k @ [n]"
proof -
  have al: "aligned n" using n(1) by (simp add: page_ok_def)
  have off: "lookup (pmem t) pt (va_at old i) = lookup (pmem s) pt (va_at old i)" if "i < k" for i
    using look same_vpage_at [OF old(1), of i k] old(2) that by simp
  have at: "lookup (pmem t) pt (va_at old k) = PA2PTE n OR perm OR PTE_V" using look by simp
  show pages: "leaf_pages (pmem t) pt old (Suc k) = leaf_pages (pmem s) pt old k @ [n]"
    using leaf_pages_cong [of k "pmem t" pt old "pmem s"] off at leaf_valid leaf_PA [OF al perm]
    by (simp add: leaf_pages_snoc)
  have "can_free t pt fl' (leaf_pages (pmem s) pt old k @ [n])"
    using R n t(3,4) mem_step_fields(8) [OF t(1)] by (auto simp: user_range_def can_free_def)
  moreover have "\<exists>p. aligned p \<and> lookup (pmem t) pt (va_at old i) = PA2PTE p OR perm OR PTE_V \<and> zero_page (pmem t) p"
    if "i < Suc k" for i
  proof (cases "i = k")
    case True
    then show ?thesis using al at zero by auto
  next
    case False
    then have i: "i < k" using that by simp
    then obtain p where p: "aligned p" "lookup (pmem s) pt (va_at old i) = PA2PTE p OR perm OR PTE_V" "zero_page (pmem s) p"
      using R by (auto simp: user_range_def)
    then have "p \<in> set (leaf_pages (pmem s) pt old k)"
      using i leaf_valid [of p perm] leaf_PA [OF p(1) perm] by (force simp: leaf_pages_def)
    then have "agree_on p (pmem s) (pmem t)" using R t(2) p(1) n(4) by (auto simp: user_range_def can_free_def)
    then show ?thesis using p off [OF i] zero_page_agree by auto
  qed
  ultimately show "user_range t pt fl' old perm (Suc k)" unfolding user_range_def pages by blast
qed

text \<open>
  The outcome of \<open>uvmalloc\<close> on \<open>n\<close> pages from \<open>old\<close>: all of them are mapped to fresh zeroed pages,
  or the range is unmapped again and every page taken for it is back on the free list.
\<close>

definition uvmalloc_post where
  "uvmalloc_post s pt P old n newsz perm r t fl' \<longleftrightarrow>
     mem_step s t \<and> pt_inv t pt fl'
     \<and> (r = newsz \<and> user_range t pt fl' old perm n
          \<and> (\<forall>va'. (\<forall>i < n. \<not> same_vpage va' (va_at old i)) \<longrightarrow> lookup (pmem t) pt va' = lookup (pmem s) pt va')
          \<and> set fl' \<union> tables t pt \<union> set (leaf_pages (pmem t) pt old n) = P
        \<or> r = 0 \<and> unmapped (pmem s) (pmem t) pt old n \<and> set fl' \<union> tables t pt = P)"

lemma uvmalloc_undo:
  assumes inv: "pt_inv s pt fl" and R: "user_range s pt fl old perm k"
    and old: "aligned old" "unat old + n * 4096 \<le> 2 ^ 38" and k: "k \<le> n"
    and rest: "\<forall>i. k \<le> i \<longrightarrow> i < n \<longrightarrow> lookup (pmem s) pt (va_at old i) AND PTE_V = 0"
  shows "\<exists>t fl'. uvmdealloc pt (va_at old k) old s = Done old t
    \<and> uvmalloc_post s pt (set fl \<union> tables s pt \<union> set (leaf_pages (pmem s) pt old k)) old n newsz perm 0 t fl'"
proof -
  let ?ps = "leaf_pages (pmem s) pt old k"
  have le: "unat old + k * 4096 \<le> 2 ^ 38" using old(2) k by (meson add_le_cancel_left mult_le_mono1 order.trans)
  then have u: "unat (va_at old k) = unat old + k * 4096" by (intro unat_va_at) simp
  have al: "aligned (va_at old k)" using old(1) u by (simp add: aligned_unat)
  have up: "PGROUNDUP old = old" "PGROUNDUP (va_at old k) = va_at old k"
    using PGROUNDUP_id old(1) al by simp_all
  have cnt: "(unat (PGROUNDUP (va_at old k)) - unat (PGROUNDUP old)) div 4096 = k" by (simp add: up u)
  have "\<exists>t. uvmdealloc pt (va_at old k) old s = Done old t \<and> mem_step s t \<and> pt_inv t pt (rev ?ps @ fl)
    \<and> tables t pt = tables s pt \<and> unmapped (pmem s) (pmem t) pt old k
    \<and> (\<forall>q. aligned q \<longrightarrow> q \<notin> tables s pt \<longrightarrow> q \<notin> set ?ps \<longrightarrow> agree_on q (pmem s) (pmem t))"
    using uvmdealloc_ok [OF inv, of old "va_at old k"] R u le unfolding cnt unfolding up
    by (auto simp: user_range_def)
  then obtain t where t: "uvmdealloc pt (va_at old k) old s = Done old t" "mem_step s t" "pt_inv t pt (rev ?ps @ fl)"
    "tables t pt = tables s pt" "unmapped (pmem s) (pmem t) pt old k" by blast
  have "unmapped (pmem s) (pmem t) pt old n"
    unfolding unmapped_def
  proof (intro conjI allI impI)
    fix i
    assume i: "i < n"
    show "lookup (pmem t) pt (va_at old i) AND PTE_V = 0"
    proof (cases "i < k")
      case True
      then show ?thesis using t(5) by (simp add: unmapped_def)
    next
      case False
      have "unat old + i * 4096 < 2 ^ 38" using i old(2) by (rule_tac order_less_le_trans [OF _ old(2)]) simp
      then have "\<not> same_vpage (va_at old i) (va_at old j)" if "j < k" for j
        using same_vpage_at [OF old(1), of i j] that False by simp
      then show ?thesis using t(5) rest i False by (simp add: unmapped_def)
    qed
  qed (use t(5) k in \<open>auto simp: unmapped_def\<close>)
  moreover have "set (rev ?ps @ fl) \<union> tables t pt = set fl \<union> tables s pt \<union> set ?ps"
    unfolding t(4) by auto
  ultimately show ?thesis using t(1-3) unfolding uvmalloc_post_def by blast
qed

lemma range_bound: "i < n \<Longrightarrow> unat old + n * 4096 \<le> 2 ^ 38 \<Longrightarrow> unat old + Suc i * 4096 \<le> 2 ^ 38"
proof -
  assume "i < n" "unat old + n * 4096 \<le> 2 ^ 38"
  moreover have "Suc i * 4096 \<le> n * 4096" using \<open>i < n\<close> by (intro mult_le_mono1) simp
  ultimately show ?thesis by linarith
qed

lemma user_range_mono:
  assumes "user_range s pt fl old perm k" "perm < 1024" "mem_step s t" "tables t pt \<subseteq> tables s pt \<union> set fl" "set fl' \<subseteq> set fl"
    and same: "\<forall>q. aligned q \<longrightarrow> q \<notin> tables s pt \<longrightarrow> q \<notin> set fl \<longrightarrow> agree_on q (pmem s) (pmem t)"
    and look: "\<And>i. i < k \<Longrightarrow> lookup (pmem t) pt (va_at old i) = lookup (pmem s) pt (va_at old i)"
  shows "user_range t pt fl' old perm k" "leaf_pages (pmem t) pt old k = leaf_pages (pmem s) pt old k"
proof -
  show pages: "leaf_pages (pmem t) pt old k = leaf_pages (pmem s) pt old k" using look by (rule leaf_pages_cong)
  have "can_free t pt fl' (leaf_pages (pmem s) pt old k)"
    using assms(1,4,5) mem_step_fields(8) [OF assms(3)] by (auto simp: user_range_def can_free_def)
  moreover have "\<exists>p. aligned p \<and> lookup (pmem t) pt (va_at old i) = PA2PTE p OR perm OR PTE_V \<and> zero_page (pmem t) p"
    if i: "i < k" for i
  proof -
    obtain p where p: "aligned p" "lookup (pmem s) pt (va_at old i) = PA2PTE p OR perm OR PTE_V" "zero_page (pmem s) p"
      using assms(1) i by (auto simp: user_range_def)
    then have "p \<in> set (leaf_pages (pmem s) pt old k)"
      using i leaf_valid [of p perm] leaf_PA [OF p(1) assms(2)] by (force simp: leaf_pages_def)
    then have "agree_on p (pmem s) (pmem t)" using assms(1) same p(1) by (auto simp: user_range_def can_free_def)
    then show ?thesis using p look [OF i] zero_page_agree by auto
  qed
  ultimately show "user_range t pt fl' old perm k" unfolding user_range_def pages by blast
qed

lemma fill_agree:
  "\<forall>q. aligned q \<longrightarrow> q \<noteq> n \<longrightarrow> agree_on q m m1 \<Longrightarrow> aligned n \<Longrightarrow>
   \<forall>q. aligned q \<longrightarrow> q \<noteq> n \<longrightarrow> agree_on q m (memset m1 n c 4096)"
  using agree_on_trans agree_on_sym [OF memset_agree] by blast

lemma same_vpage_lookup: "same_vpage a b \<Longrightarrow> lookup m pt a = lookup m pt b"
  by (auto simp: lookup_def leaf_node_def same_vpage_def split: option.split)

text \<open>One round of the loop: a page is taken, zeroed and mapped, or there is no page for it or for its tables.\<close>

lemma uvmalloc_round:
  assumes inv: "pt_inv s pt fl" and R: "user_range s pt fl old perm k"
    and old: "aligned old" "unat old + Suc k * 4096 \<le> 2 ^ 38" and perm: "perm < 1024"
    and free: "lookup (pmem s) pt (va_at old k) AND PTE_V = 0"
  obtains (none) "fl = []" "kalloc s = Done 0 (relock s)"
  | (mapped) n t u fl' where "kalloc s = Done n t" "n \<noteq> 0"
      "mappages pt (va_at old k) PGSIZE n perm (t\<lparr>pmem := memset (pmem t) n 0 4096\<rparr>) = Done 0 u"
      "mem_step s u" "pt_inv u pt fl'" "user_range u pt fl' old perm (Suc k)"
      "\<forall>va. \<not> same_vpage va (va_at old k) \<longrightarrow> lookup (pmem u) pt va = lookup (pmem s) pt va"
      "set fl' \<union> tables u pt \<union> set (leaf_pages (pmem u) pt old (Suc k)) =
         set fl \<union> tables s pt \<union> set (leaf_pages (pmem s) pt old k)"
      "leaf_pages (pmem u) pt old (Suc k) = leaf_pages (pmem s) pt old k @ [n]"
  | (undo) n t u v fl' where "kalloc s = Done n t" "n \<noteq> 0"
      "mappages pt (va_at old k) PGSIZE n perm (t\<lparr>pmem := memset (pmem t) n 0 4096\<rparr>) = Done (-1) u"
      "kfree n u = Done () v" "mem_step s v" "pt_inv v pt fl'" "user_range v pt fl' old perm k"
      "\<forall>va. lookup (pmem v) pt va = lookup (pmem s) pt va"
      "set fl' \<union> tables v pt = set fl \<union> tables s pt"
      "leaf_pages (pmem v) pt old k = leaf_pages (pmem s) pt old k"
proof (cases fl)
  case Nil
  then show ?thesis using none inv by (simp add: pt_inv_def kalloc_inv_Nil)
next
  case (Cons n fl1)
  from kalloc_fill [OF inv [unfolded Cons]]
  obtain t where t: "kalloc s = Done n t" "n \<noteq> 0" "page_ok s n" "n \<notin> tables s pt" "n \<notin> set fl1"
      "\<forall>q. aligned q \<longrightarrow> q \<noteq> n \<longrightarrow> agree_on q (pmem s) (pmem t)"
      "\<And>m. \<forall>q. aligned q \<longrightarrow> q \<noteq> n \<longrightarrow> agree_on q (pmem s) m \<Longrightarrow>
         mem_step s (t\<lparr>pmem := m\<rparr>) \<and> pt_inv (t\<lparr>pmem := m\<rparr>) pt fl1 \<and> nodes m 2 pt = tables s pt
         \<and> (\<forall>va. lookup m pt va = lookup (pmem s) pt va)" by blast
  have al: "aligned n" using t(3) by (simp add: page_ok_def)
  let ?m = "memset (pmem t) n 0 4096" and ?t = "t\<lparr>pmem := memset (pmem t) n 0 4096\<rparr>"
  have fill: "\<forall>q. aligned q \<longrightarrow> q \<noteq> n \<longrightarrow> agree_on q (pmem s) ?m"
    using fill_agree [OF t(6) al] .
  note t2 = t(7) [OF fill]
  have n_leaf: "n \<notin> set (leaf_pages (pmem s) pt old k)"
    using R Cons by (auto simp: user_range_def can_free_def)
  have zero: "zero_page ?m n" by (simp add: zero_page_def memset_page)
  have va: "aligned (va_at old k)" "unat (va_at old k) + 1 * 4096 \<le> 2 ^ 38"
    using old by (simp_all add: unat_va_at aligned_unat)
  have "\<forall>i < 1. lookup (pmem ?t) pt (va_at (va_at old k) i) AND PTE_V = 0" using free t2 by simp
  from mappages_ok [OF _ va(1) _ va(2) this, of fl1 n perm] t2
  obtain r u fl' j where u: "mappages pt (va_at old k) PGSIZE n perm ?t = Done r u" "grown ?t pt fl1 u fl'"
      "mapped_upto ?m (pmem u) pt (va_at old k) n perm j" "r = 0 \<and> j = 1 \<or> r = -1 \<and> j = 0 \<and> fl' = []"
    by (auto simp: PGSIZE_def)
  obtain us where us: "fl1 = us @ fl'" "tables u pt = tables s pt \<union> set us" using u(2) t2 by (auto simp: grown_def)
  have frame: "agree_on q ?m (pmem u)" if "aligned q" "q \<notin> tables s pt" "q \<notin> set fl1" for q
    using u(2) t2 that by (simp add: grown_def)
  have step: "mem_step s u" using t2 u(2) mem_step_trans by (auto simp: grown_def)
  have frame': "\<forall>q. aligned q \<longrightarrow> q \<noteq> n \<longrightarrow> q \<notin> tables s pt \<longrightarrow> q \<notin> set fl \<longrightarrow> agree_on q (pmem s) (pmem u)"
  proof (intro allI impI)
    fix q
    assume q: "aligned q" "q \<noteq> n" "q \<notin> tables s pt" "q \<notin> set fl"
    then have "agree_on q (pmem s) ?m" using fill by blast
    also have "agree_on q ?m (pmem u)" using frame q Cons by simp
    finally show "agree_on q (pmem s) (pmem u)" .
  qed
  show ?thesis
  proof (cases "r = 0")
    case True
    then have look: "lookup (pmem u) pt va = (if same_vpage va (va_at old k) then PA2PTE n OR perm OR PTE_V else lookup (pmem s) pt va)" for va
      using u(3,4) t2 same_vpage_lookup [of va "va_at old k" "pmem u" pt] by (auto simp: mapped_upto_def)
    have z: "zero_page (pmem u) n" using zero frame [OF al t(4,5)] by (rule zero_page_agree)
    have R1: "user_range s pt fl1 old perm k" using R Cons by (auto simp: user_range_def can_free_def)
    have fr1: "\<forall>q. aligned q \<longrightarrow> q \<noteq> n \<longrightarrow> q \<notin> tables s pt \<longrightarrow> q \<notin> set fl1 \<longrightarrow> agree_on q (pmem s) (pmem u)"
      using frame' Cons by simp
    have sub: "tables u pt \<subseteq> tables s pt \<union> set fl1" "set fl' \<subseteq> set fl1" using us by auto
    note ext = user_range_extend [OF R1 old t(3-5) n_leaf perm step fr1 sub look z]
    have "set fl' \<union> tables u pt \<union> set (leaf_pages (pmem u) pt old (Suc k)) =
         set fl \<union> tables s pt \<union> set (leaf_pages (pmem s) pt old k)"
      unfolding ext(2) us(2) using us(1) Cons by auto
    moreover have "\<forall>va. \<not> same_vpage va (va_at old k) \<longrightarrow> lookup (pmem u) pt va = lookup (pmem s) pt va"
      using look by simp
    ultimately show ?thesis
      using mapped [OF t(1,2) _ step grown_inv [OF u(2)] ext(1)] ext(2) u(1) True by blast
  next
    case False
    then have r: "r = -1" "j = 0" "fl' = []" using u(4) by auto
    have look: "\<forall>va. lookup (pmem u) pt va = lookup (pmem s) pt va" using u(3) t2 r(2) by (simp add: mapped_upto_def)
    have "page_ok u n" "n \<notin> set fl'" "n \<notin> tables u pt"
      using t(3-5) us mem_step_fields(8) [OF step] by auto
    from kfree_outside [OF grown_inv [OF u(2)] this]
    obtain v where v: "kfree n u = Done () v" "mem_step u v" "pt_inv v pt (n # fl')" "tables v pt = tables u pt"
        "\<forall>va. lookup (pmem v) pt va = lookup (pmem u) pt va"
        "\<forall>q. aligned q \<longrightarrow> q \<noteq> n \<longrightarrow> agree_on q (pmem u) (pmem v)" by blast
    have step': "mem_step s v" using mem_step_trans [OF step v(2)] .
    have fr: "\<forall>q. aligned q \<longrightarrow> q \<notin> tables s pt \<longrightarrow> q \<notin> set fl \<longrightarrow> agree_on q (pmem s) (pmem v)"
    proof (intro allI impI)
      fix q
      assume q: "aligned q" "q \<notin> tables s pt" "q \<notin> set fl"
      then have "q \<noteq> n" using Cons by auto
      then have "agree_on q (pmem s) (pmem u)" using frame' q by blast
      also have "agree_on q (pmem u) (pmem v)" using v(6) q \<open>q \<noteq> n\<close> by blast
      finally show "agree_on q (pmem s) (pmem v)" .
    qed
    have look': "\<forall>va. lookup (pmem v) pt va = lookup (pmem s) pt va" using v(5) look by simp
    have sub: "tables v pt \<subseteq> tables s pt \<union> set fl" "set (n # fl') \<subseteq> set fl" using us v(4) Cons by auto
    have "set (n # fl') \<union> tables v pt = set fl \<union> tables s pt" unfolding v(4) us(2) using us(1) Cons by auto
    moreover note um = user_range_mono [OF R perm step' sub fr]
    ultimately show ?thesis
      using undo [OF t(1,2) _ v(1) step' v(3)] u(1) r(1) look' by blast
  qed
qed

lemma uvmalloc_post_chain:
  assumes "uvmalloc_post u pt P old n newsz perm r t fl'" "mem_step s u" "k < n"
    and look: "\<forall>va. \<not> same_vpage va (va_at old k) \<longrightarrow> lookup (pmem u) pt va = lookup (pmem s) pt va"
  shows "uvmalloc_post s pt P old n newsz perm r t fl'"
  using assms mem_step_trans [of s u t] unfolding uvmalloc_post_def unmapped_def by auto

lemma uvmalloc_loop_ok:
  assumes "pt_inv s pt fl" "user_range s pt fl old (PTE_R OR PTE_U OR xperm) k"
    and "aligned old" "unat old + n * 4096 \<le> 2 ^ 38" "k \<le> n" "n - k < fuel"
    and "PTE_R OR PTE_U OR xperm < 1024" "\<forall>i. k \<le> i \<longrightarrow> i < n \<longrightarrow> lookup (pmem s) pt (va_at old i) AND PTE_V = 0"
    and size: "\<forall>i \<le> n. va_at old i < newsz \<longleftrightarrow> i < n"
  shows "\<exists>r t fl'. uvmalloc_loop fuel pt old newsz xperm (va_at old k) s = Done r t
    \<and> uvmalloc_post s pt (set fl \<union> tables s pt \<union> set (leaf_pages (pmem s) pt old k)) old n newsz
        (PTE_R OR PTE_U OR xperm) r t fl'"
  using assms(1,2,5,6,8)
proof (induction "n - k" arbitrary: k fuel s fl)
  case 0
  then have "k = n" "\<not> va_at old n < newsz" using size by auto
  moreover obtain f where "fuel = Suc f" using 0(5) by (cases fuel) auto
  ultimately have "uvmalloc_loop fuel pt old newsz xperm (va_at old k) s = Done newsz s" by simp
  moreover have "uvmalloc_post s pt (set fl \<union> tables s pt \<union> set (leaf_pages (pmem s) pt old k)) old n newsz
        (PTE_R OR PTE_U OR xperm) newsz s fl"
    using 0 \<open>k = n\<close> by (simp add: uvmalloc_post_def)
  ultimately show ?case by blast
next
  case (Suc d)
  let ?perm = "PTE_R OR PTE_U OR xperm" and ?P = "set fl \<union> tables s pt \<union> set (leaf_pages (pmem s) pt old k)"
  have k: "k < n" "d = n - Suc k" using Suc.hyps(2) by auto
  obtain f where f: "fuel = Suc f" using Suc.prems(4) by (cases fuel) auto
  have a: "va_at old k < newsz" using size k(1) by auto
  have bound: "unat old + Suc k * 4096 \<le> 2 ^ 38" by (rule range_bound [OF k(1) assms(4)])
  have inval: "lookup (pmem s) pt (va_at old k) AND PTE_V = 0" using Suc.prems(5) k(1) by blast
  show ?case
  proof (rule uvmalloc_round [OF Suc.prems(1,2) assms(3) bound assms(7) inval], goal_cases none mapped undo)
    case none
    have inv: "pt_inv (relock s) pt fl" "user_range (relock s) pt fl old ?perm k"
      using Suc.prems(1,2) by (simp_all add: pt_inv_def user_range_def can_free_def)
    have "\<forall>i. k \<le> i \<longrightarrow> i < n \<longrightarrow> lookup (pmem (relock s)) pt (va_at old i) AND PTE_V = 0"
      using Suc.prems(5) by simp
    from uvmalloc_undo [OF inv assms(3,4) Suc.prems(3) this, where newsz = newsz]
    obtain t fl' where t: "uvmdealloc pt (va_at old k) old (relock s) = Done old t"
        "uvmalloc_post (relock s) pt ?P old n newsz ?perm 0 t fl'" by auto
    have "uvmalloc_post s pt ?P old n newsz ?perm 0 t fl'"
      by (rule uvmalloc_post_chain [OF t(2) _ k(1)]) simp_all
    moreover have "uvmalloc_loop fuel pt old newsz xperm (va_at old k) s = Done 0 t"
      using f a none(2) t(1) by simp
    ultimately show ?thesis by blast
  next
    case (mapped n' t u fl')
    have inval': "\<forall>i. Suc k \<le> i \<longrightarrow> i < n \<longrightarrow> lookup (pmem u) pt (va_at old i) AND PTE_V = 0"
    proof (intro allI impI)
      fix i
      assume i: "Suc k \<le> i" "i < n"
      have "\<not> same_vpage (va_at old i) (va_at old k)"
        using same_vpage_at [OF assms(3), of i k] range_bound [OF i(2) assms(4)] bound i(1) by simp
      then show "lookup (pmem u) pt (va_at old i) AND PTE_V = 0"
        using mapped(7) Suc.prems(5) i by simp
    qed
    have "Suc k \<le> n" "n - Suc k < f" using k Suc.prems(4) f by auto
    from Suc.hyps(1) [OF k(2) mapped(5,6) this inval']
    obtain r v fl'' where v: "uvmalloc_loop f pt old newsz xperm (va_at old (Suc k)) u = Done r v"
        "uvmalloc_post u pt ?P old n newsz ?perm r v fl''" unfolding mapped(8) by blast
    have "uvmalloc_post s pt ?P old n newsz ?perm r v fl''"
      by (rule uvmalloc_post_chain [OF v(2) mapped(4) k(1) mapped(7)])
    moreover have "va_at old k + PGSIZE = va_at old (Suc k)" by (simp add: va_at_def PGSIZE_def algebra_simps)
    then have "uvmalloc_loop fuel pt old newsz xperm (va_at old k) s = Done r v"
      using f a mapped(1-3) v(1) by simp
    ultimately show ?thesis by blast
  next
    case (undo n' t u v fl')
    have "\<forall>i. k \<le> i \<longrightarrow> i < n \<longrightarrow> lookup (pmem v) pt (va_at old i) AND PTE_V = 0"
      using Suc.prems(5) undo(8) by simp
    from uvmalloc_undo [OF undo(6,7) assms(3,4) Suc.prems(3) this, where newsz = newsz]
    obtain w fl'' where w: "uvmdealloc pt (va_at old k) old v = Done old w"
        "uvmalloc_post v pt ?P old n newsz ?perm 0 w fl''" unfolding undo(9,10) by blast
    have "uvmalloc_post s pt ?P old n newsz ?perm 0 w fl''"
      by (rule uvmalloc_post_chain [OF w(2) undo(5) k(1)]) (use undo(8) in simp)
    moreover have "uvmalloc_loop fuel pt old newsz xperm (va_at old k) s = Done 0 w"
      using f a undo(1-4) w(1) by simp
    ultimately show ?thesis by blast
  qed
qed

section \<open>Properties\<close>

lemma flags_small: "xperm < 1024 \<Longrightarrow> PTE_R OR PTE_U OR xperm < 1024"
proof -
  assume "xperm < 1024"
  then have "take_bit 10 (PTE_R OR PTE_U OR xperm) = PTE_R OR PTE_U OR xperm"
  proof (intro bit_word_eqI)
    fix n :: nat
    show "bit (take_bit 10 (PTE_R OR PTE_U OR xperm)) n = bit (PTE_R OR PTE_U OR xperm) n"
      using \<open>xperm < 1024\<close> small_flag [of xperm n] small_flag [of PTE_R n] small_flag [of PTE_U n]
      by (cases "n < 10") (auto simp: bit_take_bit_iff bit_or_iff PTE_R_def PTE_U_def)
  qed
  then have "PTE_R OR PTE_U OR xperm = (PTE_R OR PTE_U OR xperm) mod 1024"
    by (simp add: take_bit_eq_mod)
  moreover have "(PTE_R OR PTE_U OR xperm) mod 1024 < 1024" by (rule word_mod_less_divisor) simp
  ultimately show ?thesis by simp
qed

text \<open>
  C4. \<^verbatim>\<open>uvmalloc\<close> grows an address space completely or not at all. It returns the new size with
  every page of the new range mapped to a zeroed physical page of its own and every other
  translation unchanged, or it returns 0 with the range unmapped. Either way no page is lost:
  the free list, the tables and the pages of the range together are the pages that were free
  or tables before.
\<close>

theorem uvmalloc_all_or_nothing:
  assumes "pt_inv s pt fl" "oldsz \<le> newsz" "unat newsz \<le> 2 ^ 38" "xperm < 1024"
  defines "n \<equiv> (unat newsz - unat (PGROUNDUP oldsz) + 4095) div 4096"
  assumes "\<forall>i < n. lookup (pmem s) pt (va_at (PGROUNDUP oldsz) i) AND PTE_V = 0"
  shows "\<exists>r t fl'. uvmalloc pt oldsz newsz xperm s = Done r t
    \<and> uvmalloc_post s pt (set fl \<union> tables s pt) (PGROUNDUP oldsz) n newsz (PTE_R OR PTE_U OR xperm) r t fl'"
proof -
  let ?old = "PGROUNDUP oldsz"
  have le: "unat oldsz \<le> unat newsz" using assms(2) by (simp add: word_le_nat_alt)
  have up: "unat ?old = (unat oldsz + 4095) div 4096 * 4096" using le assms(3) by (simp add: unat_PGROUNDUP)
  have al: "aligned ?old" using le assms(3) by (intro PGROUNDUP_aligned) simp
  have old_top: "unat ?old \<le> 2 ^ 38"
  proof -
    have "(unat oldsz + 4095) div 4096 \<le> (2 ^ 38 + 4095) div 4096" using le assms(3) by (intro div_le_mono) simp
    then show ?thesis unfolding up by simp
  qed
  have fits: "unat ?old + n * 4096 \<le> 2 ^ 38"
  proof (cases "unat newsz \<le> unat ?old")
    case True
    then show ?thesis using old_top by (simp add: n_def)
  next
    case False
    obtain a where a: "unat ?old = 4096 * a" using al by (auto simp: aligned_unat mod_eq_0_iff_dvd)
    have "n * 4096 \<le> 2 ^ 38 - unat ?old"
    proof -
      have "n \<le> (2 ^ 38 - unat ?old + 4095) div 4096" unfolding n_def using assms(3) by (intro div_le_mono) simp
      also have "2 ^ 38 - unat ?old = 4096 * (67108864 - a)" by (simp add: a)
      finally show ?thesis by (simp add: a)
    qed
    then show ?thesis using old_top by simp
  qed
  have size: "\<forall>i \<le> n. va_at ?old i < newsz \<longleftrightarrow> i < n"
  proof (intro allI impI)
    fix i
    assume "i \<le> n"
    then have "unat ?old + i * 4096 \<le> 2 ^ 38" using fits by (meson add_le_cancel_left mult_le_mono1 order.trans)
    then have "va_at ?old i < newsz \<longleftrightarrow> unat ?old + i * 4096 < unat newsz" by (simp add: word_less_nat_alt unat_va_at)
    also have "\<dots> \<longleftrightarrow> i < n" unfolding n_def by linarith
    finally show "va_at ?old i < newsz \<longleftrightarrow> i < n" .
  qed
  have R: "user_range s pt fl ?old (PTE_R OR PTE_U OR xperm) 0"
    by (simp add: user_range_def can_free_def leaf_pages_def)
  have fuel: "n - 0 < unat (newsz - ?old) div 4096 + 2"
  proof (cases "unat ?old \<le> unat newsz")
    case True
    then have "unat (newsz - ?old) = unat newsz - unat ?old" by (simp add: unat_sub word_le_nat_alt)
    then show ?thesis by (simp add: n_def)
  qed (simp add: n_def)
  have "\<forall>i. 0 \<le> i \<longrightarrow> i < n \<longrightarrow> lookup (pmem s) pt (va_at ?old i) AND PTE_V = 0" using assms(6) by blast
  from uvmalloc_loop_ok [OF assms(1) R al fits le0 fuel flags_small [OF assms(4)] this size]
  show ?thesis using leD [OF assms(2)] by (simp add: uvmalloc_def Let_def leaf_pages_def del: uvmalloc_loop.simps)
qed

theorem uvmalloc_all_or_nothing_witness:
  "\<exists>(s :: kmem) r t fl'. pt_inv s 0x87FFF000 (tl boot_pages) \<and> uvmalloc 0x87FFF000 0 0x1000 PTE_W s = Done r t
     \<and> uvmalloc_post s 0x87FFF000 (set (tl boot_pages) \<union> tables s 0x87FFF000) 0 1 0x1000
         (PTE_R OR PTE_U OR PTE_W) r t fl'"
proof -
  obtain s :: kmem where s: "pt_inv s 0x87FFF000 (tl boot_pages)" "\<forall>va. lookup (pmem s) 0x87FFF000 va = 0"
    using example_table by blast
  have "PGROUNDUP 0 = 0" by (simp add: PGROUNDUP_def PGSIZE_def)
  then show ?thesis
    using s uvmalloc_all_or_nothing [OF s(1), where oldsz = 0 and newsz = "0x1000" and xperm = PTE_W]
    by (auto simp: PTE_W_def)
qed

end
