(* ===== verification/Freewalk.thy ===== *)
theory Freewalk
  imports Uvm
begin

text \<open>
  \<^verbatim>\<open>freewalk\<close> and \<^verbatim>\<open>uvmfree\<close> of \<^verbatim>\<open>kernel/vm.c\<close> give back every page of an address space: the
  pages behind the leaf entries and all the tables. The proof goes by recursion over the levels
  of the tree, with the tree of a table split into the trees of its entries.
\<close>

section \<open>Subtrees\<close>

definition child :: "mem \<Rightarrow> uint64 \<Rightarrow> uint64 \<Rightarrow> uint64" where
  "child m p i = PTE2PA (ent m p i)"

definition leafless :: "mem \<Rightarrow> nat \<Rightarrow> uint64 \<Rightarrow> bool" where
  "leafless m l p \<longleftrightarrow>
     (\<forall>is q i. short l is \<longrightarrow> length is = l \<longrightarrow> node_at m p is = Some q \<longrightarrow> i < 512 \<longrightarrow> ent m q i AND PTE_V = 0)"

lemma node_at_child: "ent m p i AND PTE_V \<noteq> 0 \<Longrightarrow> node_at m p (i # is) = node_at m (child m p i) is"
  by (simp add: node_at.simps(2) child_def)

lemma short_Cons: "short (Suc l) (i # is) \<longleftrightarrow> i < 512 \<and> short l is"
  by (auto simp: short_def)

lemma nodes_Suc:
  "nodes m (Suc l) p = insert p (\<Union>i \<in> {i. i < 512 \<and> ent m p i AND PTE_V \<noteq> 0}. nodes m l (child m p i))"
proof (rule set_eqI, rule iffI)
  fix q
  assume "q \<in> nodes m (Suc l) p"
  then obtain js where js: "short (Suc l) js" "node_at m p js = Some q" by (auto simp: nodes_def)
  show "q \<in> insert p (\<Union>i \<in> {i. i < 512 \<and> ent m p i AND PTE_V \<noteq> 0}. nodes m l (child m p i))"
  proof (cases js)
    case Nil
    then show ?thesis using js by simp
  next
    case (Cons i "is")
    then have "i < 512" "short l is" "ent m p i AND PTE_V \<noteq> 0"
      using js by (auto simp: short_Cons node_at.simps(2) split: if_splits)
    then show ?thesis using js Cons nodesI [of l "is" m "child m p i" q] by (auto simp: node_at_child)
  qed
next
  fix q
  assume q: "q \<in> insert p (\<Union>i \<in> {i. i < 512 \<and> ent m p i AND PTE_V \<noteq> 0}. nodes m l (child m p i))"
  show "q \<in> nodes m (Suc l) p"
  proof (cases "q = p")
    case False
    then obtain i "is" where "i < 512" "ent m p i AND PTE_V \<noteq> 0" "short l is" "node_at m (child m p i) is = Some q"
      using q by (auto simp: nodes_def)
    then show ?thesis by (intro nodesI [of _ "i # is"]) (auto simp: short_Cons node_at_child)
  qed simp
qed

lemma child_tree:
  assumes "pt_tree m (Suc l) p" "i < 512" "ent m p i AND PTE_V \<noteq> 0"
  shows "pt_tree m l (child m p i)"
proof -
  have path: "short (Suc l) (i # is)" if "short l is" for "is" using that assms(2) by (simp add: short_Cons)
  have "is = js" if "short l is" "short l js" "node_at m (child m p i) is = Some q" "node_at m (child m p i) js = Some q" for "is" js q
    using pt_tree_unique [OF assms(1) path [OF that(1)] path [OF that(2)]] that(3,4) assms(3) by (simp add: node_at_child)
  moreover have "ent m q j AND (PTE_R OR PTE_W OR PTE_X) = 0"
    if "short (l - 1) is" "0 < l" "j < 512" "node_at m (child m p i) is = Some q" "ent m q j AND PTE_V \<noteq> 0" for "is" j q
  proof -
    have "short l (i # is)" using that(1,2) assms(2) by (cases l) (auto simp: short_Cons)
    then show ?thesis
      using pt_tree_interior [OF assms(1), of "i # is" j q] that assms(3) by (simp add: node_at_child)
  qed
  moreover have "aligned q" if "q \<in> nodes m l (child m p i)" for q
    using pt_tree_aligned [OF assms(1)] that assms(2,3) by (auto simp: nodes_Suc)
  ultimately show ?thesis unfolding pt_tree_def by blast
qed

lemma child_leafless:
  assumes "leafless m (Suc l) p" "i < 512" "ent m p i AND PTE_V \<noteq> 0"
  shows "leafless m l (child m p i)"
  unfolding leafless_def
proof (intro allI impI)
  fix "is" q and j :: uint64
  assume "short l is" "length is = l" "node_at m (child m p i) is = Some q" "j < 512"
  then show "ent m q j AND PTE_V = 0"
    using assms unfolding leafless_def
    by (elim allE [of _ "i # is"] allE [of _ q] allE [of _ j]) (simp add: short_Cons node_at_child)
qed

lemma children_disjoint:
  assumes "pt_tree m (Suc l) p" "i < 512" "ent m p i AND PTE_V \<noteq> 0" "q \<in> nodes m l (child m p i)"
  shows "q \<noteq> p" "j < 512 \<Longrightarrow> ent m p j AND PTE_V \<noteq> 0 \<Longrightarrow> q \<in> nodes m l (child m p j) \<Longrightarrow> j = i"
proof -
  obtain "is" where "is": "short l is" "node_at m (child m p i) is = Some q" using assms(4) by (auto simp: nodes_def)
  then have at: "short (Suc l) (i # is)" "node_at m p (i # is) = Some q"
    using assms(2,3) by (auto simp: short_Cons node_at_child)
  show "q \<noteq> p"
  proof
    assume "q = p"
    then have "i # is = []" using pt_tree_unique [OF assms(1) at(1), of "[]" q] at(2) by simp
    then show False by simp
  qed
  show "j = i" if h: "j < 512" "ent m p j AND PTE_V \<noteq> 0" "q \<in> nodes m l (child m p j)"
  proof -
    obtain js where js: "short l js" "node_at m (child m p j) js = Some q" using h(3) by (auto simp: nodes_def)
    then have "i # is = j # js"
      using pt_tree_unique [OF assms(1) at(1), of "j # js" q] at(2) h(1,2) by (simp add: short_Cons node_at_child)
    then show ?thesis by simp
  qed
qed

text \<open>Trees depend only on their own pages.\<close>

lemma subtree_frame:
  assumes "pt_tree m l p" "\<And>q. q \<in> nodes m l p \<Longrightarrow> agree_on q m m'"
  shows "pt_tree m' l p" "nodes m' l p = nodes m l p" "leafless m l p \<Longrightarrow> leafless m' l p"
proof -
  have e: "ent m' q i = ent m q i" if "q \<in> nodes m l p" "i < 512" for q i
    using ent_agree [OF assms(2) [OF that(1)] that(2)] .
  have n: "node_at m' p is = node_at m p is" if "short l is" for "is"
    using e that by (rule node_at_frame)
  show nodes': "nodes m' l p = nodes m l p" using n by (rule nodes_cong)
  show "pt_tree m' l p"
    unfolding pt_tree_def
  proof (intro conjI allI impI ballI)
    show "is = js" if "short l is" "short l js" "node_at m' p is = Some q" "node_at m' p js = Some q" for "is" js q
      using pt_tree_unique [OF assms(1) that(1,2)] that(3,4) n [OF that(1)] n [OF that(2)] by simp
    show "aligned q" if "q \<in> nodes m' l p" for q using pt_tree_aligned [OF assms(1)] that nodes' by simp
    show "ent m' q i AND (PTE_R OR PTE_W OR PTE_X) = 0"
      if h: "short (l - 1) is" "0 < l" "i < 512" "node_at m' p is = Some q" "ent m' q i AND PTE_V \<noteq> 0" for "is" i q
    proof -
      have sh: "short l is" using short_mono [OF h(1)] by simp
      have q: "node_at m p is = Some q" using n [OF sh] h(4) by simp
      obtain k where k: "l = Suc k" using h(2) by (cases l) auto
      show ?thesis
        using pt_tree_interior [of m k p "is" i q] assms(1) h k q e [OF nodesI [OF sh q] h(3)] by simp
    qed
  qed
  show "leafless m' l p" if L: "leafless m l p"
    unfolding leafless_def
  proof (intro allI impI)
    fix "is" q and i :: uint64
    assume h: "short l is" "length is = l" "node_at m' p is = Some q" "i < (512 :: uint64)"
    then have q: "node_at m p is = Some q" using n by simp
    then have "ent m q i AND PTE_V = 0" using L h unfolding leafless_def by blast
    then show "ent m' q i AND PTE_V = 0" using e [OF nodesI [OF h(1) q] h(4)] by simp
  qed
qed

section \<open>freewalk\<close>

text \<open>
  \<open>freed s t l p fl fl'\<close>: from \<open>s\<close> to \<open>t\<close> exactly the tables of the tree were added to the free
  list, and no page outside the tree changed.
\<close>

definition freed :: "'z kmem_scheme \<Rightarrow> 'z kmem_scheme \<Rightarrow> uint64 set \<Rightarrow> uint64 list \<Rightarrow> uint64 list \<Rightarrow> bool" where
  "freed s t Q fl fl' \<longleftrightarrow>
     mem_step s t \<and> kmem_inv t fl' \<and> set fl' = set fl \<union> Q
     \<and> (\<forall>q. aligned q \<longrightarrow> q \<notin> Q \<longrightarrow> agree_on q (pmem s) (pmem t))"

definition tree_ok :: "'z kmem_scheme \<Rightarrow> nat \<Rightarrow> uint64 \<Rightarrow> uint64 list \<Rightarrow> bool" where
  "tree_ok s l p fl \<longleftrightarrow>
     kmem_inv s fl \<and> pt_tree (pmem s) l p \<and> leafless (pmem s) l p
     \<and> (\<forall>q \<in> nodes (pmem s) l p. page_ok s q \<and> q \<notin> set fl)"

text \<open>The body of the loop of \<open>freewalk\<close>, for one entry.\<close>

definition free_entry :: "nat \<Rightarrow> uint64 \<Rightarrow> nat \<Rightarrow> ('z kmem_scheme, unit) kop" where
  "free_entry depth p i =
     (let pte = slot p (of_nat i) in
      kbind (kget (\<lambda>s. read64 (pmem s) pte)) (\<lambda>e.
      if e AND PTE_V \<noteq> 0 \<and> e AND (PTE_R OR PTE_W OR PTE_X) = 0
      then kseq (freewalk depth (PTE2PA e)) (set_pmem (\<lambda>m. write64 m pte 0))
      else if e AND PTE_V \<noteq> 0 then kpanic ''freewalk: leaf''
      else kret ()))"

lemma freewalk_Suc: "freewalk (Suc depth) p = kseq (kfor [0..<512] (free_entry depth p)) (kfree p)"
  by (simp add: free_entry_def [abs_def])

text \<open>
  After the entries below \<open>k\<close> have been handled: their subtrees are free, and the rest of the
  table and the other subtrees are as they were.
\<close>

definition subtrees :: "mem \<Rightarrow> nat \<Rightarrow> uint64 \<Rightarrow> nat \<Rightarrow> uint64 set" where
  "subtrees m l p k = (\<Union>i \<in> {i. i < k \<and> ent m p (of_nat i) AND PTE_V \<noteq> 0}. nodes m l (child m p (of_nat i)))"

definition upto_entry :: "'z kmem_scheme \<Rightarrow> 'z kmem_scheme \<Rightarrow> nat \<Rightarrow> uint64 \<Rightarrow> uint64 list \<Rightarrow> nat \<Rightarrow> bool" where
  "upto_entry s t l p fl k \<longleftrightarrow>
     mem_step s t \<and> (\<exists>fl'. kmem_inv t fl' \<and> set fl' = set fl \<union> subtrees (pmem s) l p k)
     \<and> (\<forall>q. aligned q \<longrightarrow> q \<noteq> p \<longrightarrow> q \<notin> subtrees (pmem s) l p k \<longrightarrow> agree_on q (pmem s) (pmem t))
     \<and> (\<forall>i. k \<le> i \<longrightarrow> i < 512 \<longrightarrow> ent (pmem t) p (of_nat i) = ent (pmem s) p (of_nat i))"

lemma subtrees_Suc:
  "subtrees m l p (Suc k) =
     (if ent m p (of_nat k) AND PTE_V \<noteq> 0 then nodes m l (child m p (of_nat k)) else {}) \<union> subtrees m l p k"
  by (auto simp: subtrees_def less_Suc_eq)

lemma of_nat_512: "i < 512 \<Longrightarrow> (of_nat i :: uint64) < 512"
  by (simp add: word_less_nat_alt)

lemma nodes_subtrees: "nodes m (Suc l) p = insert p (subtrees m l p 512)"
proof -
  have "{i :: uint64. i < 512 \<and> P i} = of_nat ` {i. i < (512 :: nat) \<and> P (of_nat i)}" for P
  proof (rule set_eqI, rule iffI)
    fix x :: uint64
    assume "x \<in> {i. i < 512 \<and> P i}"
    then show "x \<in> of_nat ` {i. i < 512 \<and> P (of_nat i)}"
      by (intro image_eqI [of _ _ "unat x"]) (auto simp: word_less_nat_alt)
  qed (auto simp: of_nat_512)
  then show ?thesis by (simp add: nodes_Suc subtrees_def)
qed

lemma subtree_outside:
  assumes "pt_tree m (Suc l) p" "k < 512" "ent m p (of_nat k) AND PTE_V \<noteq> 0" "q \<in> nodes m l (child m p (of_nat k))"
  shows "q \<noteq> p" "q \<notin> subtrees m l p k"
proof -
  note k = of_nat_512 [OF assms(2)]
  show "q \<noteq> p" using children_disjoint(1) [OF assms(1) k assms(3,4)] .
  have "i = k" if "i < k" "ent m p (of_nat i) AND PTE_V \<noteq> 0" "q \<in> nodes m l (child m p (of_nat i))" for i
  proof -
    have "(of_nat i :: uint64) = of_nat k"
      using children_disjoint(2) [OF assms(1) k assms(3,4) of_nat_512 that(2,3)] that(1) assms(2) by simp
    then have "unat (of_nat i :: uint64) = unat (of_nat k :: uint64)" by simp
    then show ?thesis using that(1) assms(2) by simp
  qed
  then show "q \<notin> subtrees m l p k" by (auto simp: subtrees_def)
qed

text \<open>One entry, given that \<open>freewalk\<close> frees the subtree below it.\<close>

lemma free_entry_ok:
  fixes s t :: "'z kmem_scheme"
  assumes ok: "tree_ok s (Suc l) p fl" and k: "k < 512" and upto: "upto_entry s t l p fl k"
    and sub: "\<And>(u :: 'z kmem_scheme) c fl'. tree_ok u l c fl' \<Longrightarrow> \<exists>v fl''. freewalk d c u = Done () v \<and> freed u v (nodes (pmem u) l c) fl' fl''"
  shows "\<exists>u. free_entry d p k t = Done () u \<and> upto_entry s u l p fl (Suc k)"
proof -
  let ?m = "pmem s"
  let ?e = "ent ?m p (of_nat k)" and ?c = "child ?m p (of_nat k)"
  have tree: "pt_tree ?m (Suc l) p" using ok by (simp add: tree_ok_def)
  have i: "(of_nat k :: uint64) < 512" using k by (rule of_nat_512)
  have et: "ent (pmem t) p (of_nat k) = ?e" using upto k by (auto simp: upto_entry_def)
  then have rd: "read64 (pmem t) (slot p (of_nat k)) = ?e" by (simp add: ent_def)
  show ?thesis
  proof (cases "?e AND PTE_V = 0")
    case True
    then have "free_entry d p k t = Done () t" using rd by (simp add: free_entry_def Let_def)
    moreover have "upto_entry s t l p fl (Suc k)"
      using upto True by (simp add: upto_entry_def subtrees_Suc)
    ultimately show ?thesis by blast
  next
    case False
    have rwx: "?e AND (PTE_R OR PTE_W OR PTE_X) = 0"
      using pt_tree_interior [OF tree _ i, of "[]" p] False by simp
    obtain ft where ft: "kmem_inv t ft" "set ft = set fl \<union> subtrees ?m l p k" "mem_step s t"
      using upto by (auto simp: upto_entry_def)
    have cn: "nodes ?m l ?c \<subseteq> nodes ?m (Suc l) p" using False i by (auto simp: nodes_Suc)
    have agree: "agree_on q ?m (pmem t)" if "q \<in> nodes ?m l ?c" for q
      using upto subtree_outside [OF tree k False that] pt_tree_aligned [OF tree] cn that
      by (auto simp: upto_entry_def)
    have fr: "pt_tree (pmem t) l ?c" "nodes (pmem t) l ?c = nodes ?m l ?c" "leafless ?m l ?c \<Longrightarrow> leafless (pmem t) l ?c"
      using subtree_frame [OF child_tree [OF tree i False], of "pmem t"] agree by blast+
    have "leafless ?m l ?c" using child_leafless [OF _ i False] ok by (simp add: tree_ok_def)
    moreover have "page_ok t q \<and> q \<notin> set ft" if "q \<in> nodes ?m l ?c" for q
      using ok cn that subtree_outside [OF tree k False that] mem_step_fields(8) [OF ft(3)] ft(2)
      by (auto simp: tree_ok_def)
    ultimately have "tree_ok t l ?c ft" using ft(1) fr unfolding tree_ok_def by simp
    from sub [OF this, unfolded fr(2)] obtain v fl'' where v: "freewalk d ?c t = Done () v" "freed t v (nodes ?m l ?c) ft fl''"
      by blast
    let ?u = "v\<lparr>pmem := write64 (pmem v) (slot p (of_nat k)) 0\<rparr>"
    have pa: "aligned p" "page_ok s p" "p \<notin> set fl" using ok nodes_root [of p ?m "Suc l"] by (auto simp: tree_ok_def page_ok_def)
    have run: "free_entry d p k t = Done () ?u"
      using rd False rwx v(1) by (simp add: free_entry_def Let_def child_def)
    have pfresh: "p \<notin> nodes ?m l ?c" "p \<notin> subtrees ?m l p k"
    proof -
      show "p \<notin> nodes ?m l ?c" using subtree_outside(1) [OF tree k False] by blast
      show "p \<notin> subtrees ?m l p k"
        using subtree_outside(1) [OF tree _ _ , of i p for i] k children_disjoint(1) [OF tree of_nat_512]
        by (fastforce simp: subtrees_def)
    qed
    have pv: "ent (pmem v) p (of_nat j) = ent (pmem t) p (of_nat j)" if "j < 512" for j
      using v(2) pa(1) pfresh(1) ent_agree [OF _ of_nat_512 [OF that]] by (simp add: freed_def)
    have ents: "ent (pmem ?u) p (of_nat j) = ent ?m p (of_nat j)" if "Suc k \<le> j" "j < 512" for j
    proof -
      have "(of_nat j :: uint64) \<noteq> of_nat k"
        using that k by (auto simp: word_unat_eq_iff)
      then show ?thesis
        using that upto pv [of j] pa(1) i of_nat_512 [OF that(2)] by (simp add: ent_write64 upto_entry_def)
    qed
    have wr: "agree_on q (pmem v) (pmem ?u)" if "aligned q" "q \<noteq> p" for q
      using that pa(1) i by (auto intro!: agree_on_sym [OF write64_agree])
    have fl'': "kmem_inv v fl''" "set fl'' = set fl \<union> subtrees ?m l p (Suc k)"
      using v(2) ft(2) False by (auto simp: freed_def subtrees_Suc)
    have "kmem_inv ?u fl''"
    proof (rule kmem_inv_frame [OF fl''(1)])
      fix x
      assume x: "x \<in> set fl''"
      then have "x \<noteq> p" "aligned x"
        using fl'' pa(3) pfresh kmem_inv_pages [OF fl''(1)] False by (auto simp: subtrees_Suc page_ok_def)
      then show "agree_on x (pmem v) (write64 (pmem v) (slot p (of_nat k)) 0)" using wr by simp
    qed
    moreover have "agree_on q ?m (pmem ?u)" if "aligned q" "q \<noteq> p" "q \<notin> subtrees ?m l p (Suc k)" for q
    proof -
      have "agree_on q ?m (pmem t)" using upto that False by (simp add: upto_entry_def subtrees_Suc)
      also have "agree_on q (pmem t) (pmem v)" using v(2) that False by (simp add: freed_def subtrees_Suc)
      also have "agree_on q (pmem v) (pmem ?u)" using wr that by blast
      finally show ?thesis .
    qed
    moreover have "mem_step s ?u"
      using ft(3) v(2) mem_step_trans mem_step_upd(1) unfolding freed_def by blast
    ultimately have "upto_entry s ?u l p fl (Suc k)"
      unfolding upto_entry_def using ents fl''(2) by blast
    then show ?thesis using run by blast
  qed
qed

lemma free_entries_ok:
  fixes s :: "'z kmem_scheme"
  assumes ok: "tree_ok s (Suc l) p fl" and "k \<le> 512"
    and sub: "\<And>(u :: 'z kmem_scheme) c fl'. tree_ok u l c fl' \<Longrightarrow> \<exists>v fl''. freewalk d c u = Done () v \<and> freed u v (nodes (pmem u) l c) fl' fl''"
  shows "\<exists>t. kfor [0..<k] (free_entry d p) s = Done () t \<and> upto_entry s t l p fl k"
  using assms(2)
proof (induction k)
  case 0
  then show ?case using ok by (auto simp: upto_entry_def subtrees_def tree_ok_def)
next
  case (Suc k)
  then obtain t where t: "kfor [0..<k] (free_entry d p) s = Done () t" "upto_entry s t l p fl k" by auto
  have "k < 512" using Suc.prems by simp
  from free_entry_ok [OF ok this t(2) sub]
  obtain u where "free_entry d p k t = Done () u" "upto_entry s u l p fl (Suc k)" by blast
  then show ?case using t(1) by (simp add: kfor_append)
qed

lemma kfor_skip: "(\<And>x. x \<in> set xs \<Longrightarrow> f x s = Done () s) \<Longrightarrow> kfor xs f s = Done () s"
  by (induction xs) auto

lemma freewalk_ok:
  fixes s :: "'z kmem_scheme"
  assumes "tree_ok s l p fl"
  shows "\<exists>t fl'. freewalk (Suc l) p s = Done () t \<and> freed s t (nodes (pmem s) l p) fl fl'"
  using assms
proof (induction l arbitrary: s p fl)
  case (0 s p fl)
  have "ent (pmem s) p (of_nat k) AND PTE_V = 0" if "k < 512" for k
    using 0 of_nat_512 [OF that] by (auto simp: tree_ok_def leafless_def dest: spec [of _ "[]"])
  then have "kfor [0..<512] (free_entry 0 p) s = Done () s"
    by (intro kfor_skip) (simp add: free_entry_def Let_def ent_def)
  moreover have n: "nodes (pmem s) 0 p = {p}" by (auto simp: nodes_def short_def)
  moreover obtain t where "kfree p s = Done () t" "kmem_inv t (p # fl)" "mem_step s t"
      "\<forall>q. aligned q \<longrightarrow> q \<noteq> p \<longrightarrow> agree_on q (pmem s) (pmem t)"
    using kfree_explicit [of s fl p] 0 n by (auto simp: tree_ok_def)
  ultimately show ?case
    by (intro exI [of _ t] exI [of _ "p # fl"]) (simp add: freewalk_Suc freed_def del: freewalk.simps)
next
  case (Suc l s p fl)
  have tree: "pt_tree (pmem s) (Suc l) p" using Suc.prems by (simp add: tree_ok_def)
  obtain t where t: "kfor [0..<512] (free_entry (Suc l) p) s = Done () t" "upto_entry s t l p fl 512"
    using free_entries_ok [OF Suc.prems _ Suc.IH, of 512] by auto
  obtain ft where ft: "kmem_inv t ft" "set ft = set fl \<union> subtrees (pmem s) l p 512" "mem_step s t"
      "\<forall>q. aligned q \<longrightarrow> q \<noteq> p \<longrightarrow> q \<notin> subtrees (pmem s) l p 512 \<longrightarrow> agree_on q (pmem s) (pmem t)"
    using t(2) by (auto simp: upto_entry_def)
  have "p \<notin> subtrees (pmem s) l p 512"
    using children_disjoint(1) [OF tree of_nat_512] by (fastforce simp: subtrees_def)
  moreover have "page_ok s p" "p \<notin> set fl" using Suc.prems nodes_root by (auto simp: tree_ok_def)
  ultimately have "page_ok t p" "p \<notin> set ft" using ft(2) mem_step_fields(8) [OF ft(3)] by auto
  from kfree_explicit [OF ft(1) this]
  obtain u where u: "kfree p t = Done () u" "kmem_inv u (p # ft)" "mem_step t u"
      "\<forall>q. aligned q \<longrightarrow> q \<noteq> p \<longrightarrow> agree_on q (pmem t) (pmem u)" by blast
  have "freed s u (nodes (pmem s) (Suc l) p) fl (p # ft)"
    unfolding freed_def nodes_subtrees
  proof (intro conjI allI impI)
    show "mem_step s u" using mem_step_trans [OF ft(3) u(3)] .
    show "set (p # ft) = set fl \<union> insert p (subtrees (pmem s) l p 512)" using ft(2) by auto
    fix q
    assume q: "aligned q" "q \<notin> insert p (subtrees (pmem s) l p 512)"
    then have "agree_on q (pmem s) (pmem t)" using ft(4) by blast
    also have "agree_on q (pmem t) (pmem u)" using u(4) q by blast
    finally show "agree_on q (pmem s) (pmem u)" .
  qed (rule u(2))
  moreover have "freewalk (Suc (Suc l)) p s = Done () u"
    using t(1) u(1) by (simp add: freewalk_Suc del: freewalk.simps)
  ultimately show ?case by blast
qed

section \<open>uvmfree\<close>

lemma PX_of_indices:
  assumes "i < 512" "j < 512" "k < 512"
  shows "\<exists>va. PX 2 va = i \<and> PX 1 va = j \<and> PX 0 va = k"
proof -
  let ?va = "push_bit 30 i OR push_bit 21 j OR push_bit 12 k"
  have nb: "\<not> bit x n" if "x < 512" "9 \<le> n" for x :: uint64 and n
    using that by (intro small_bits [of x 9]) (simp_all add: word_less_nat_alt)
  have "bit (PX 2 ?va) n = bit i n" "bit (PX 1 ?va) n = bit j n" "bit (PX 0 ?va) n = bit k n" for n
    using assms nb by (cases "n < 9"; auto simp: PX_bit bit_simps)+
  then show ?thesis by (intro exI [of _ ?va]) (auto intro: bit_word_eqI)
qed

lemma leafless_lookup: "(\<And>va. lookup m pt va AND PTE_V = 0) \<Longrightarrow> leafless m 2 pt"
  unfolding leafless_def
proof (intro allI impI)
  fix "is" q and i :: uint64
  assume inv: "\<And>va. lookup m pt va AND PTE_V = 0"
    and h: "short 2 is" "length is = 2" "node_at m pt is = Some q" "i < 512"
  then obtain a b where ab: "is = [a, b]" "a < 512" "b < 512"
    by (auto simp: short_def length_Suc_conv numeral_2_eq_2)
  obtain va where "PX 2 va = a" "PX 1 va = b" "PX 0 va = i" using PX_of_indices [OF ab(2,3) h(4)] by blast
  then have "lookup m pt va = ent m q i" using h(3) ab by (simp add: lookup_def leaf_node_def)
  then show "ent m q i AND PTE_V = 0" using inv [of va] by simp
qed

lemma uvmfree_ok:
  assumes "pt_inv s pt fl" "unat sz \<le> 2 ^ 38"
  defines "n \<equiv> unat (PGROUNDUP sz) div 4096"
  assumes "\<forall>va. lookup (pmem s) pt va AND PTE_V \<noteq> 0 \<longrightarrow> (\<exists>i < n. same_vpage va (va_at 0 i))"
    and "can_free s pt fl (leaf_pages (pmem s) pt 0 n)"
  shows "\<exists>t fl'. uvmfree pt sz s = Done () t \<and> mem_step s t \<and> kmem_inv t fl'
    \<and> set fl' = set fl \<union> set (leaf_pages (pmem s) pt 0 n) \<union> tables s pt"
proof -
  have up: "unat (PGROUNDUP sz) = (unat sz + 4095) div 4096 * 4096" using assms(2) by (simp add: unat_PGROUNDUP)
  have top: "(unat sz + 4095) div 4096 \<le> (2 ^ 38 + 4095) div 4096" using assms(2) by (intro div_le_mono) simp
  have n: "n = (unat sz + 4095) div 4096" by (simp add: n_def up)
  have np: "PGROUNDUP sz div PGSIZE = of_nat n"
    by (simp add: word_unat_eq_iff unat_div PGSIZE_def n_def order_le_less_trans [OF div_le_dividend] unat_bound64)
  have al0: "aligned 0" by (simp add: aligned_def)
  have "unat (0 :: uint64) + n * 4096 \<le> 2 ^ 38" using top by (simp add: n)
  from uvmunmap_ok [OF assms(1) al0 this, of True] assms(5)
  obtain t where t: "uvmunmap pt 0 (of_nat n) True s = Done () t" "mem_step s t"
      "pt_inv t pt (rev (leaf_pages (pmem s) pt 0 n) @ fl)" "tables t pt = tables s pt" "unmapped (pmem s) (pmem t) pt 0 n"
    by auto
  have run: "kwhen (0 < sz) (uvmunmap pt 0 (PGROUNDUP sz div PGSIZE) True) s = Done () t" if "0 < sz"
    using that t(1) by (simp add: np)
  have free: "lookup (pmem t) pt va AND PTE_V = 0" for va
  proof (cases "\<exists>i < n. same_vpage va (va_at 0 i)")
    case True
    then obtain i where i: "i < n" "same_vpage va (va_at 0 i)" by blast
    then show ?thesis using t(5) same_vpage_lookup [OF i(2)] by (simp add: unmapped_def)
  next
    case False
    then have "lookup (pmem t) pt va = lookup (pmem s) pt va" using t(5) by (auto simp: unmapped_def)
    moreover have "lookup (pmem s) pt va AND PTE_V = 0" using assms(4) False by blast
    ultimately show ?thesis by simp
  qed
  have fin: "\<exists>w fl'. freewalk 3 pt u = Done () w \<and> mem_step u w \<and> kmem_inv w fl' \<and> set fl' = set fl1 \<union> tables u pt"
    if "pt_inv u pt fl1" "\<And>va. lookup (pmem u) pt va AND PTE_V = 0" for u :: "'a kmem_scheme" and fl1
  proof -
    have "tree_ok u 2 pt fl1"
      using that(1) leafless_lookup [of "pmem u" pt, OF that(2)] by (auto simp: tree_ok_def pt_inv_def)
    from freewalk_ok [OF this] show ?thesis
      by (auto simp: freed_def numeral_3_eq_3 numeral_2_eq_2 simp del: freewalk.simps)
  qed
  show ?thesis
  proof (cases "0 < sz")
    case True
    from fin [OF t(3) free] obtain w fl' where w: "freewalk 3 pt t = Done () w" "kmem_inv w fl'" "mem_step t w"
        "set fl' = set (rev (leaf_pages (pmem s) pt 0 n) @ fl) \<union> tables t pt" by blast
    have "uvmfree pt sz s = Done () w" using run [OF True] w(1) by (simp add: uvmfree_def del: kwhen_eval)
    moreover have "set fl' = set fl \<union> set (leaf_pages (pmem s) pt 0 n) \<union> tables s pt" using w(4) t(4) by auto
    ultimately show ?thesis using w(2) mem_step_trans [OF t(2) w(3)] by blast
  next
    case False
    then have "sz = 0" using word_gt_0 by blast
    then have n0: "n = 0" by (simp add: n)
    then have "\<And>va. lookup (pmem s) pt va AND PTE_V = 0" using assms(4) by auto
    from fin [OF assms(1) this] obtain w fl' where w: "freewalk 3 pt s = Done () w" "mem_step s w" "kmem_inv w fl'"
        "set fl' = set fl \<union> tables s pt" by blast
    have "uvmfree pt sz s = Done () w" using False w(1) by (simp add: uvmfree_def)
    moreover have "leaf_pages (pmem s) pt 0 n = []" by (simp add: n0 leaf_pages_def)
    ultimately show ?thesis using w by auto
  qed
qed

section \<open>Properties\<close>

text \<open>
  C5. \<^verbatim>\<open>uvmfree\<close> of an address space of size \<open>sz\<close> whose only mappings lie below \<open>sz\<close> never panics
  and gives back everything: afterwards the free list holds, each exactly once, the pages that
  were free, the pages behind the leaf entries, and every table of the tree.
\<close>

theorem uvmfree_returns_all:
  assumes "pt_inv s pt fl" "unat sz \<le> 2 ^ 38"
  defines "n \<equiv> unat (PGROUNDUP sz) div 4096"
  assumes "\<forall>va. lookup (pmem s) pt va AND PTE_V \<noteq> 0 \<longrightarrow> (\<exists>i < n. same_vpage va (va_at 0 i))"
    and "can_free s pt fl (leaf_pages (pmem s) pt 0 n)"
  shows "\<exists>t fl'. uvmfree pt sz s = Done () t \<and> kmem_inv t fl' \<and> distinct fl'
    \<and> set fl' = set fl \<union> set (leaf_pages (pmem s) pt 0 n) \<union> tables s pt"
proof -
  from uvmfree_ok [OF assms(1,2) assms(4,5) [unfolded n_def]]
  obtain t fl' where "uvmfree pt sz s = Done () t" "kmem_inv t fl'"
      "set fl' = set fl \<union> set (leaf_pages (pmem s) pt 0 n) \<union> tables s pt" unfolding n_def by blast
  then show ?thesis using kmem_inv_pages by blast
qed

theorem uvmfree_returns_all_witness:
  "\<exists>(s :: kmem) t fl'. pt_inv s 0x87FFF000 (tl boot_pages) \<and> uvmfree 0x87FFF000 0x2000 s = Done () t
     \<and> kmem_inv t fl' \<and> set fl' = set boot_pages"
proof -
  obtain s :: kmem where s: "pt_inv s 0x87FFF000 (tl boot_pages)" "tables s 0x87FFF000 = {0x87FFF000}"
      "\<forall>va. lookup (pmem s) 0x87FFF000 va = 0"
    using example_table by blast
  have "leaf_pages (pmem s) 0x87FFF000 0 n = []" for n using s(3) by (simp add: leaf_pages_def)
  then show ?thesis
    using s uvmfree_returns_all [OF s(1), where sz = "0x2000"] by (auto simp: can_free_def boot_pages_def)
qed

end
