(* ===== verification/Proc.thy ===== *)
theory Proc
  imports Uvm Freewalk
begin

text \<open>
  \<^verbatim>\<open>kernel/proc.c\<close>: the process table, process states, sleeping and waking, and the scheduler.
  The parts that use files and user memory (\<^verbatim>\<open>kfork\<close>, \<^verbatim>\<open>kexit\<close>, \<^verbatim>\<open>kwait\<close>, \<^verbatim>\<open>forkret\<close>) are in the
  theory \<open>Procfs\<close>.

  A process is its index in the table. A null \<^verbatim>\<open>struct proc\<close> pointer is \<open>None\<close>; using one traps
  in the kernel, which panics with \<^verbatim>\<open>kerneltrap\<close>. A call of \<open>sched\<close> ends in the outcome \<open>Switch\<close>:
  the scheduler runs next, and the code after the call is a definition of its own, named with
  \<open>_resume\<close>, which runs when the process is chosen again.
\<close>

section \<open>State\<close>

datatype procstate = UNUSED | USED | SLEEPING | RUNNABLE | RUNNING | ZOMBIE

record kcontext =
  ctx_ra :: uint64
  ctx_sp :: uint64
  ctx_s :: "nat \<Rightarrow> uint64"

record proc =
  p_state :: procstate
  p_chan :: "chan option"
  p_killed :: int
  p_xstate :: int
  p_pid :: int
  p_parent :: "nat option"
  p_kstack :: uint64
  p_sz :: uint64
  p_pagetable :: uint64
  p_trapframe :: uint64
  p_context :: kcontext
  p_ofile :: "nat \<Rightarrow> nat option"
  p_cwd :: "nat option"
  p_name :: cstr
  p_mask :: uint64
  p_allowed_path :: cstr

text \<open>\<open>ld_forkret\<close> is the address of \<^verbatim>\<open>forkret\<close>, which the linker chooses.\<close>

record proctab = vmem +
  ptab :: "nat \<Rightarrow> proc"
  initproc :: "nat option"
  nextpid :: int
  ld_forkret :: uint64

definition upd_proc :: "nat \<Rightarrow> (proc \<Rightarrow> proc) \<Rightarrow> 'z proctab_scheme \<Rightarrow> 'z proctab_scheme" where
  "upd_proc p f s = s\<lparr>ptab := (ptab s)(p := f (ptab s p))\<rparr>"

definition set_proc :: "nat \<Rightarrow> (proc \<Rightarrow> proc) \<Rightarrow> ('z proctab_scheme, unit) kop" where
  "set_proc p f = kmod (upd_proc p f)"

section \<open>Operations\<close>

definition procinit :: "('z proctab_scheme, unit) kop" where
  "procinit =
     kseq (initlock PidLock ''nextpid'')
    (kseq (initlock WaitLock ''wait_lock'')
          (kfor [0..<NPROC] (\<lambda>p.
             kseq (initlock (ProcLock p) ''proc'')
                  (set_proc p (\<lambda>q. q\<lparr>p_state := UNUSED, p_kstack := KSTACK p\<rparr>)))))"

definition myproc :: "('z machine_scheme, nat option) kop" where
  "myproc = kseq push_off (kbind (kget (\<lambda>s. cproc (mycpu s))) (\<lambda>p. kseq pop_off (kret p)))"

definition with_myproc :: "(nat \<Rightarrow> ('z machine_scheme, 'a) kop) \<Rightarrow> ('z machine_scheme, 'a) kop" where
  "with_myproc f = kbind myproc (\<lambda>p. case p of None \<Rightarrow> kpanic ''kerneltrap'' | Some p \<Rightarrow> f p)"

definition allocpid :: "('z proctab_scheme, int) kop" where
  "allocpid =
     kseq (acquire PidLock)
    (kbind (kget nextpid) (\<lambda>pid.
     kseq (kmod (\<lambda>s. s\<lparr>nextpid := nextpid s + 1\<rparr>))
    (kseq (release PidLock) (kret pid))))"

definition proc_freepagetable :: "uint64 \<Rightarrow> uint64 \<Rightarrow> ('z kmem_scheme, unit) kop" where
  "proc_freepagetable pt sz =
     kseq (uvmunmap pt TRAMPOLINE 1 False)
    (kseq (uvmunmap pt TRAPFRAME 1 False)
          (uvmfree pt sz))"

definition proc_pagetable :: "nat \<Rightarrow> ('z proctab_scheme, uint64) kop" where
  "proc_pagetable p =
     kbind uvmcreate (\<lambda>pt.
     if pt = 0 then kret 0
     else kbind (kget ld_trampoline) (\<lambda>trampoline.
          kbind (mappages pt TRAMPOLINE PGSIZE trampoline (PTE_R OR PTE_X)) (\<lambda>r.
          if r < 0 then kseq (uvmfree pt 0) (kret 0)
          else kbind (kget (\<lambda>s. p_trapframe (ptab s p))) (\<lambda>tf.
               kbind (mappages pt TRAPFRAME PGSIZE tf (PTE_R OR PTE_W)) (\<lambda>r.
               if r < 0
               then kseq (uvmunmap pt TRAMPOLINE 1 False) (kseq (uvmfree pt 0) (kret 0))
               else kret pt)))))"

definition freeproc :: "nat \<Rightarrow> ('z proctab_scheme, unit) kop" where
  "freeproc p =
     kbind (kget (\<lambda>s. p_trapframe (ptab s p))) (\<lambda>tf.
     kseq (kwhen (tf \<noteq> 0) (kfree tf))
    (kseq (set_proc p (\<lambda>q. q\<lparr>p_trapframe := 0\<rparr>))
    (kbind (kget (\<lambda>s. ptab s p)) (\<lambda>q.
     kseq (kwhen (p_pagetable q \<noteq> 0) (proc_freepagetable (p_pagetable q) (p_sz q)))
          (set_proc p (\<lambda>q. q\<lparr>p_pagetable := 0, p_sz := 0, p_pid := 0, p_parent := None,
             p_name := (p_name q)(0 := 0), p_chan := None, p_killed := 0, p_xstate := 0,
             p_state := UNUSED, p_mask := 0, p_allowed_path := (p_allowed_path q)(0 := 0)\<rparr>))))))"

text \<open>\<open>allocproc\<close>: the search, which returns with the lock of the slot held, and the rest.\<close>

fun allocproc_find :: "nat list \<Rightarrow> ('z proctab_scheme, nat option) kop" where
  "allocproc_find [] = kret None"
| "allocproc_find (p # ps) =
     kseq (acquire (ProcLock p))
    (kbind (kget (\<lambda>s. p_state (ptab s p))) (\<lambda>st.
     if st = UNUSED then kret (Some p)
     else kseq (release (ProcLock p)) (allocproc_find ps)))"

definition allocproc :: "('z proctab_scheme, nat option) kop" where
  "allocproc =
     kbind (allocproc_find [0..<NPROC]) (\<lambda>found.
     case found of None \<Rightarrow> kret None
     | Some p \<Rightarrow>
         kbind allocpid (\<lambda>pid.
         kseq (set_proc p (\<lambda>q. q\<lparr>p_pid := pid\<rparr>))
        (kseq (set_proc p (\<lambda>q. q\<lparr>p_state := USED\<rparr>))
        (kbind kalloc (\<lambda>tf.
         kseq (set_proc p (\<lambda>q. q\<lparr>p_trapframe := tf\<rparr>))
        (if tf = 0 then kseq (freeproc p) (kseq (release (ProcLock p)) (kret None))
         else kbind (proc_pagetable p) (\<lambda>pt.
              kseq (set_proc p (\<lambda>q. q\<lparr>p_pagetable := pt\<rparr>))
             (if pt = 0 then kseq (freeproc p) (kseq (release (ProcLock p)) (kret None))
              else kbind (kget ld_forkret) (\<lambda>forkret.
                   kseq (set_proc p (\<lambda>q. q\<lparr>p_context :=
                          \<lparr>ctx_ra = forkret, ctx_sp = p_kstack q + PGSIZE, ctx_s = (\<lambda>_. 0)\<rparr>\<rparr>))
                        (kret (Some p)))))))))))"

text \<open>The argument of \<open>growproc\<close> is a signed \<^verbatim>\<open>int\<close>, added to the 64-bit size.\<close>

definition growproc :: "int \<Rightarrow> ('z proctab_scheme, int) kop" where
  "growproc n =
     with_myproc (\<lambda>p.
     kbind (kget (\<lambda>s. ptab s p)) (\<lambda>q.
     let sz = p_sz q; pt = p_pagetable q in
     if 0 < n then
       kbind (uvmalloc pt sz (sz + word_of_int n) PTE_W) (\<lambda>sz.
       if sz = 0 then kret (-1)
       else kseq (set_proc p (\<lambda>q. q\<lparr>p_sz := sz\<rparr>)) (kret 0))
     else if n < 0 then
       kbind (uvmdealloc pt sz (sz + word_of_int n)) (\<lambda>sz.
       kseq (set_proc p (\<lambda>q. q\<lparr>p_sz := sz\<rparr>)) (kret 0))
     else kseq (set_proc p (\<lambda>q. q\<lparr>p_sz := sz\<rparr>)) (kret 0)))"

text \<open>\<open>wakeup\<close> skips the caller and takes every other lock in turn.\<close>

definition wakeup :: "chan \<Rightarrow> ('z proctab_scheme, unit) kop" where
  "wakeup chan =
     kfor [0..<NPROC] (\<lambda>p.
       kbind myproc (\<lambda>me.
       kwhen (me \<noteq> Some p)
         (kseq (acquire (ProcLock p))
         (kseq (kmod (\<lambda>s. if p_state (ptab s p) = SLEEPING \<and> p_chan (ptab s p) = Some chan
                           then upd_proc p (\<lambda>q. q\<lparr>p_state := RUNNABLE\<rparr>) s else s))
               (release (ProcLock p))))))"

text \<open>A pointer to a process, used as a channel: \<open>wakeup(p->parent)\<close> with no parent wakes nobody.\<close>

definition wakeup_proc :: "nat option \<Rightarrow> ('z proctab_scheme, unit) kop" where
  "wakeup_proc p = (case p of None \<Rightarrow> kret () | Some p \<Rightarrow> wakeup (ProcChan p))"

definition reparent :: "nat \<Rightarrow> ('z proctab_scheme, unit) kop" where
  "reparent p =
     kfor [0..<NPROC] (\<lambda>pp s.
       if p_parent (ptab s pp) = Some p
       then kseq (set_proc pp (\<lambda>q. q\<lparr>p_parent := initproc s\<rparr>)) (wakeup_proc (initproc s)) s
       else Done () s)"

definition sched :: "('z proctab_scheme, unit) kop" where
  "sched =
     with_myproc (\<lambda>p s.
       if \<not> holding (ProcLock p) s then Panic ''sched p->lock''
       else if noff (mycpu s) \<noteq> 1 then Panic ''sched locks''
       else if p_state (ptab s p) = RUNNING then Panic ''sched RUNNING''
       else if intr_get s then Panic ''sched interruptible''
       else Switch s)"

definition sched_resume :: "bool \<Rightarrow> ('z machine_scheme, unit) kop" where
  "sched_resume ena = kmod (upd_mycpu (\<lambda>c. c\<lparr>intena := ena\<rparr>))"

definition yield :: "('z proctab_scheme, unit) kop" where
  "yield =
     with_myproc (\<lambda>p.
     kseq (acquire (ProcLock p))
    (kseq (set_proc p (\<lambda>q. q\<lparr>p_state := RUNNABLE\<rparr>)) sched))"

definition yield_resume :: "bool \<Rightarrow> ('z machine_scheme, unit) kop" where
  "yield_resume ena = with_myproc (\<lambda>p. kseq (sched_resume ena) (release (ProcLock p)))"

definition sleep :: "chan \<Rightarrow> lockid \<Rightarrow> ('z proctab_scheme, unit) kop" where
  "sleep chan lk =
     with_myproc (\<lambda>p.
     kseq (acquire (ProcLock p))
    (kseq (release lk)
    (kseq (set_proc p (\<lambda>q. q\<lparr>p_chan := Some chan\<rparr>))
    (kseq (set_proc p (\<lambda>q. q\<lparr>p_state := SLEEPING\<rparr>)) sched))))"

definition sleep_resume :: "lockid \<Rightarrow> bool \<Rightarrow> ('z proctab_scheme, unit) kop" where
  "sleep_resume lk ena =
     with_myproc (\<lambda>p.
     kseq (sched_resume ena)
    (kseq (set_proc p (\<lambda>q. q\<lparr>p_chan := None\<rparr>))
    (kseq (release (ProcLock p)) (acquire lk))))"

fun kkill_loop :: "nat list \<Rightarrow> int \<Rightarrow> ('z proctab_scheme, int) kop" where
  "kkill_loop [] pid = kret (-1)"
| "kkill_loop (p # ps) pid =
     kseq (acquire (ProcLock p))
    (kbind (kget (\<lambda>s. p_pid (ptab s p))) (\<lambda>q.
     if q = pid then
       kseq (set_proc p (\<lambda>q. q\<lparr>p_killed := 1\<rparr>))
      (kseq (set_proc p (\<lambda>q. if p_state q = SLEEPING then q\<lparr>p_state := RUNNABLE\<rparr> else q))
      (kseq (release (ProcLock p)) (kret 0)))
     else kseq (release (ProcLock p)) (kkill_loop ps pid)))"

definition kkill :: "int \<Rightarrow> ('z proctab_scheme, int) kop" where
  "kkill pid = kkill_loop [0..<NPROC] pid"

definition setkilled :: "nat \<Rightarrow> ('z proctab_scheme, unit) kop" where
  "setkilled p =
     kseq (acquire (ProcLock p)) (kseq (set_proc p (\<lambda>q. q\<lparr>p_killed := 1\<rparr>)) (release (ProcLock p)))"

definition killed :: "nat \<Rightarrow> ('z proctab_scheme, int) kop" where
  "killed p =
     kseq (acquire (ProcLock p))
    (kbind (kget (\<lambda>s. p_killed (ptab s p))) (\<lambda>k.
     kseq (release (ProcLock p)) (kret k)))"

text \<open>
  One pass of \<open>scheduler\<close> from a table position on: it stops, with the lock held, at the first
  runnable process, which then runs; the loop continues with \<open>scheduler_resume\<close> when that
  process comes back. \<open>None\<close> is the end of a pass.
\<close>

fun scheduler_scan :: "nat list \<Rightarrow> ('z proctab_scheme, nat option) kop" where
  "scheduler_scan [] = kret None"
| "scheduler_scan (p # ps) =
     kseq (acquire (ProcLock p))
    (kbind (kget (\<lambda>s. p_state (ptab s p))) (\<lambda>st.
     if st = RUNNABLE then
       kseq (set_proc p (\<lambda>q. q\<lparr>p_state := RUNNING\<rparr>))
      (kseq (kmod (upd_mycpu (\<lambda>c. c\<lparr>cproc := Some p\<rparr>))) (kret (Some p)))
     else kseq (release (ProcLock p)) (scheduler_scan ps)))"

definition scheduler_enter :: "('z proctab_scheme, nat option) kop" where
  "scheduler_enter =
     kseq (kmod (upd_mycpu (\<lambda>c. c\<lparr>cproc := None\<rparr>)))
    (kseq (kmod intr_on) (kseq (kmod intr_off) (scheduler_scan [0..<NPROC])))"

definition scheduler_resume :: "nat \<Rightarrow> ('z proctab_scheme, nat option) kop" where
  "scheduler_resume p =
     kseq (kmod (upd_mycpu (\<lambda>c. c\<lparr>cproc := None\<rparr>)))
    (kseq (release (ProcLock p)) (scheduler_scan [Suc p..<NPROC]))"

section \<open>Locks and the table\<close>

lemma proctab_lock_simps [simp]:
  "ptab (acquired l s) = ptab s" "ptab (relock s) = ptab s"
  "initproc (acquired l s) = initproc s" "initproc (relock s) = initproc s"
  "nextpid (acquired l s) = nextpid s" "nextpid (relock s) = nextpid s"
  "ld_forkret (acquired l s) = ld_forkret s" "ld_forkret (relock s) = ld_forkret s"
  by (simp_all add: acquired_def pushed_def relock_def upd_lock_def)

lemma proctab_lock_upd [simp]:
  "(acquired l s)\<lparr>ptab := x\<rparr> = acquired l (s\<lparr>ptab := x\<rparr>)"
  "(acquired l s)\<lparr>nextpid := y\<rparr> = acquired l (s\<lparr>nextpid := y\<rparr>)"
  "(acquired l s)\<lparr>initproc := z\<rparr> = acquired l (s\<lparr>initproc := z\<rparr>)"
  "(relock s)\<lparr>ptab := x\<rparr> = relock (s\<lparr>ptab := x\<rparr>)"
  "(relock s)\<lparr>nextpid := y\<rparr> = relock (s\<lparr>nextpid := y\<rparr>)"
  "(relock s)\<lparr>initproc := z\<rparr> = relock (s\<lparr>initproc := z\<rparr>)"
  by (simp_all add: acquired_def pushed_def relock_def upd_lock_def)

lemma proctab_ready_upd [simp]:
  "lock_idle l (s\<lparr>ptab := x\<rparr>) = lock_idle l s" "lock_idle l (s\<lparr>nextpid := y\<rparr>) = lock_idle l s"
  "lock_idle l (s\<lparr>initproc := z\<rparr>) = lock_idle l s"
  "cpu_ok (s\<lparr>ptab := x\<rparr>) = cpu_ok s" "cpu_ok (s\<lparr>nextpid := y\<rparr>) = cpu_ok s" "cpu_ok (s\<lparr>initproc := z\<rparr>) = cpu_ok s"
  "ready l (s\<lparr>ptab := x\<rparr>) = ready l s" "ready l (s\<lparr>nextpid := y\<rparr>) = ready l s" "ready l (s\<lparr>initproc := z\<rparr>) = ready l s"
  by (simp_all add: ready_def lock_idle_def cpu_ok_def cpu_defs)

lemma upd_proc_lock [simp]:
  "upd_proc p f (acquired l s) = acquired l (upd_proc p f s)" "upd_proc p f (relock s) = relock (upd_proc p f s)"
  "ready l (upd_proc p f s) = ready l s" "lock_idle l (upd_proc p f s) = lock_idle l s" "cpu_ok (upd_proc p f s) = cpu_ok s"
  "hart (upd_proc p f s) = hart s" "cpus (upd_proc p f s) = cpus s"
  by (simp_all add: upd_proc_def)

lemma upd_proc_fields [simp]:
  "pmem (upd_proc p f s) = pmem s" "freelist (upd_proc p f s) = freelist s" "locks (upd_proc p f s) = locks s"
  "page_ok (upd_proc p f s) = page_ok s" "layout_ok (upd_proc p f s) = layout_ok s"
  "nextpid (upd_proc p f s) = nextpid s" "initproc (upd_proc p f s) = initproc s"
  "ld_trampoline (upd_proc p f s) = ld_trampoline s" "ld_forkret (upd_proc p f s) = ld_forkret s"
  "ptab (upd_proc p f s) = (ptab s)(p := f (ptab s p))"
  by (simp_all add: upd_proc_def page_ok_def layout_ok_def fun_eq_iff)

lemma set_proc_eval [simp]: "set_proc p f s = Done () (upd_proc p f s)"
  by (simp add: set_proc_def)

definition me :: "'z machine_scheme \<Rightarrow> nat option" where
  "me s = cproc (cpus s (hart s))"

lemma me_lock [simp]: "me (relock s) = me s" "me (acquired l s) = me s"
  by (simp_all add: me_def)

lemma me_proc [simp]: "me (s\<lparr>ptab := x\<rparr>) = me s" "me (upd_proc p f s) = me s"
  by (simp_all add: me_def)

lemma myproc_eval [simp]: "cpu_ok s \<Longrightarrow> myproc s = Done (me s) (relock s)"
  by (simp add: myproc_def push_off_pushed pop_off_pushed cpu_defs me_def)

lemma with_myproc_eval: "cpu_ok s \<Longrightarrow> me s = Some p \<Longrightarrow> with_myproc f s = f p (relock s)"
  by (simp add: with_myproc_def)

section \<open>Waking\<close>

definition woken :: "chan \<Rightarrow> nat option \<Rightarrow> (nat \<Rightarrow> proc) \<Rightarrow> nat \<Rightarrow> proc" where
  "woken chan m tab p =
     (if m \<noteq> Some p \<and> p_state (tab p) = SLEEPING \<and> p_chan (tab p) = Some chan
      then (tab p)\<lparr>p_state := RUNNABLE\<rparr> else tab p)"

text \<open>Every other process's lock can be taken.\<close>

definition procs_ready :: "'z machine_scheme \<Rightarrow> bool" where
  "procs_ready s \<longleftrightarrow> cpu_ok s \<and> (\<forall>p < NPROC. me s \<noteq> Some p \<longrightarrow> lock_idle (ProcLock p) s)"

lemma procs_ready_lock: "procs_ready s \<Longrightarrow> p < NPROC \<Longrightarrow> me s \<noteq> Some p \<Longrightarrow> ready (ProcLock p) s"
  by (simp add: procs_ready_def ready_def)

definition wake_one :: "chan \<Rightarrow> nat \<Rightarrow> ('z proctab_scheme, unit) kop" where
  "wake_one chan p =
     kbind myproc (\<lambda>me.
       kwhen (me \<noteq> Some p)
         (kseq (acquire (ProcLock p))
         (kseq (kmod (\<lambda>s. if p_state (ptab s p) = SLEEPING \<and> p_chan (ptab s p) = Some chan
                           then upd_proc p (\<lambda>q. q\<lparr>p_state := RUNNABLE\<rparr>) s else s))
               (release (ProcLock p)))))"

lemma wake_one_eval:
  assumes "procs_ready s" "p < NPROC"
  shows "wake_one chan p s = Done () (relock (s\<lparr>ptab := (ptab s)(p := woken chan (me s) (ptab s) p)\<rparr>))"
proof (cases "me s = Some p")
  case True
  then show ?thesis using assms(1) by (simp add: wake_one_def procs_ready_def woken_def)
next
  case False
  then have "ready (ProcLock p) s" using procs_ready_lock [OF assms] by simp
  then show ?thesis using assms(1) False by (auto simp: wake_one_def procs_ready_def woken_def upd_proc_def)
qed

lemma wakes_eval:
  assumes "procs_ready s" "k \<le> NPROC"
  shows "kfor [0..<k] (wake_one chan) (relock s) =
     Done () (relock (s\<lparr>ptab := (\<lambda>p. if p < k then woken chan (me s) (ptab s) p else ptab s p)\<rparr>))"
  using assms(2)
proof (induction k)
  case (Suc k)
  let ?t = "s\<lparr>ptab := (\<lambda>p. if p < k then woken chan (me s) (ptab s) p else ptab s p)\<rparr>"
  have "procs_ready (relock ?t)" using assms(1) by (simp add: procs_ready_def)
  then have "wake_one chan k (relock ?t) =
      Done () (relock (?t\<lparr>ptab := (ptab ?t)(k := woken chan (me s) (ptab ?t) k)\<rparr>))"
    using Suc.prems by (subst wake_one_eval) simp_all
  moreover have "(ptab ?t)(k := woken chan (me s) (ptab ?t) k) =
      (\<lambda>p. if p < Suc k then woken chan (me s) (ptab s) p else ptab s p)"
    by (auto simp: fun_eq_iff woken_def less_Suc_eq)
  ultimately show ?case using Suc by (simp add: kfor_append)
qed simp

lemma wakeup_eval:
  assumes "procs_ready s"
  shows "wakeup chan s =
     Done () (relock (s\<lparr>ptab := (\<lambda>p. if p < NPROC then woken chan (me s) (ptab s) p else ptab s p)\<rparr>))"
proof -
  have "wakeup chan s = kfor [0..<NPROC] (wake_one chan) s" by (simp add: wakeup_def wake_one_def [abs_def])
  also have "\<dots> = kfor [0..<NPROC] (wake_one chan) (relock s)"
  proof -
    have "wake_one chan 0 s = wake_one chan 0 (relock s)"
      using assms wake_one_eval [of s 0 chan] wake_one_eval [of "relock s" 0 chan] by (simp add: procs_ready_def NPROC_def)
    moreover have "[0..<NPROC] = 0 # [1..<NPROC]" by (simp add: NPROC_def upt_conv_Cons)
    ultimately show ?thesis by (simp add: kbind_def)
  qed
  finally show ?thesis using wakes_eval [OF assms order_refl] by simp
qed

definition woken_all :: "chan \<Rightarrow> 'z proctab_scheme \<Rightarrow> 'z proctab_scheme" where
  "woken_all ch s = s\<lparr>ptab := (\<lambda>p. if p < NPROC then woken ch (me s) (ptab s) p else ptab s p)\<rparr>"

lemma woken_all_simps [simp]:
  "lock_idle l (woken_all ch s) = lock_idle l s" "cpu_ok (woken_all ch s) = cpu_ok s" "ready l (woken_all ch s) = ready l s"
  "me (woken_all ch s) = me s" "woken_all ch (acquired l s) = acquired l (woken_all ch s)"
  "woken_all ch (relock s) = relock (woken_all ch s)"
  "hart (woken_all ch s) = hart s" "cpus (woken_all ch s) = cpus s" "locks (woken_all ch s) = locks s"
  "p_pid (ptab (woken_all ch s) p) = p_pid (ptab s p)"
  by (simp_all add: woken_all_def woken_def cong: if_cong)

lemma wakeup_all: "procs_ready s \<Longrightarrow> wakeup ch s = Done () (relock (woken_all ch s))"
  by (simp add: wakeup_eval woken_all_def)

lemma procs_ready_simps [simp]:
  "procs_ready (relock s) = procs_ready s" "procs_ready (woken_all ch s) = procs_ready s" "procs_ready (s\<lparr>ptab := x\<rparr>) = procs_ready s"
  by (simp_all add: procs_ready_def)

lemma procs_ready_acquired [simp]: "(\<And>p. l \<noteq> ProcLock p) \<Longrightarrow> procs_ready s \<Longrightarrow> procs_ready (acquired l s)"
  by (simp add: procs_ready_def)

lemma procs_ready_cpu [simp]: "procs_ready s \<Longrightarrow> cpu_ok s"
  by (simp add: procs_ready_def)

section \<open>Page tables of processes\<close>

lemma mem_step_proc:
  assumes "mem_step s t"
  shows "ptab t = ptab s" "nextpid t = nextpid s" "initproc t = initproc s" "ld_forkret t = ld_forkret s"
    "ld_trampoline t = ld_trampoline s" "me t = me s" "procs_ready t = procs_ready s"
    "noff (cpus t h) = noff (cpus s h)"
proof -
  obtain m f where eq: "relock t = relock (s\<lparr>freelist := f, pmem := m\<rparr>)"
    using assms by (auto simp: mem_step_def)
  show "ptab t = ptab s" using arg_cong [OF eq, of ptab] by simp
  show "nextpid t = nextpid s" using arg_cong [OF eq, of nextpid] by simp
  show "initproc t = initproc s" using arg_cong [OF eq, of initproc] by simp
  show "ld_forkret t = ld_forkret s" using arg_cong [OF eq, of ld_forkret] by simp
  show "ld_trampoline t = ld_trampoline s" using arg_cong [OF eq, of ld_trampoline] by simp
  show me: "me t = me s" using arg_cong [OF eq, of me] by (simp add: me_def)
  show "noff (cpus t h) = noff (cpus s h)" using arg_cong [OF eq, of "\<lambda>s. noff (cpus s h)"] by simp
  show "procs_ready t = procs_ready s" using me mem_step_fields [OF assms] by (simp add: procs_ready_def)
qed

lemma unat_TRAMPOLINE: "unat TRAMPOLINE = 2 ^ 38 - 4096" "aligned TRAMPOLINE" "TRAMPOLINE < MAXVA"
  by (simp_all add: TRAMPOLINE_def MAXVA_def PGSIZE_def aligned_def)

lemma unat_TRAPFRAME: "unat TRAPFRAME = 2 ^ 38 - 8192" "aligned TRAPFRAME" "TRAPFRAME < MAXVA"
  by (simp_all add: TRAPFRAME_def TRAMPOLINE_def MAXVA_def PGSIZE_def aligned_def)

lemma trap_pages_differ: "\<not> same_vpage TRAPFRAME TRAMPOLINE"
  using same_vpage_iff [OF unat_TRAPFRAME(3) unat_TRAMPOLINE(3)] unat_TRAPFRAME unat_TRAMPOLINE
  by (auto simp: PGROUNDDOWN_aligned)

text \<open>Mapping one page, in the form the callers here use.\<close>

lemma map_one:
  assumes "pt_inv s pt fl" "aligned va" "unat va + 4096 \<le> 2 ^ 38" "lookup (pmem s) pt va AND PTE_V = 0"
  obtains (mapped) t fl' where "mappages pt va PGSIZE pa perm s = Done 0 t" "grown s pt fl t fl'"
      "\<forall>va'. lookup (pmem t) pt va' = (if same_vpage va' va then PA2PTE pa OR perm OR PTE_V else lookup (pmem s) pt va')"
  | (full) t where "mappages pt va PGSIZE pa perm s = Done (-1) t" "grown s pt fl t []"
      "\<forall>va'. lookup (pmem t) pt va' = lookup (pmem s) pt va'"
proof -
  have "unat va + 1 * 4096 \<le> 2 ^ 38" "\<forall>i < 1. lookup (pmem s) pt (va_at va i) AND PTE_V = 0" using assms(3,4) by simp_all
  from mappages_ok [OF assms(1,2) _ this, of pa perm]
  obtain r t fl' k where t: "mappages pt va PGSIZE pa perm s = Done r t" "grown s pt fl t fl'"
      "mapped_upto (pmem s) (pmem t) pt va pa perm k" "r = 0 \<and> k = 1 \<or> r = -1 \<and> k = 0 \<and> fl' = []"
    by (auto simp: PGSIZE_def)
  from t(4) show ?thesis
  proof (elim disjE conjE)
    assume "r = 0" "k = 1"
    moreover have "\<forall>va'. lookup (pmem t) pt va' = (if same_vpage va' va then PA2PTE pa OR perm OR PTE_V else lookup (pmem s) pt va')"
    proof
      fix va'
      show "lookup (pmem t) pt va' = (if same_vpage va' va then PA2PTE pa OR perm OR PTE_V else lookup (pmem s) pt va')"
        using t(3) \<open>k = 1\<close> same_vpage_lookup [of va' va "pmem t" pt]
        by (cases "same_vpage va' va") (simp_all add: mapped_upto_def)
    qed
    ultimately show ?thesis using mapped t(1,2) by blast
  next
    assume "r = -1" "k = 0" "fl' = []"
    moreover have "\<forall>va'. lookup (pmem t) pt va' = lookup (pmem s) pt va'"
      using t(3) \<open>k = 0\<close> by (simp add: mapped_upto_def)
    ultimately show ?thesis using full t(1,2) by blast
  qed
qed

text \<open>Freeing a table that maps nothing.\<close>

lemma uvmfree_empty:
  assumes "pt_inv s pt fl" "\<forall>va. lookup (pmem s) pt va AND PTE_V = 0"
  shows "\<exists>t fl'. uvmfree pt 0 s = Done () t \<and> mem_step s t \<and> kmem_inv t fl' \<and> set fl' = set fl \<union> tables s pt"
proof -
  have "unat (PGROUNDUP 0) div 4096 = 0" by (simp add: PGROUNDUP_def PGSIZE_def)
  then show ?thesis
    using uvmfree_ok [OF assms(1), of 0] assms(2) by (simp add: leaf_pages_def can_free_def)
qed

definition trap_maps :: "mem \<Rightarrow> uint64 \<Rightarrow> uint64 \<Rightarrow> uint64 \<Rightarrow> bool" where
  "trap_maps m pt tramp tf \<longleftrightarrow>
     (\<forall>va. lookup m pt va = (if same_vpage va TRAPFRAME then PA2PTE tf OR (PTE_R OR PTE_W) OR PTE_V
        else if same_vpage va TRAMPOLINE then PA2PTE tramp OR (PTE_R OR PTE_X) OR PTE_V else 0))"

definition proc_pagetable_post where
  "proc_pagetable_post s fl tf r t fl' \<longleftrightarrow>
     mem_step s t
     \<and> (if r = 0 then kmem_inv t fl' \<and> set fl' = set fl
        else pt_inv t r fl' \<and> set fl = set fl' \<union> tables t r \<and> trap_maps (pmem t) r (ld_trampoline s) tf)"

lemma proc_pagetable_ok:
  fixes s :: "'z proctab_scheme"
  assumes inv: "kmem_inv s fl"
  shows "\<exists>r t fl'. proc_pagetable p s = Done r t \<and> proc_pagetable_post s fl (p_trapframe (ptab s p)) r t fl'"
proof (cases fl)
  case Nil
  then have "proc_pagetable p s = Done 0 (relock s)"
    using inv by (simp add: proc_pagetable_def uvmcreate_def kalloc_inv_Nil)
  then show ?thesis using inv by (auto simp: proc_pagetable_post_def)
next
  case (Cons pt fl1)
  obtain t1 where t1: "uvmcreate s = Done pt t1" "pt_inv t1 pt fl1" "tables t1 pt = {pt}"
      "\<forall>va. lookup (pmem t1) pt va = 0" "pt \<noteq> 0" "mem_step s t1"
    using uvmcreate_ok [OF inv [unfolded Cons]] by blast
  note f1 = mem_step_proc [OF t1(6)]
  have top: "unat TRAMPOLINE + 4096 \<le> 2 ^ 38" "unat TRAPFRAME + 4096 \<le> 2 ^ 38"
    by (simp_all add: unat_TRAMPOLINE unat_TRAPFRAME)
  have look1: "lookup (pmem t1) pt TRAMPOLINE AND PTE_V = 0" using t1(4) by simp
  show ?thesis
  proof (rule map_one [OF t1(2) unat_TRAMPOLINE(2) top(1) look1, where pa = "ld_trampoline s" and perm = "PTE_R OR PTE_X"], goal_cases)
    case (1 t2 fl2)
    obtain us where us: "fl1 = us @ fl2" "tables t2 pt = {pt} \<union> set us" "mem_step t1 t2" "pt_inv t2 pt fl2"
      using 1(2) t1(3) by (auto simp: grown_def)
    have s2: "mem_step s t2" using mem_step_trans [OF t1(6) us(3)] .
    note f2 = mem_step_proc [OF s2]
    have look2: "lookup (pmem t2) pt TRAPFRAME AND PTE_V = 0" using 1(3) t1(4) trap_pages_differ by simp
    show ?case
    proof (rule map_one [OF us(4) unat_TRAPFRAME(2) top(2) look2, where pa = "p_trapframe (ptab s p)" and perm = "PTE_R OR PTE_W"], goal_cases)
      case inner: (1 t3 fl3)
      obtain us' where us': "fl2 = us' @ fl3" "tables t3 pt = tables t2 pt \<union> set us'" "mem_step t2 t3" "pt_inv t3 pt fl3"
        using inner(2) by (auto simp: grown_def)
      have "proc_pagetable p s = Done pt t3"
        using t1(1,5) 1(1) inner(1) f1 f2 by (simp add: proc_pagetable_def)
      moreover have "trap_maps (pmem t3) pt (ld_trampoline s) (p_trapframe (ptab s p))"
        using inner(3) 1(3) t1(4) by (simp add: trap_maps_def)
      ultimately show ?thesis
        using t1(5) us us' Cons mem_step_trans [OF s2 us'(3)]
        by (intro exI [of _ pt] exI [of _ t3] exI [of _ fl3]) (auto simp: proc_pagetable_post_def)
    next
      case inner: (2 t3)
      obtain us' where us': "fl2 = us'" "tables t3 pt = tables t2 pt \<union> set us'" "mem_step t2 t3" "pt_inv t3 pt []"
        using inner(2) by (auto simp: grown_def)
      have fits: "unat TRAMPOLINE + 1 * 4096 \<le> 2 ^ 38" using top by simp
      from uvmunmap_ok [OF us'(4) unat_TRAMPOLINE(2) fits, of False]
      obtain t4 where t4: "uvmunmap pt TRAMPOLINE 1 False t3 = Done () t4" "mem_step t3 t4" "pt_inv t4 pt []"
          "tables t4 pt = tables t3 pt" "unmapped (pmem t3) (pmem t4) pt TRAMPOLINE 1" by auto
      have "lookup (pmem t4) pt va AND PTE_V = 0" for va
      proof (cases "same_vpage va TRAMPOLINE")
        case True
        then show ?thesis using t4(5) same_vpage_lookup [OF True, of "pmem t4" pt] by (simp add: unmapped_def)
      next
        case False
        then show ?thesis using t4(5) inner(3) 1(3) t1(4) by (simp add: unmapped_def)
      qed
      then obtain t5 fl5 where t5: "uvmfree pt 0 t4 = Done () t5" "mem_step t4 t5" "kmem_inv t5 fl5" "set fl5 = set [] \<union> tables t4 pt"
        using uvmfree_empty [OF t4(3)] by blast
      have "proc_pagetable p s = Done 0 t5"
        using t1(1,5) 1(1) inner(1) f1 f2 t4(1) t5(1) by (simp add: proc_pagetable_def)
      moreover have "set fl5 = set fl" using t5(4) t4(4) us us' Cons by auto
      moreover have "mem_step s t5"
        using s2 us'(3) t4(2) t5(2) by (meson mem_step_trans)
      ultimately show ?thesis using t5(3) by (auto simp: proc_pagetable_post_def)
    qed
  next
    case (2 t2)
    obtain us where us: "fl1 = us" "tables t2 pt = {pt} \<union> set us" "mem_step t1 t2" "pt_inv t2 pt []"
      using 2(2) t1(3) by (auto simp: grown_def)
    obtain t3 fl3 where t3: "uvmfree pt 0 t2 = Done () t3" "mem_step t2 t3" "kmem_inv t3 fl3" "set fl3 = set [] \<union> tables t2 pt"
      using uvmfree_empty [OF us(4)] 2(3) t1(4) by auto
    have "proc_pagetable p s = Done 0 t3" using t1(1,5) 2(1) f1 t3(1) by (simp add: proc_pagetable_def)
    moreover have "set fl3 = set fl" using t3(4) us Cons by auto
    moreover have "mem_step s t3" using t1(6) us(3) t3(2) by (meson mem_step_trans)
    ultimately show ?thesis using t3(3) by (auto simp: proc_pagetable_post_def)
  qed
qed

section \<open>Allocating a process\<close>

lemma relock_id: "noff (cpus s (hart s)) \<noteq> 0 \<Longrightarrow> relock s = s"
  by (simp add: relock_def)

lemma mem_step_acquired:
  assumes "mem_step (acquired l s) t"
  shows "\<exists>m f. t = acquired l (s\<lparr>freelist := f, pmem := m\<rparr>)"
proof -
  obtain m f where eq: "relock t = relock ((acquired l s)\<lparr>freelist := f, pmem := m\<rparr>)"
    using assms by (auto simp: mem_step_def)
  have "noff (cpus t (hart t)) \<noteq> 0"
    using mem_step_fields(1) [OF assms] arg_cong [OF eq, of "\<lambda>s. noff (cpus s (hart t))"]
    by (simp add: noff_acquired)
  then show ?thesis using eq relock_id [of t] by auto
qed

lemma kmem_inv_acquired [simp]: "l \<noteq> KmemLock \<Longrightarrow> kmem_inv s fl \<Longrightarrow> kmem_inv (acquired l s) fl"
  by (simp add: kmem_inv_def)

lemma kmem_inv_proctab [simp]:
  "kmem_inv (s\<lparr>ptab := x\<rparr>) fl = kmem_inv s fl" "kmem_inv (s\<lparr>nextpid := n\<rparr>) fl = kmem_inv s fl"
  "kmem_inv (upd_proc p f s) fl = kmem_inv s fl"
  by (simp_all add: kmem_inv_def layout_ok_def page_ok_def upd_proc_def)

lemma allocproc_find_eval:
  assumes "\<forall>p \<in> set ps. ready (ProcLock p) s"
  shows "case List.find (\<lambda>p. p_state (ptab s p) = UNUSED) ps of
      Some p \<Rightarrow> allocproc_find ps s = Done (Some p) (acquired (ProcLock p) s)
    | None \<Rightarrow> (\<exists>t. allocproc_find ps s = Done None t \<and> relock t = relock s)"
  using assms
proof (induction ps arbitrary: s)
  case (Cons p ps)
  show ?case
  proof (cases "p_state (ptab s p) = UNUSED")
    case False
    have "allocproc_find (p # ps) s = allocproc_find ps (relock s)" using False Cons.prems by simp
    then show ?thesis using Cons.IH [of "relock s"] Cons.prems False by (auto split: option.splits)
  qed (use Cons.prems in simp)
qed auto

text \<open>Undoing \<open>allocproc\<close>: the slot is cleared, its trapframe page goes back, and its lock is released.\<close>

definition cleared :: "proc \<Rightarrow> proc" where
  "cleared q = q\<lparr>p_trapframe := 0, p_pagetable := 0, p_sz := 0, p_pid := 0, p_parent := None,
     p_name := (p_name q)(0 := 0), p_chan := None, p_killed := 0, p_xstate := 0,
     p_state := UNUSED, p_mask := 0, p_allowed_path := (p_allowed_path q)(0 := 0)\<rparr>"

lemma freeproc_no_table:
  fixes s :: "'z proctab_scheme"
  assumes "kmem_inv s fl" "ready (ProcLock p) s" "p_pagetable (ptab s p) = 0"
    and tf: "p_trapframe (ptab s p) \<noteq> 0 \<longrightarrow> page_ok s (p_trapframe (ptab s p)) \<and> p_trapframe (ptab s p) \<notin> set fl"
  shows "\<exists>t fl'. kseq (freeproc p) (release (ProcLock p)) (acquired (ProcLock p) s) = Done () t
    \<and> kmem_inv t fl' \<and> set fl' = set fl \<union> ({p_trapframe (ptab s p)} - {0})
    \<and> ptab t = (ptab s)(p := cleared (ptab s p)) \<and> locks t = locks s \<and> nextpid t = nextpid s"
proof -
  let ?tf = "p_trapframe (ptab s p)" and ?s = "acquired (ProcLock p) s"
  have inv: "kmem_inv ?s fl" using assms(1) by simp
  obtain u fl' where u: "kwhen (?tf \<noteq> 0) (kfree ?tf) ?s = Done () u" "mem_step ?s u" "kmem_inv u fl'"
      "set fl' = set fl \<union> ({?tf} - {0})"
  proof (cases "?tf = 0")
    case True
    then show ?thesis using that inv by simp
  next
    case False
    then show ?thesis using that kfree_explicit [OF inv, of ?tf] tf by auto
  qed
  obtain m f where ueq: "u = acquired (ProcLock p) (s\<lparr>freelist := f, pmem := m\<rparr>)"
    using mem_step_acquired [OF u(2)] by blast
  let ?v = "upd_proc p cleared (s\<lparr>freelist := f, pmem := m\<rparr>)"
  have "kseq (freeproc p) (release (ProcLock p)) ?s = Done () (relock ?v)"
    using u(1) assms(2,3) by (simp add: freeproc_def ueq upd_proc_def cleared_def)
  moreover have "kmem_inv (s\<lparr>freelist := f, pmem := m\<rparr>) fl'"
    using u(3) assms(1) unfolding ueq by (simp add: kmem_inv_def)
  ultimately show ?thesis using u(4) by (auto simp: upd_proc_def)
qed

definition allocproc_post where
  "allocproc_post s fl r t fl' \<longleftrightarrow>
     (case r of
        None \<Rightarrow> kmem_inv t fl' \<and> set fl' = set fl \<and> locks t = locks s
          \<and> (\<forall>q. p_state (ptab t q) = p_state (ptab s q))
      | Some p \<Rightarrow> p < NPROC \<and> p_state (ptab s p) = UNUSED \<and> p_state (ptab t p) = USED
          \<and> p_pid (ptab t p) = nextpid s \<and> nextpid t = nextpid s + 1
          \<and> holding (ProcLock p) t \<and> (\<forall>q. q \<noteq> p \<longrightarrow> ptab t q = ptab s q)
          \<and> pt_inv t (p_pagetable (ptab t p)) fl' \<and> p_trapframe (ptab t p) \<notin> set fl'
          \<and> set fl = insert (p_trapframe (ptab t p)) (set fl' \<union> tables t (p_pagetable (ptab t p)))
          \<and> trap_maps (pmem t) (p_pagetable (ptab t p)) (ld_trampoline s) (p_trapframe (ptab t p)))"

definition unused_clean :: "'z proctab_scheme \<Rightarrow> bool" where
  "unused_clean s \<longleftrightarrow> (\<forall>p < NPROC. p_state (ptab s p) = UNUSED \<longrightarrow> p_trapframe (ptab s p) = 0 \<and> p_pagetable (ptab s p) = 0)"

lemma allocproc_undo:
  fixes s u :: "'z proctab_scheme"
  assumes p: "p_state (ptab s p) = UNUSED"
    and u: "kmem_inv u flu" "ready (ProcLock p) u" "p_pagetable (ptab u p) = 0" "locks u = locks s"
      "\<forall>q. q \<noteq> p \<longrightarrow> ptab u q = ptab s q"
      "p_trapframe (ptab u p) \<noteq> 0 \<longrightarrow> page_ok u (p_trapframe (ptab u p)) \<and> p_trapframe (ptab u p) \<notin> set flu"
      "set fl = set flu \<union> ({p_trapframe (ptab u p)} - {0})"
  shows "\<exists>t fl'. kseq (freeproc p) (kseq (release (ProcLock p)) (kret None)) (acquired (ProcLock p) u) = Done None t
      \<and> allocproc_post s fl None t fl'"
proof -
  obtain t fl' where t: "kseq (freeproc p) (release (ProcLock p)) (acquired (ProcLock p) u) = Done () t" "kmem_inv t fl'"
      "set fl' = set fl" "ptab t = (ptab u)(p := cleared (ptab u p))" "locks t = locks u"
    using freeproc_no_table [OF u(1,2,3,6)] u(7) by auto
  then have "kseq (freeproc p) (kseq (release (ProcLock p)) (kret None)) (acquired (ProcLock p) u) = Done None t"
    using kseq_Done [OF t(1), of "kret None"] by simp
  moreover have "\<forall>q. p_state (ptab t q) = p_state (ptab s q)" using t(4) u(5) p by (simp add: cleared_def)
  then have "allocproc_post s fl None t fl'" using t u(4) by (simp add: allocproc_post_def)
  ultimately show ?thesis by blast
qed

lemma allocproc_ok:
  fixes s :: "'z proctab_scheme"
  assumes inv: "kmem_inv s fl" and locks: "\<forall>p < NPROC. lock_idle (ProcLock p) s" "lock_idle PidLock s"
    and clean: "unused_clean s"
  shows "\<exists>r t fl'. allocproc s = Done r t \<and> allocproc_post s fl r t fl'"
proof (cases "List.find (\<lambda>p. p_state (ptab s p) = UNUSED) [0..<NPROC]")
  case None
  have "\<forall>p \<in> set [0..<NPROC]. ready (ProcLock p) s" using locks inv by (simp add: ready_def kmem_inv_def)
  from allocproc_find_eval [OF this] None
  obtain t where t: "allocproc_find [0..<NPROC] s = Done None t" "relock t = relock s" by auto
  have "kmem_inv t fl" using inv t(2) kmem_inv_relock [of t] kmem_inv_relock [of s] by metis
  moreover have "locks t = locks s" "ptab t = ptab s"
    using arg_cong [OF t(2), of locks] arg_cong [OF t(2), of ptab] by simp_all
  ultimately show ?thesis using t(1) by (auto simp: allocproc_def allocproc_post_def)
next
  case (Some p)
  then have p: "p < NPROC" "p_state (ptab s p) = UNUSED" by (auto simp: find_Some_iff)
  have rdy: "\<forall>p \<in> set [0..<NPROC]. ready (ProcLock p) s" using locks inv by (simp add: ready_def kmem_inv_def)
  then have rp: "ready (ProcLock p) s" "ready PidLock s" using p locks(2) inv by (auto simp: ready_def kmem_inv_def)
  have find: "allocproc_find [0..<NPROC] s = Done (Some p) (acquired (ProcLock p) s)"
    using allocproc_find_eval [OF rdy] Some by simp
  have pt0: "p_pagetable (ptab s p) = 0" "p_trapframe (ptab s p) = 0" using clean p by (auto simp: unused_clean_def)
  define s1 where "s1 = upd_proc p (\<lambda>q. q\<lparr>p_pid := nextpid s, p_state := USED\<rparr>) (s\<lparr>nextpid := nextpid s + 1\<rparr>)"
  have pid: "allocpid (acquired (ProcLock p) s) = Done (nextpid s) (acquired (ProcLock p) (s\<lparr>nextpid := nextpid s + 1\<rparr>))"
    using rp by (simp add: allocpid_def)
  have inv1: "kmem_inv s1 fl" "ready (ProcLock p) s1" using inv rp by (simp_all add: s1_def)
  have tab1: "ptab s1 = (ptab s)(p := (ptab s p)\<lparr>p_pid := nextpid s, p_state := USED\<rparr>)" "locks s1 = locks s"
      "nextpid s1 = nextpid s + 1" "ld_trampoline s1 = ld_trampoline s"
    by (simp_all add: s1_def upd_proc_def)
  have run: "allocproc s =
      kbind kalloc (\<lambda>tf.
         kseq (set_proc p (\<lambda>q. q\<lparr>p_trapframe := tf\<rparr>))
        (if tf = 0 then kseq (freeproc p) (kseq (release (ProcLock p)) (kret None))
         else kbind (proc_pagetable p) (\<lambda>pt.
              kseq (set_proc p (\<lambda>q. q\<lparr>p_pagetable := pt\<rparr>))
             (if pt = 0 then kseq (freeproc p) (kseq (release (ProcLock p)) (kret None))
              else kbind (kget ld_forkret) (\<lambda>forkret.
                   kseq (set_proc p (\<lambda>q. q\<lparr>p_context :=
                          \<lparr>ctx_ra = forkret, ctx_sp = p_kstack q + PGSIZE, ctx_s = (\<lambda>_. 0)\<rparr>\<rparr>))
                        (kret (Some p))))))) (acquired (ProcLock p) s1)"
    using find pid by (simp add: allocproc_def s1_def upd_proc_def)
  show ?thesis
  proof (cases fl)
    case Nil
    then have "kalloc (acquired (ProcLock p) s1) = Done 0 (acquired (ProcLock p) s1)"
      using inv1 kalloc_inv_Nil [of "acquired (ProcLock p) s1"] by simp
    then have "allocproc s = kseq (freeproc p) (kseq (release (ProcLock p)) (kret None))
        (acquired (ProcLock p) (upd_proc p (\<lambda>q. q\<lparr>p_trapframe := 0\<rparr>) s1))"
      unfolding run by simp
    moreover have "\<exists>t fl'. kseq (freeproc p) (kseq (release (ProcLock p)) (kret None))
        (acquired (ProcLock p) (upd_proc p (\<lambda>q. q\<lparr>p_trapframe := 0\<rparr>) s1)) = Done None t
        \<and> allocproc_post s fl None t fl'"
      by (rule allocproc_undo [where flu = fl, OF p(2)]) (use inv1 pt0 tab1 in \<open>simp_all add: upd_proc_def\<close>)
    ultimately show ?thesis by auto
  next
    case (Cons tf fl1)
    obtain t f where t: "kalloc (acquired (ProcLock p) s1) = Done tf t" "kmem_inv t fl1"
        "t = relock ((acquired (ProcLock p) s1)\<lparr>freelist := f, pmem := memset (pmem s1) tf 5 4096\<rparr>)"
      using kalloc_inv_explicit [of "acquired (ProcLock p) s1" tf fl1] inv1(1) Cons by auto
    define s2 where "s2 = upd_proc p (\<lambda>q. q\<lparr>p_trapframe := tf\<rparr>) (s1\<lparr>freelist := f, pmem := memset (pmem s1) tf 5 4096\<rparr>)"
    have t': "t = acquired (ProcLock p) (s1\<lparr>freelist := f, pmem := memset (pmem s1) tf 5 4096\<rparr>)" using t(3) by simp
    have tf: "tf \<noteq> 0" "tf \<notin> set fl1" "page_ok s1 tf" using kmem_inv_pages [OF inv1(1)] Cons by auto
    have s2: "kmem_inv s2 fl1" "ready (ProcLock p) s2"
      using t(2) inv1 unfolding t' by (simp_all add: s2_def kmem_inv_def)
    have tab2: "ptab s2 = (ptab s1)(p := (ptab s1 p)\<lparr>p_trapframe := tf\<rparr>)" "locks s2 = locks s1" "page_ok s2 = page_ok s1"
        "nextpid s2 = nextpid s1" "ld_trampoline s2 = ld_trampoline s1"
      by (simp_all add: s2_def upd_proc_def page_ok_def fun_eq_iff)
    have inv2: "kmem_inv (acquired (ProcLock p) s2) fl1" using s2(1) by simp
    from proc_pagetable_ok [OF inv2, of p] tab2(1)
    obtain pt u fl2 where u: "proc_pagetable p (acquired (ProcLock p) s2) = Done pt u"
        "proc_pagetable_post (acquired (ProcLock p) s2) fl1 tf pt u fl2" by auto
    obtain m g where ueq: "u = acquired (ProcLock p) (s2\<lparr>freelist := g, pmem := m\<rparr>)"
      using u(2) mem_step_acquired by (force simp: proc_pagetable_post_def)
    show ?thesis
    proof (cases "pt = 0")
      case True
      let ?u = "upd_proc p (\<lambda>q. q\<lparr>p_pagetable := 0\<rparr>) (s2\<lparr>freelist := g, pmem := m\<rparr>)"
      have inv3: "kmem_inv ?u fl2" "set fl2 = set fl1"
        using u(2) True s2(1) by (auto simp: proc_pagetable_post_def ueq kmem_inv_def)
      have "\<exists>t fl'. kseq (freeproc p) (kseq (release (ProcLock p)) (kret None)) (acquired (ProcLock p) ?u) = Done None t
          \<and> allocproc_post s fl None t fl'"
        by (rule allocproc_undo [OF p(2) inv3(1)]) (use s2(2) tab1 tab2 tf inv3(2) Cons in auto)
      moreover have "allocproc s = kseq (freeproc p) (kseq (release (ProcLock p)) (kret None)) (acquired (ProcLock p) ?u)"
        unfolding run using t(1) u(1) True tf(1) by (simp add: t' ueq s2_def)
      ultimately show ?thesis by auto
    next
      case False
      let ?u = "upd_proc p (\<lambda>q. q\<lparr>p_pagetable := pt, p_context :=
                          \<lparr>ctx_ra = ld_forkret s2, ctx_sp = p_kstack q + PGSIZE, ctx_s = (\<lambda>_. 0)\<rparr>\<rparr>) (s2\<lparr>freelist := g, pmem := m\<rparr>)"
      have "allocproc s = Done (Some p) (acquired (ProcLock p) ?u)"
        unfolding run using t(1) u(1) False tf(1) by (simp add: t' ueq s2_def upd_proc_def)
      moreover have pi: "pt_inv u pt fl2" "set fl1 = set fl2 \<union> tables u pt" "trap_maps (pmem u) pt (ld_trampoline s) tf"
        using u(2) False tab1 tab2 by (auto simp: proc_pagetable_post_def)
      then have "pt_inv (acquired (ProcLock p) ?u) pt fl2"
        by (simp add: pt_inv_def kmem_inv_def ueq upd_proc_def page_ok_def layout_ok_def)
      then have "allocproc_post s fl (Some p) (acquired (ProcLock p) ?u) fl2"
        using p pi tab1 tab2 tf(2) Cons
        by (auto simp: allocproc_post_def ueq upd_proc_def)
      ultimately show ?thesis by blast
    qed
  qed
qed

section \<open>Sleeping, killing and scheduling\<close>

lemma release_other:
  assumes "l \<noteq> k" "lock_idle l s"
  shows "release l (acquired k (acquired l s)) = Done () (acquired k s)"
  using assms
  by (auto simp: lock_idle_def acquired_def pushed_def lock_defs pop_off_def cpu_defs Let_def fun_upd_twist fun_upd_idem)

text \<open>A process that holds only \<open>lk\<close> goes to sleep.\<close>

definition asleep :: "chan \<Rightarrow> nat \<Rightarrow> 'z proctab_scheme \<Rightarrow> 'z proctab_scheme" where
  "asleep ch p s = acquired (ProcLock p) (upd_proc p (\<lambda>q. q\<lparr>p_chan := Some ch, p_state := SLEEPING\<rparr>) s)"

lemma sleep_eval:
  assumes "me s = Some p" "cpu_ok s" "noff (mycpu s) = 0" "lock_idle lk s" "lock_idle (ProcLock p) s" "lk \<noteq> ProcLock p"
  shows "sleep ch lk (acquired lk s) = Switch (asleep ch p s)"
proof -
  have 1: "acquire (ProcLock p) (acquired lk s) = Done () (acquired (ProcLock p) (acquired lk s))"
    using assms by simp
  have 2: "sched (asleep ch p s) = Switch (asleep ch p s)"
    using assms(1,3)
    by (simp add: sched_def asleep_def with_myproc_eval [of _ p] mycpu_def cpuid_def noff_acquired)
  show ?thesis using 1 2 release_other [OF assms(6,4)] assms(1)
    by (simp add: sleep_def with_myproc_eval [of _ p] asleep_def upd_proc_def)
qed

lemma sleep_resume_eval:
  assumes "me s = Some p" "cpu_ok s" "noff (mycpu s) = 0" "lock_idle lk s" "lock_idle (ProcLock p) s"
  shows "sleep_resume lk (intena (mycpu (acquired (ProcLock p) s))) (acquired (ProcLock p) s)
    = Done () (acquired lk (upd_proc p (\<lambda>q. q\<lparr>p_chan := None\<rparr>) s))"
proof -
  have "upd_mycpu (\<lambda>c. c\<lparr>intena := intena (mycpu (acquired (ProcLock p) s))\<rparr>) (acquired (ProcLock p) s) = acquired (ProcLock p) s"
    by (simp add: upd_mycpu_def mycpu_def)
  then show ?thesis using assms
    by (simp add: sleep_resume_def with_myproc_eval [of _ p] sched_resume_def ready_def)
qed

lemma kkill_loop_eval:
  assumes "\<forall>p \<in> set ps. ready (ProcLock p) s"
  shows "\<exists>t. (case List.find (\<lambda>p. p_pid (ptab s p) = pid) ps of
        None \<Rightarrow> kkill_loop ps pid s = Done (-1) t \<and> relock t = relock s
      | Some p \<Rightarrow> kkill_loop ps pid s = Done 0 t \<and>
          relock t = relock (upd_proc p (\<lambda>q. q\<lparr>p_killed := 1,
            p_state := (if p_state q = SLEEPING then RUNNABLE else p_state q)\<rparr>) s))"
  using assms
proof (induction ps arbitrary: s)
  case (Cons p ps)
  show ?case
  proof (cases "p_pid (ptab s p) = pid")
    case True
    then show ?thesis using Cons.prems by (simp add: upd_proc_def)
  next
    case False
    have "kkill_loop (p # ps) pid s = kkill_loop ps pid (relock s)" using False Cons.prems by simp
    then show ?thesis using Cons.IH [of "relock s"] Cons.prems False by (auto split: option.splits)
  qed
qed auto

section \<open>Properties\<close>

text \<open>
  C18. \<open>wakeup\<close> makes runnable exactly the processes, other than the caller, that sleep on the
  channel; it changes nothing else of any process, leaves every lock as it was and never panics.
\<close>

theorem wakeup_exact:
  assumes "procs_ready s"
  shows "\<exists>t. wakeup ch s = Done () t \<and> locks t = locks s
    \<and> (\<forall>p. ptab t p =
         (if p < NPROC \<and> me s \<noteq> Some p \<and> p_state (ptab s p) = SLEEPING \<and> p_chan (ptab s p) = Some ch
          then (ptab s p)\<lparr>p_state := RUNNABLE\<rparr> else ptab s p))"
  using wakeup_eval [OF assms, of ch] by (auto simp: woken_def)

text \<open>
  A machine before boot with an empty process table, whose hart 0 runs process 3; process 5
  sleeps on the tick counter and process 6 on a buffer.
\<close>

definition blank_proc :: proc where
  "blank_proc = \<lparr>p_state = UNUSED, p_chan = None, p_killed = 0, p_xstate = 0, p_pid = 0, p_parent = None,
     p_kstack = 0, p_sz = 0, p_pagetable = 0, p_trapframe = 0,
     p_context = \<lparr>ctx_ra = 0, ctx_sp = 0, ctx_s = (\<lambda>_. 0)\<rparr>, p_ofile = (\<lambda>_. None), p_cwd = None,
     p_name = (\<lambda>_. 0), p_mask = 0, p_allowed_path = (\<lambda>_. 0)\<rparr>"

definition sample_procs :: "nat \<Rightarrow> proc" where
  "sample_procs = (\<lambda>_. blank_proc)
     (3 := blank_proc\<lparr>p_state := RUNNING, p_pid := 4\<rparr>,
      5 := blank_proc\<lparr>p_state := SLEEPING, p_chan := Some TicksChan, p_pid := 6\<rparr>,
      6 := blank_proc\<lparr>p_state := SLEEPING, p_chan := Some (BufChan 0), p_pid := 7\<rparr>)"

definition sample_system :: proctab where
  "sample_system = \<lparr>hart = 0, cpus = (\<lambda>_. \<lparr>cproc = None, noff = 0, intena = False\<rparr>)(0 := \<lparr>cproc = Some 3, noff = 0, intena = False\<rparr>),
     sie = (\<lambda>_. False), locks = (\<lambda>_. \<lparr>locked = False, lkname = [], lkcpu = None\<rparr>),
     pmem = (\<lambda>_. 0), freelist = 0, ld_end = 0x87FF9123, ld_etext = 0x80008000,
     ld_trampoline = 0x80007000, kernel_pagetable = 0, satp = (\<lambda>_. 0),
     ptab = sample_procs, initproc = Some 0, nextpid = 8, ld_forkret = 0x80001000\<rparr>"

lemma sample_system_simps [simp]:
  "me sample_system = Some 3" "cpu_ok sample_system" "lock_idle l sample_system" "noff (mycpu sample_system) = 0"
  "ptab sample_system = sample_procs" "nextpid sample_system = 8"
  "layout_ok sample_system" "freelist sample_system = 0" "ld_end sample_system = 0x87FF9123"
  by (simp_all add: sample_system_def me_def cpu_ok_def lock_idle_def cpu_defs layout_ok_def KERNBASE_def PHYSTOP_def)

theorem wakeup_exact_witness:
  "procs_ready sample_system \<and> (\<exists>t. wakeup TicksChan sample_system = Done () t
     \<and> p_state (ptab t 5) = RUNNABLE \<and> p_state (ptab t 6) = SLEEPING)"
proof -
  have r: "procs_ready sample_system" by (simp add: procs_ready_def)
  then show ?thesis using wakeup_exact [OF r, of TicksChan] by (auto simp: sample_procs_def NPROC_def)
qed

text \<open>
  C17. \<open>sleep\<close> never panics: a process that holds only \<open>lk\<close> gives it up and enters the scheduler
  sleeping on the channel, with its own lock held so that no wake-up is lost in between. Once its
  lock is free, any process's \<open>wakeup\<close> on the channel makes it runnable; and when the scheduler
  resumes it, \<open>sleep\<close> returns with \<open>lk\<close> held again and no channel.
\<close>

theorem sleep_wakeup:
  assumes "me s = Some p" "cpu_ok s" "noff (mycpu s) = 0" "p < NPROC"
    and "lock_idle lk s" "lock_idle (ProcLock p) s" "lk \<noteq> ProcLock p"
  shows "(\<exists>t. sleep ch lk (acquired lk s) = Switch t \<and> lock_idle lk t \<and> holding (ProcLock p) t
      \<and> p_state (ptab t p) = SLEEPING \<and> (\<forall>q. q \<noteq> p \<longrightarrow> ptab t q = ptab s q)
      \<and> (\<forall>u. procs_ready u \<and> me u \<noteq> Some p \<and> ptab u p = ptab t p \<longrightarrow>
            (\<exists>v. wakeup ch u = Done () v \<and> p_state (ptab v p) = RUNNABLE)))
    \<and> (\<exists>v. sleep_resume lk (intena (mycpu (acquired (ProcLock p) s))) (acquired (ProcLock p) s) = Done () v
      \<and> holding lk v \<and> lock_idle (ProcLock p) v \<and> p_chan (ptab v p) = None)"
proof -
  have "holding (ProcLock p) (asleep ch p s)" "lock_idle lk (asleep ch p s)"
    using assms by (simp_all add: asleep_def)
  moreover have "ptab (asleep ch p s) = (ptab s)(p := (ptab s p)\<lparr>p_chan := Some ch, p_state := SLEEPING\<rparr>)"
    by (simp add: asleep_def)
  moreover have "\<exists>v. wakeup ch u = Done () v \<and> p_state (ptab v p) = RUNNABLE"
    if "procs_ready u" "me u \<noteq> Some p" "p_state (ptab u p) = SLEEPING" "p_chan (ptab u p) = Some ch" for u :: "'b proctab_scheme"
    using wakeup_eval [OF that(1), of ch] that assms(4) by (auto simp: woken_def)
  ultimately show ?thesis
    using sleep_eval [OF assms(1-3,5-7), of ch] sleep_resume_eval [OF assms(1-3,5,6)] assms
    by auto
qed

theorem sleep_wakeup_witness:
  "me sample_system = Some 3 \<and> (\<exists>t. sleep TicksChan TicksLock (acquired TicksLock sample_system) = Switch t
     \<and> p_state (ptab t 3) = SLEEPING)"
  using sleep_wakeup [of sample_system 3 TicksLock TicksChan] by (auto simp: NPROC_def)


lemma sample_booted:
  "\<exists>t. kinit sample_system = Done () t \<and> kmem_inv t boot_pages \<and> ptab t = sample_procs \<and> me t = Some 3
     \<and> (\<forall>l. l \<noteq> KmemLock \<longrightarrow> lock_idle l t) \<and> noff (mycpu t) = 0"
proof -
  have pg: "PGROUNDUP 0x87FF9123 = 0x87FFA000"
    by (simp add: PGROUNDUP_def PGSIZE_def)
  obtain t where t: "kinit sample_system = Done () t" "kmem_inv t boot_pages"
      and m: "mem_step (upd_lock KmemLock (\<lambda>_. \<lparr>locked = False, lkname = ''kmem'', lkcpu = None\<rparr>) sample_system) t"
    using kinit_inv [of sample_system] by (auto simp: pg boot_page_range)
  from mem_step_proc [OF m] mem_step_fields [OF m] t show ?thesis
    by (auto simp: upd_lock_def lock_idle_def sample_system_def me_def mycpu_def cpuid_def)
qed


text \<open>
  C19. \<open>kkill\<close> marks the first process with the given pid as killed and makes it runnable if it
  was sleeping, changes nothing else, and returns 0; with no such process it returns -1 and
  changes nothing.
\<close>

theorem kkill_exact:
  assumes "cpu_ok s" "\<forall>p < NPROC. lock_idle (ProcLock p) s"
  shows "\<exists>t. locks t = locks s \<and>
    (case List.find (\<lambda>p. p_pid (ptab s p) = pid) [0..<NPROC] of
       None \<Rightarrow> kkill pid s = Done (-1) t \<and> ptab t = ptab s
     | Some p \<Rightarrow> kkill pid s = Done 0 t \<and> ptab t = (ptab s)(p := (ptab s p)\<lparr>p_killed := 1,
           p_state := (if p_state (ptab s p) = SLEEPING then RUNNABLE else p_state (ptab s p))\<rparr>))"
proof -
  have "\<forall>p \<in> set [0..<NPROC]. ready (ProcLock p) s" using assms by (simp add: ready_def)
  from kkill_loop_eval [OF this, of pid] obtain t where t:
    "case List.find (\<lambda>p. p_pid (ptab s p) = pid) [0..<NPROC] of
        None \<Rightarrow> kkill pid s = Done (-1) t \<and> relock t = relock s
      | Some p \<Rightarrow> kkill pid s = Done 0 t \<and>
          relock t = relock (upd_proc p (\<lambda>q. q\<lparr>p_killed := 1,
            p_state := (if p_state q = SLEEPING then RUNNABLE else p_state q)\<rparr>) s)"
    unfolding kkill_def by blast
  then show ?thesis
    by (intro exI [of _ t])
      (auto dest!: arg_cong [of "relock _" _ "\<lambda>s. (locks s, ptab s)"] split: option.splits)
qed

theorem kkill_exact_witness:
  "\<exists>t. kkill 6 sample_system = Done 0 t \<and> p_killed (ptab t 5) = 1 \<and> p_state (ptab t 5) = RUNNABLE"
  using kkill_exact [of sample_system 6] by (auto simp: sample_procs_def blank_proc_def NPROC_def upt_rec)

end
