(* ===== verification/Usermem.thy ===== *)
theory Usermem
  imports Proc
begin

text \<open>
  Copying between the kernel and user memory: \<^verbatim>\<open>copyout\<close>, \<^verbatim>\<open>copyin\<close> and \<^verbatim>\<open>vmfault\<close> of
  \<^verbatim>\<open>kernel/vm.c\<close>, and \<^verbatim>\<open>either_copyout\<close> and \<^verbatim>\<open>either_copyin\<close> of \<^verbatim>\<open>kernel/proc.c\<close>.

  The kernel's own buffers are lists of bytes: \<open>copyout\<close> takes the bytes to copy, and \<open>copyin\<close>
  returns the bytes it has written to its destination, in order, also when it fails.
\<close>

section \<open>Operations\<close>

text \<open>The bytes at an address, and storing bytes there (\<^verbatim>\<open>memmove\<close> from or to a kernel buffer).\<close>

definition peek :: "mem \<Rightarrow> uint64 \<Rightarrow> nat \<Rightarrow> uchar list" where
  "peek m a n = map (\<lambda>i. m (a + of_nat i)) [0..<n]"

definition poke :: "mem \<Rightarrow> uint64 \<Rightarrow> uchar list \<Rightarrow> mem" where
  "poke m a bs b = (if unat (b - a) < length bs then bs ! unat (b - a) else m b)"

definition vmfault :: "uint64 \<Rightarrow> uint64 \<Rightarrow> ('z proctab_scheme, uint64) kop" where
  "vmfault pagetable va =
     with_myproc (\<lambda>p.
     kbind (kget (\<lambda>s. ptab s p)) (\<lambda>q.
     if p_sz q \<le> va then kret 0
     else let va = PGROUNDDOWN va in
       kbind (ismapped pagetable va) (\<lambda>b.
       if b then kret 0
       else kbind kalloc (\<lambda>mm.
         if mm = 0 then kret 0
         else kseq (kmod (\<lambda>s. s\<lparr>pmem := memset (pmem s) mm 0 (ucast PGSIZE)\<rparr>))
             (kbind (mappages (p_pagetable q) va PGSIZE mm (PTE_W OR PTE_U OR PTE_R)) (\<lambda>r.
              if r \<noteq> 0 then kseq (kfree mm) (kret 0)
              else kret mm))))))"

text \<open>
  The loops of \<open>copyout\<close> and \<open>copyin\<close> end a page with every turn, so one turn per byte and one
  more is enough fuel.
\<close>

fun copyout_loop :: "nat \<Rightarrow> uint64 \<Rightarrow> uint64 \<Rightarrow> uchar list \<Rightarrow> ('z proctab_scheme, int) kop" where
  "copyout_loop 0 pagetable dstva src = (\<lambda>_. Diverge)"
| "copyout_loop (Suc k) pagetable dstva src =
     (if src = [] then kret 0
      else let va0 = PGROUNDDOWN dstva in
        if MAXVA \<le> va0 then kret (-1)
        else kbind (walkaddr pagetable va0) (\<lambda>pa0.
             kbind (if pa0 = 0 then vmfault pagetable va0 else kret pa0) (\<lambda>pa0.
             if pa0 = 0 then kret (-1)
             else kbind (walk pagetable va0 False) (\<lambda>pte.
                  if pte = 0 then kpanic ''kerneltrap''
                  else kbind (kget (\<lambda>s. read64 (pmem s) pte)) (\<lambda>e.
                       if e AND PTE_W = 0 then kret (-1)
                       else let n = min (unat (PGSIZE - (dstva - va0))) (length src) in
                         kseq (kmod (\<lambda>s. s\<lparr>pmem := poke (pmem s) (pa0 + (dstva - va0)) (take n src)\<rparr>))
                              (copyout_loop k pagetable (va0 + PGSIZE) (drop n src)))))))"

definition copyout :: "uint64 \<Rightarrow> uint64 \<Rightarrow> uchar list \<Rightarrow> ('z proctab_scheme, int) kop" where
  "copyout pagetable dstva src = copyout_loop (length src + 1) pagetable dstva src"

fun copyin_loop :: "nat \<Rightarrow> uint64 \<Rightarrow> uint64 \<Rightarrow> nat \<Rightarrow> ('z proctab_scheme, int \<times> uchar list) kop" where
  "copyin_loop 0 pagetable srcva len = (\<lambda>_. Diverge)"
| "copyin_loop (Suc k) pagetable srcva len =
     (if len = 0 then kret (0, [])
      else let va0 = PGROUNDDOWN srcva in
        kbind (walkaddr pagetable va0) (\<lambda>pa0.
        kbind (if pa0 = 0 then vmfault pagetable va0 else kret pa0) (\<lambda>pa0.
        if pa0 = 0 then kret (-1, [])
        else let n = min (unat (PGSIZE - (srcva - va0))) len in
          kbind (kget (\<lambda>s. peek (pmem s) (pa0 + (srcva - va0)) n)) (\<lambda>bs.
          kbind (copyin_loop k pagetable (va0 + PGSIZE) (len - n)) (\<lambda>(r, bs').
          kret (r, bs @ bs'))))))"

definition copyin :: "uint64 \<Rightarrow> uint64 \<Rightarrow> nat \<Rightarrow> ('z proctab_scheme, int \<times> uchar list) kop" where
  "copyin pagetable srcva len = copyin_loop (len + 1) pagetable srcva len"

text \<open>Both take either a user address, or an address of the kernel's direct map.\<close>

definition either_copyout :: "bool \<Rightarrow> uint64 \<Rightarrow> uchar list \<Rightarrow> ('z proctab_scheme, int) kop" where
  "either_copyout user_dst dst src =
     kbind myproc (\<lambda>p.
     if user_dst
     then (case p of None \<Rightarrow> kpanic ''kerneltrap''
           | Some p \<Rightarrow> kbind (kget (\<lambda>s. p_pagetable (ptab s p))) (\<lambda>pt. copyout pt dst src))
     else kseq (kmod (\<lambda>s. s\<lparr>pmem := poke (pmem s) dst src\<rparr>)) (kret 0))"

definition either_copyin :: "bool \<Rightarrow> uint64 \<Rightarrow> nat \<Rightarrow> ('z proctab_scheme, int \<times> uchar list) kop" where
  "either_copyin user_src src len =
     kbind myproc (\<lambda>p.
     if user_src
     then (case p of None \<Rightarrow> kpanic ''kerneltrap''
           | Some p \<Rightarrow> kbind (kget (\<lambda>s. p_pagetable (ptab s p))) (\<lambda>pt. copyin pt src len))
     else kget (\<lambda>s. (0, peek (pmem s) src len)))"

end
