(* ===== verification/Uart.thy ===== *)
theory Uart
  imports Usermem
begin

text \<open>
  Console output: the UART driver \<^verbatim>\<open>kernel/uart.c\<close> (its interrupt handler is in the theory
  \<open>Console\<close>), \<^verbatim>\<open>consputc\<close> of \<^verbatim>\<open>kernel/console.c\<close>, \<^verbatim>\<open>kernel/printf.c\<close>, and \<^verbatim>\<open>procdump\<close> of
  \<^verbatim>\<open>kernel/proc.c\<close>.

  The UART is a device. The state records every register write in order (\<open>uart_out\<close>), the bytes
  that have arrived and are not yet read (\<open>uart_in\<close>), and for how many more reads of the line
  status register the transmitter says it is busy (\<open>uart_wait\<close>); a written byte keeps it busy for
  \<open>uart_latency\<close> reads, which depends on the device.
\<close>

section \<open>State\<close>

text \<open>The functions \<^verbatim>\<open>devsw\<close> can point to, and its entries.\<close>

datatype devfn = CONSOLEREAD | CONSOLEWRITE

record devsw_entry =
  dev_read :: "devfn option"
  dev_write :: "devfn option"

record console = proctab +
  uart_out :: "(nat \<times> uchar) list"
  uart_in :: "uchar list"
  uart_wait :: nat
  uart_latency :: nat
  tx_busy :: bool
  panicking :: bool
  panicked :: bool
  cons_buf :: "nat \<Rightarrow> uchar"
  cons_r :: uint
  cons_w :: uint
  cons_e :: uint
  devsw :: "nat \<Rightarrow> devsw_entry"

section \<open>The device\<close>

definition RHR :: nat where "RHR = 0"
definition THR :: nat where "THR = 0"
definition IER :: nat where "IER = 1"
definition IER_RX_ENABLE :: uchar where "IER_RX_ENABLE = 1"
definition IER_TX_ENABLE :: uchar where "IER_TX_ENABLE = push_bit 1 1"
definition FCR :: nat where "FCR = 2"
definition FCR_FIFO_ENABLE :: uchar where "FCR_FIFO_ENABLE = 1"
definition FCR_FIFO_CLEAR :: uchar where "FCR_FIFO_CLEAR = push_bit 1 3"
definition LCR :: nat where "LCR = 3"
definition LCR_EIGHT_BITS :: uchar where "LCR_EIGHT_BITS = 3"
definition LCR_BAUD_LATCH :: uchar where "LCR_BAUD_LATCH = push_bit 7 1"

definition WriteReg :: "nat \<Rightarrow> uchar \<Rightarrow> ('z console_scheme, unit) kop" where
  "WriteReg r v = kmod (\<lambda>s. s\<lparr>uart_out := uart_out s @ [(r, v)], uart_wait := (if r = THR then uart_latency s else uart_wait s)\<rparr>)"

text \<open>The two bits of the line status register the driver looks at.\<close>

definition LSR_TX_IDLE :: "('z console_scheme, bool) kop" where
  "LSR_TX_IDLE = kbind (kget uart_wait) (\<lambda>w. kseq (kmod (\<lambda>s. s\<lparr>uart_wait := w - 1\<rparr>)) (kret (w = 0)))"

definition LSR_RX_READY :: "('z console_scheme, bool) kop" where
  "LSR_RX_READY = kget (\<lambda>s. uart_in s \<noteq> [])"

definition ReadRHR :: "('z console_scheme, uchar) kop" where
  "ReadRHR = kbind (kget (\<lambda>s. hd (uart_in s))) (\<lambda>c. kseq (kmod (\<lambda>s. s\<lparr>uart_in := tl (uart_in s)\<rparr>)) (kret c))"

section \<open>Operations of the driver\<close>

definition uartinit :: "('z console_scheme, unit) kop" where
  "uartinit =
     kseq (WriteReg IER 0)
    (kseq (WriteReg LCR LCR_BAUD_LATCH)
    (kseq (WriteReg 0 3)
    (kseq (WriteReg 1 0)
    (kseq (WriteReg LCR LCR_EIGHT_BITS)
    (kseq (WriteReg FCR (FCR_FIFO_ENABLE OR FCR_FIFO_CLEAR))
    (kseq (WriteReg IER (IER_TX_ENABLE OR IER_RX_ENABLE))
          (initlock TxLock ''uart'')))))))"

text \<open>
  \<open>uartwrite\<close> sleeps while the UART is busy; \<open>uartwrite_loop\<close> is the loop with the bytes still to
  send, where the process continues when it is woken.
\<close>

fun uartwrite_loop :: "uchar list \<Rightarrow> ('z console_scheme, unit) kop" where
  "uartwrite_loop [] = release TxLock"
| "uartwrite_loop (c # cs) =
     kbind (kget tx_busy) (\<lambda>b.
     if b then sleep TxChan TxLock
     else kseq (WriteReg THR c) (kseq (kmod (\<lambda>s. s\<lparr>tx_busy := True\<rparr>)) (uartwrite_loop cs)))"

definition uartwrite :: "uchar list \<Rightarrow> ('z console_scheme, unit) kop" where
  "uartwrite cs = kseq (acquire TxLock) (uartwrite_loop cs)"

definition uartwrite_resume :: "uchar list \<Rightarrow> bool \<Rightarrow> ('z console_scheme, unit) kop" where
  "uartwrite_resume cs ena = kseq (sleep_resume TxLock ena) (uartwrite_loop cs)"

text \<open>The busy wait of \<open>uartputc_sync\<close>: the device is ready after \<open>uart_wait\<close> more reads.\<close>

fun uart_poll :: "nat \<Rightarrow> ('z console_scheme, unit) kop" where
  "uart_poll 0 = (\<lambda>_. Diverge)"
| "uart_poll (Suc k) = kbind LSR_TX_IDLE (\<lambda>idle. if idle then kret () else uart_poll k)"

text \<open>A character sent is the low byte of an \<^verbatim>\<open>int\<close>. A hart that finds the kernel panicked stops for ever.\<close>

definition uartputc_sync :: "int \<Rightarrow> ('z console_scheme, unit) kop" where
  "uartputc_sync c =
     kbind (kget panicking) (\<lambda>pk.
     kseq (kwhen (\<not> pk) push_off)
    (kbind (kget panicked) (\<lambda>pd.
     if pd then (\<lambda>_. Diverge)
     else kbind (kget uart_wait) (\<lambda>w.
          kseq (uart_poll (w + 1))
         (kseq (WriteReg THR (word_of_int c))
         (kbind (kget panicking) (\<lambda>pk. kwhen (\<not> pk) pop_off)))))))"

definition uartgetc :: "('z console_scheme, int) kop" where
  "uartgetc = kbind LSR_RX_READY (\<lambda>r. if r then kbind ReadRHR (\<lambda>c. kret (uint c)) else kret (-1))"

section \<open>Printing\<close>

definition BACKSPACE :: int where "BACKSPACE = 0x100"

definition consputc :: "int \<Rightarrow> ('z console_scheme, unit) kop" where
  "consputc c =
     (if c = BACKSPACE then kseq (uartputc_sync 8) (kseq (uartputc_sync 32) (uartputc_sync 8))
      else uartputc_sync c)"

definition ascii :: "string \<Rightarrow> uchar list" where
  "ascii s = map of_char s"

definition digit_char :: "nat \<Rightarrow> uchar" where
  "digit_char d = ascii ''0123456789abcdef'' ! d"

text \<open>
  \<open>printint\<close>: the digits are produced from the last to the first into a buffer of 20 characters
  and printed in reverse. The argument is 64 bits wide, read as signed when \<open>sign\<close> is set.
\<close>

function printint_digits :: "nat \<Rightarrow> nat \<Rightarrow> uchar list" where
  "printint_digits base x =
     (if base < 2 \<or> x div base = 0 then [digit_char (x mod base)]
      else digit_char (x mod base) # printint_digits base (x div base))"
  by auto
termination by (relation "measure snd") (auto intro!: div_less_dividend gr0I)

definition printint_chars :: "uint64 \<Rightarrow> nat \<Rightarrow> bool \<Rightarrow> uchar list" where
  "printint_chars xx base sign =
     (let neg = (sign \<and> sint xx < 0);
          x = (if neg then - xx else xx)
      in rev (printint_digits base (unat x) @ (if neg then ascii ''-'' else [])))"

definition put_chars :: "uchar list \<Rightarrow> ('z console_scheme, unit) kop" where
  "put_chars cs = kfor cs (\<lambda>c. consputc (uint c))"

definition printint :: "uint64 \<Rightarrow> nat \<Rightarrow> bool \<Rightarrow> ('z console_scheme, unit) kop" where
  "printint xx base sign = put_chars (printint_chars xx base sign)"

definition printptr_chars :: "uint64 \<Rightarrow> uchar list" where
  "printptr_chars x = ascii ''0x'' @ map (\<lambda>i. digit_char (unat (drop_bit 60 (push_bit (4 * i) x)))) [0..<16]"

definition printptr :: "uint64 \<Rightarrow> ('z console_scheme, unit) kop" where
  "printptr x = put_chars (printptr_chars x)"

text \<open>
  The arguments of \<open>printf\<close>: a word of 64 bits, of which the format may use the low 32, or a
  string, null or without its final NUL. An argument that is missing or of the wrong kind has no
  defined behaviour in C; nothing is printed for it here.
\<close>

datatype vararg = VWord uint64 | VStr "uchar list option"

definition low32 :: "uint64 \<Rightarrow> bool \<Rightarrow> uint64" where
  "low32 x sign = (if sign then scast (ucast x :: uint) else ucast (ucast x :: uint))"

fun arg_word :: "vararg list \<Rightarrow> uint64" where
  "arg_word (VWord w # _) = w"
| "arg_word _ = 0"

fun arg_str :: "vararg list \<Rightarrow> uchar list" where
  "arg_str (VStr (Some s) # _) = s"
| "arg_str (VStr None # _) = ascii ''(null)''"
| "arg_str _ = []"

text \<open>What one conversion after a percent sign prints, how many more characters of the format and how many arguments it uses.\<close>

definition chr :: "char \<Rightarrow> uchar" where "chr c = of_char c"

definition convert :: "uchar \<Rightarrow> uchar \<Rightarrow> uchar \<Rightarrow> vararg list \<Rightarrow> uchar list \<times> nat \<times> nat" where
  "convert c0 c1 c2 ap =
     (let w = arg_word ap in
      if c0 = chr CHR ''d'' then (printint_chars (low32 w True) 10 True, 0, 1)
      else if c0 = chr CHR ''l'' \<and> c1 = chr CHR ''d'' then (printint_chars w 10 True, 1, 1)
      else if c0 = chr CHR ''l'' \<and> c1 = chr CHR ''l'' \<and> c2 = chr CHR ''d'' then (printint_chars w 10 True, 2, 1)
      else if c0 = chr CHR ''u'' then (printint_chars (low32 w False) 10 False, 0, 1)
      else if c0 = chr CHR ''l'' \<and> c1 = chr CHR ''u'' then (printint_chars w 10 False, 1, 1)
      else if c0 = chr CHR ''l'' \<and> c1 = chr CHR ''l'' \<and> c2 = chr CHR ''u'' then (printint_chars w 10 False, 2, 1)
      else if c0 = chr CHR ''x'' then (printint_chars (low32 w False) 16 False, 0, 1)
      else if c0 = chr CHR ''l'' \<and> c1 = chr CHR ''x'' then (printint_chars w 16 False, 1, 1)
      else if c0 = chr CHR ''l'' \<and> c1 = chr CHR ''l'' \<and> c2 = chr CHR ''x'' then (printint_chars w 16 False, 2, 1)
      else if c0 = chr CHR ''p'' then (printptr_chars w, 0, 1)
      else if c0 = chr CHR ''c'' then ([ucast w], 0, 1)
      else if c0 = chr CHR ''s'' then (arg_str ap, 0, 1)
      else if c0 = chr CHR ''%'' then ([chr CHR ''%''], 0, 0)
      else ([chr CHR ''%'', c0], 0, 0))"

definition nth0 :: "uchar list \<Rightarrow> nat \<Rightarrow> uchar" where
  "nth0 s i = (if i < length s then s ! i else 0)"

function format :: "uchar list \<Rightarrow> vararg list \<Rightarrow> uchar list" where
  "format [] ap = []"
| "format (c # cs) ap =
     (if c \<noteq> chr CHR ''%'' then c # format cs ap
      else case cs of
             [] \<Rightarrow> []
           | c0 # cs' \<Rightarrow>
               let c1 = nth0 cs' 0; c2 = (if c1 \<noteq> 0 then nth0 cs' 1 else 0); (out, used, args) = convert c0 c1 c2 ap
               in out @ format (drop used cs') (drop args ap))"
  by pat_completeness auto
termination by (relation "measure (length \<circ> fst)") auto

definition printf :: "uchar list \<Rightarrow> vararg list \<Rightarrow> ('z console_scheme, unit) kop" where
  "printf fmt ap =
     kbind (kget panicking) (\<lambda>pk.
     kseq (kwhen (\<not> pk) (acquire PrLock))
    (kseq (put_chars (format fmt ap))
    (kbind (kget panicking) (\<lambda>pk. kwhen (\<not> pk) (release PrLock)))))"

text \<open>\<open>panic\<close> prints its message and never returns; the components write \<open>kpanic\<close> for a call of it.\<close>

definition panic :: "string \<Rightarrow> ('z console_scheme, 'a) kop" where
  "panic m =
     kseq (kmod (\<lambda>s. s\<lparr>panicking := True\<rparr>))
    (kseq (printf (ascii ''panic: '') [])
    (kseq (printf (ascii ''%s'' @ [10]) [VStr (Some (ascii m))])
    (kseq (kmod (\<lambda>s. s\<lparr>panicked := True\<rparr>)) (kpanic m))))"

definition printfinit :: "('z machine_scheme, unit) kop" where
  "printfinit = initlock PrLock ''pr''"

text \<open>\<open>procdump\<close>: one line per process in use.\<close>

fun state_name :: "procstate \<Rightarrow> string" where
  "state_name UNUSED = ''unused''"
| "state_name USED = ''used''"
| "state_name SLEEPING = ''sleep ''"
| "state_name RUNNABLE = ''runble''"
| "state_name RUNNING = ''run   ''"
| "state_name ZOMBIE = ''zombie''"

text \<open>The characters of a NUL-terminated array of at most \<open>n\<close>.\<close>

fun cstr_list :: "cstr \<Rightarrow> nat \<Rightarrow> uchar list" where
  "cstr_list s 0 = []"
| "cstr_list s (Suc n) = (if s 0 = 0 then [] else s 0 # cstr_list (\<lambda>i. s (Suc i)) n)"

definition procdump_one :: "nat \<Rightarrow> ('z console_scheme, unit) kop" where
  "procdump_one p =
     kbind (kget (\<lambda>s. ptab s p)) (\<lambda>q.
     kwhen (p_state q \<noteq> UNUSED)
       (kseq (printf (ascii ''%d %s %s'') [VWord (word_of_int (p_pid q)), VStr (Some (ascii (state_name (p_state q)))),
                VStr (Some (cstr_list (p_name q) 16))])
             (printf [10] [])))"

definition procdump :: "('z console_scheme, unit) kop" where
  "procdump = kseq (printf [10] []) (kfor [0..<NPROC] procdump_one)"

section \<open>Locks and the fields\<close>

lemma console_lock_simps [simp]:
  "uart_out (acquired l s) = uart_out s" "uart_wait (acquired l s) = uart_wait s" "uart_latency (acquired l s) = uart_latency s"
  "uart_in (acquired l s) = uart_in s" "tx_busy (acquired l s) = tx_busy s" "panicking (acquired l s) = panicking s"
  "panicked (acquired l s) = panicked s" "cons_buf (acquired l s) = cons_buf s" "cons_r (acquired l s) = cons_r s"
  "cons_w (acquired l s) = cons_w s" "cons_e (acquired l s) = cons_e s" "devsw (acquired l s) = devsw s"
  "uart_out (relock s) = uart_out s" "uart_wait (relock s) = uart_wait s" "uart_latency (relock s) = uart_latency s"
  "uart_in (relock s) = uart_in s" "tx_busy (relock s) = tx_busy s" "panicking (relock s) = panicking s"
  "panicked (relock s) = panicked s" "cons_buf (relock s) = cons_buf s" "cons_r (relock s) = cons_r s"
  "cons_w (relock s) = cons_w s" "cons_e (relock s) = cons_e s" "devsw (relock s) = devsw s"
  by (simp_all add: acquired_def pushed_def relock_def upd_lock_def)

lemma console_lock_upd [simp]:
  "(acquired l s)\<lparr>uart_out := a\<rparr> = acquired l (s\<lparr>uart_out := a\<rparr>)" "(relock s)\<lparr>uart_out := a\<rparr> = relock (s\<lparr>uart_out := a\<rparr>)"
  "(acquired l s)\<lparr>uart_wait := b\<rparr> = acquired l (s\<lparr>uart_wait := b\<rparr>)" "(relock s)\<lparr>uart_wait := b\<rparr> = relock (s\<lparr>uart_wait := b\<rparr>)"
  "(acquired l s)\<lparr>uart_in := c\<rparr> = acquired l (s\<lparr>uart_in := c\<rparr>)" "(relock s)\<lparr>uart_in := c\<rparr> = relock (s\<lparr>uart_in := c\<rparr>)"
  "(acquired l s)\<lparr>tx_busy := d\<rparr> = acquired l (s\<lparr>tx_busy := d\<rparr>)" "(relock s)\<lparr>tx_busy := d\<rparr> = relock (s\<lparr>tx_busy := d\<rparr>)"
  "(acquired l s)\<lparr>cons_buf := e\<rparr> = acquired l (s\<lparr>cons_buf := e\<rparr>)" "(relock s)\<lparr>cons_buf := e\<rparr> = relock (s\<lparr>cons_buf := e\<rparr>)"
  "(acquired l s)\<lparr>cons_r := f\<rparr> = acquired l (s\<lparr>cons_r := f\<rparr>)" "(relock s)\<lparr>cons_r := f\<rparr> = relock (s\<lparr>cons_r := f\<rparr>)"
  "(acquired l s)\<lparr>cons_w := f\<rparr> = acquired l (s\<lparr>cons_w := f\<rparr>)" "(relock s)\<lparr>cons_w := f\<rparr> = relock (s\<lparr>cons_w := f\<rparr>)"
  "(acquired l s)\<lparr>cons_e := f\<rparr> = acquired l (s\<lparr>cons_e := f\<rparr>)" "(relock s)\<lparr>cons_e := f\<rparr> = relock (s\<lparr>cons_e := f\<rparr>)"
  by (simp_all add: acquired_def pushed_def relock_def upd_lock_def)

lemma console_ready [simp]:
  "lock_idle l (s\<lparr>uart_out := a\<rparr>) = lock_idle l s" "cpu_ok (s\<lparr>uart_out := a\<rparr>) = cpu_ok s" "me (s\<lparr>uart_out := a\<rparr>) = me s"
  "lock_idle l (s\<lparr>uart_wait := b\<rparr>) = lock_idle l s" "cpu_ok (s\<lparr>uart_wait := b\<rparr>) = cpu_ok s" "me (s\<lparr>uart_wait := b\<rparr>) = me s"
  "lock_idle l (s\<lparr>uart_in := c\<rparr>) = lock_idle l s" "cpu_ok (s\<lparr>uart_in := c\<rparr>) = cpu_ok s" "me (s\<lparr>uart_in := c\<rparr>) = me s"
  "lock_idle l (s\<lparr>tx_busy := d\<rparr>) = lock_idle l s" "cpu_ok (s\<lparr>tx_busy := d\<rparr>) = cpu_ok s" "me (s\<lparr>tx_busy := d\<rparr>) = me s"
  "lock_idle l (s\<lparr>cons_buf := e\<rparr>) = lock_idle l s" "cpu_ok (s\<lparr>cons_buf := e\<rparr>) = cpu_ok s" "me (s\<lparr>cons_buf := e\<rparr>) = me s"
  "lock_idle l (s\<lparr>cons_r := f\<rparr>) = lock_idle l s" "cpu_ok (s\<lparr>cons_r := f\<rparr>) = cpu_ok s" "me (s\<lparr>cons_r := f\<rparr>) = me s"
  "lock_idle l (s\<lparr>cons_w := f\<rparr>) = lock_idle l s" "cpu_ok (s\<lparr>cons_w := f\<rparr>) = cpu_ok s" "me (s\<lparr>cons_w := f\<rparr>) = me s"
  "lock_idle l (s\<lparr>cons_e := f\<rparr>) = lock_idle l s" "cpu_ok (s\<lparr>cons_e := f\<rparr>) = cpu_ok s" "me (s\<lparr>cons_e := f\<rparr>) = me s"
  by (simp_all add: lock_idle_def cpu_ok_def cpu_defs me_def)

lemma console_ready' [simp]:
  "ready l (s\<lparr>uart_out := a\<rparr>) = ready l s" "ready l (s\<lparr>uart_wait := b\<rparr>) = ready l s" "ready l (s\<lparr>uart_in := c\<rparr>) = ready l s"
  "ready l (s\<lparr>tx_busy := d\<rparr>) = ready l s" "ready l (s\<lparr>cons_buf := e\<rparr>) = ready l s" "ready l (s\<lparr>cons_r := f\<rparr>) = ready l s"
  "ready l (s\<lparr>cons_w := f\<rparr>) = ready l s" "ready l (s\<lparr>cons_e := f\<rparr>) = ready l s"
  by (simp_all add: ready_def)

section \<open>What is printed\<close>

definition printed :: "uchar list \<Rightarrow> 'z console_scheme \<Rightarrow> 'z console_scheme" where
  "printed cs s = s\<lparr>uart_out := uart_out s @ map (Pair THR) cs, uart_wait := (if cs = [] then uart_wait s else uart_latency s)\<rparr>"

lemma LSR_TX_IDLE_eval: "LSR_TX_IDLE s = Done (uart_wait s = 0) (s\<lparr>uart_wait := uart_wait s - 1\<rparr>)"
  by (simp add: LSR_TX_IDLE_def)

lemma uart_poll_ends: "uart_wait s < k \<Longrightarrow> uart_poll k s = Done () (s\<lparr>uart_wait := 0\<rparr>)"
proof (induction k arbitrary: s)
  case (Suc k)
  show ?case
  proof (cases "uart_wait s")
    case 0
    then show ?thesis by (simp add: LSR_TX_IDLE_eval)
  next
    case (Suc w)
    then have "uart_poll k (s\<lparr>uart_wait := w\<rparr>) = Done () (s\<lparr>uart_wait := 0\<rparr>)" using Suc.IH [of "s\<lparr>uart_wait := w\<rparr>"] Suc.prems by simp
    then show ?thesis using Suc by (simp add: LSR_TX_IDLE_eval kbind_def)
  qed
qed simp

lemma pushed_console [simp]:
  "panicking (pushed s) = panicking s" "panicked (pushed s) = panicked s" "uart_wait (pushed s) = uart_wait s"
  "uart_out (pushed s) = uart_out s" "uart_latency (pushed s) = uart_latency s"
  "(pushed s)\<lparr>uart_wait := w\<rparr> = pushed (s\<lparr>uart_wait := w\<rparr>)" "(pushed s)\<lparr>uart_out := a\<rparr> = pushed (s\<lparr>uart_out := a\<rparr>)"
  by (simp_all add: pushed_def)

lemma consputc_eval:
  assumes "\<not> panicking s" "\<not> panicked s" "cpu_ok s"
  shows "consputc (uint (c :: uchar)) s = Done () (relock (printed [c] s))"
proof -
  have "uint c < 256" using uint_bounded [of c] by simp
  then have "uint c \<noteq> BACKSPACE" by (simp add: BACKSPACE_def)
  then show ?thesis
    using assms uart_poll_ends [of "pushed s" "Suc (uart_wait s)"] pop_off_pushed [of "printed [c] s"]
    by (simp add: consputc_def uartputc_sync_def push_off_pushed WriteReg_def THR_def printed_def del: uart_poll.simps)
qed

lemma printed_simps [simp]:
  "cpu_ok (printed cs s) = cpu_ok s" "lock_idle l (printed cs s) = lock_idle l s" "ready l (printed cs s) = ready l s"
  "me (printed cs s) = me s" "panicking (printed cs s) = panicking s" "panicked (printed cs s) = panicked s"
  "printed cs (acquired l s) = acquired l (printed cs s)" "printed cs (relock s) = relock (printed cs s)"
  "printed ds (printed cs s) = printed (cs @ ds) s" "printed [] s = s" "uart_out (printed cs s) = uart_out s @ map (Pair THR) cs"
  by (simp_all add: printed_def)

lemma put_chars_locked:
  assumes "\<not> panicking s" "\<not> panicked s"
  shows "put_chars cs (acquired l s) = Done () (acquired l (printed cs s))"
  using assms
proof (induction cs arbitrary: s)
  case (Cons c cs)
  then show ?case
    using consputc_eval [of "acquired l s" c] Cons.IH [of "printed [c] s"] by (simp add: put_chars_def)
qed (simp add: put_chars_def)

lemma printf_eval:
  assumes "ready PrLock s" "\<not> panicking s" "\<not> panicked s"
  shows "printf fmt ap s = Done () (relock (printed (format fmt ap) s))"
  using assms put_chars_locked [of s "format fmt ap" PrLock] by (simp add: printf_def)

section \<open>Numbers as printed\<close>

text \<open>Reading a numeral back.\<close>

definition digit_val :: "uchar \<Rightarrow> nat" where
  "digit_val c = (if unat c < 58 then unat c - 48 else unat c - 87)"

definition read_num :: "nat \<Rightarrow> uchar list \<Rightarrow> nat" where
  "read_num base cs = foldl (\<lambda>v c. digit_val c + base * v) 0 cs"

definition read_int :: "uchar list \<Rightarrow> int" where
  "read_int cs = (if cs \<noteq> [] \<and> hd cs = chr CHR ''-'' then - int (read_num 10 (tl cs)) else int (read_num 10 cs))"

lemma digit_char_all: "\<forall>d < 16. digit_val (digit_char d) = d \<and> digit_char d \<noteq> chr CHR ''-''"
proof -
  have "\<forall>d \<in> set [0..<16]. digit_val (digit_char d) = d \<and> digit_char d \<noteq> chr CHR ''-''"
    by (simp add: upt_rec digit_val_def digit_char_def ascii_def chr_def)
  then show ?thesis by simp
qed

lemma digit_val_char: "d < 16 \<Longrightarrow> digit_val (digit_char d) = d"
  using digit_char_all by blast

declare printint_digits.simps [simp del]

lemma printint_digits_value:
  assumes "2 \<le> base" "base \<le> 16"
  shows "foldr (\<lambda>c v. digit_val c + base * v) (printint_digits base x) 0 = x"
proof (induction x rule: less_induct)
  case (less x)
  have "x mod base < base" using assms(1) by simp
  then have m: "digit_val (digit_char (x mod base)) = x mod base" using assms(2) by (intro digit_val_char) simp
  show ?case
  proof (cases "x div base = 0")
    case True
    then have "x mod base = x" using div_mult_mod_eq [of x base] by simp
    then show ?thesis using m True by (subst printint_digits.simps) simp
  next
    case False
    then have "0 < x" by (cases x) auto
    then have "x div base < x" using assms(1) by (intro div_less_dividend) simp_all
    from less.IH [OF this] show ?thesis using m False assms(1) by (subst printint_digits.simps) simp
  qed
qed

lemma printint_digits_chars:
  assumes "2 \<le> base" "base \<le> 16"
  shows "set (printint_digits base x) \<subseteq> digit_char ` {0..<16} \<and> printint_digits base x \<noteq> []"
proof (induction x rule: less_induct)
  case (less x)
  have "x mod base < base" using assms(1) by simp
  then have m: "x mod base < 16" using assms(2) by simp
  show ?case
  proof (cases "x div base = 0")
    case True
    then show ?thesis using m by (subst (1 2) printint_digits.simps) simp
  next
    case False
    then have "0 < x" by (cases x) auto
    then have "x div base < x" using assms(1) by (intro div_less_dividend) simp_all
    from less.IH [OF this] show ?thesis using m False assms(1) by (subst (1 2) printint_digits.simps) simp
  qed
qed

lemma read_num_printint:
  assumes "2 \<le> base" "base \<le> 16"
  shows "read_num base (rev (printint_digits base x)) = x"
  using printint_digits_value [OF assms, of x] by (simp add: read_num_def foldr_conv_foldl)

lemma printint_digits_length: "2 \<le> base \<Longrightarrow> x < base ^ n \<Longrightarrow> 0 < n \<Longrightarrow> length (printint_digits base x) \<le> n"
proof (induction n arbitrary: x)
  case (Suc n)
  show ?case
  proof (cases "x div base = 0")
    case True
    then show ?thesis by (subst printint_digits.simps) simp
  next
    case False
    have "x div base < base ^ n" using Suc.prems(1,2) by (simp add: less_mult_imp_div_less mult.commute)
    moreover from this False have "0 < n" by (cases n) auto
    ultimately show ?thesis using Suc.IH [of "x div base"] Suc.prems(1) False by (subst printint_digits.simps) simp
  qed
qed simp

lemma uint_of_sint: "0 \<le> k \<Longrightarrow> k < 2 ^ 64 \<Longrightarrow> uint (word_of_int k :: uint64) = k"
  by (simp add: uint_word_of_int)

lemma unat_neg_sint:
  assumes "sint (x :: uint64) < 0"
  shows "int (unat (- x)) = - sint x" "unat (- x) \<le> 2 ^ 63"
proof -
  have le: "- sint x \<le> 2 ^ 63" using sint_greater_eq [of x] by simp
  have "- x = word_of_int (- sint x)" by simp
  then have u: "uint (- x) = - sint x" using uint_of_sint [of "- sint x"] le assms by simp
  show "int (unat (- x)) = - sint x" using u by simp
  then show "unat (- x) \<le> 2 ^ 63" using le by (metis of_nat_le_iff of_nat_numeral of_nat_power)
qed

lemma unat_nonneg_sint: "0 \<le> sint (x :: uint64) \<Longrightarrow> int (unat x) = sint x"
  using uint_of_sint [of "sint x"] sint_less [of x] by simp

section \<open>Properties\<close>

text \<open>
  C20. \<open>printint\<close> prints what it is given: read back as a numeral, the signed decimal form is the
  64-bit argument as a signed number, and the unsigned decimal and hexadecimal forms are it as an
  unsigned one. The number of characters never exceeds the 20 bytes of its buffer.
\<close>

theorem printint_roundtrip:
  "read_int (printint_chars xx 10 True) = sint xx \<and> length (printint_chars xx 10 True) \<le> 20
   \<and> read_num 10 (printint_chars xx 10 False) = unat xx \<and> length (printint_chars xx 10 False) \<le> 20
   \<and> read_num 16 (printint_chars xx 16 False) = unat xx \<and> length (printint_chars xx 16 False) \<le> 20"
proof -
  have b: "unat xx < 10 ^ 20" "unat xx < 16 ^ 20" using unat_bound64 [of xx] by simp_all
  have u: "read_num 10 (printint_chars xx 10 False) = unat xx" "length (printint_chars xx 10 False) \<le> 20"
     "read_num 16 (printint_chars xx 16 False) = unat xx" "length (printint_chars xx 16 False) \<le> 20"
    using read_num_printint [of 10 "unat xx"] read_num_printint [of 16 "unat xx"]
      printint_digits_length [of 10 "unat xx" 20] printint_digits_length [of 16 "unat xx" 20] b
    by (simp_all add: printint_chars_def)
  have "read_int (printint_chars xx 10 True) = sint xx \<and> length (printint_chars xx 10 True) \<le> 20"
  proof (cases "sint xx < 0")
    case True
    note n = unat_neg_sint [OF True]
    have "unat (- xx) < 10 ^ 19" using n(2) by simp
    then have "length (printint_digits 10 (unat (- xx))) \<le> 19" using printint_digits_length [of 10 "unat (- xx)" 19] by simp
    then show ?thesis using True n(1) read_num_printint [of 10 "unat (- xx)"]
      by (simp add: printint_chars_def read_int_def ascii_def chr_def)
  next
    case False
    have "hd (rev (printint_digits 10 (unat xx))) \<noteq> chr CHR ''-''"
      using printint_digits_chars [of 10 "unat xx"] digit_char_all hd_in_set [of "rev (printint_digits 10 (unat xx))"] by auto
    moreover have "int (unat xx) = sint xx" using False by (intro unat_nonneg_sint) simp
    ultimately show ?thesis using False u read_num_printint [of 10 "unat xx"] by (simp add: printint_chars_def read_int_def)
  qed
  with u show ?thesis by blast
qed


definition sample_console :: console where
  "sample_console = proctab.extend sample_system \<lparr>uart_out = [], uart_in = [], uart_wait = 3, uart_latency = 5, tx_busy = False,
     panicking = False, panicked = False, cons_buf = (\<lambda>_. 0), cons_r = 0, cons_w = 0, cons_e = 0,
     devsw = (\<lambda>_. \<lparr>dev_read = None, dev_write = None\<rparr>)\<rparr>"


end
