(* ===== verification/Ring.thy ===== *)
theory Ring
  imports Prelude
begin

text \<open>
  Byte queues kept in a circular array with free-running 32-bit counters: the pipe's
  \<^verbatim>\<open>data\<close>, \<^verbatim>\<open>nread\<close> and \<^verbatim>\<open>nwrite\<close> (\<^verbatim>\<open>kernel/pipe.c\<close>) and the console's \<^verbatim>\<open>buf\<close>, \<^verbatim>\<open>r\<close> and \<^verbatim>\<open>w\<close>
  (\<^verbatim>\<open>kernel/console.c\<close>). The locale states what the users rely on; the two interpretations are for
  the two sizes. The counters wrap around at \<open>2 ^ 32\<close>, which the sizes divide.
\<close>

type_synonym ring_state = "(nat \<Rightarrow> uchar) \<times> uint \<times> uint"

definition ring_contents :: "nat \<Rightarrow> ring_state \<Rightarrow> uchar list" where
  "ring_contents N = (\<lambda>(buf, r, w). map (\<lambda>i. buf (unat (r + of_nat i) mod N)) [0..<unat (w - r)])"

definition ring_push :: "nat \<Rightarrow> uchar \<Rightarrow> ring_state \<Rightarrow> ring_state" where
  "ring_push N c = (\<lambda>(buf, r, w). (buf(unat w mod N := c), r, w + 1))"

definition ring_pop :: "nat \<Rightarrow> ring_state \<Rightarrow> uchar \<times> ring_state" where
  "ring_pop N = (\<lambda>(buf, r, w). (buf (unat r mod N), buf, r + 1, w))"

section \<open>The interface\<close>

locale byte_queue =
  fixes cap :: nat
    and list :: "'q \<Rightarrow> uchar list"
    and push :: "uchar \<Rightarrow> 'q \<Rightarrow> 'q"
    and pop :: "'q \<Rightarrow> uchar \<times> 'q"
  assumes push_law: "length (list q) < cap \<Longrightarrow> list (push c q) = list q @ [c]"
    and pop_law: "list q \<noteq> [] \<Longrightarrow> list q = fst (pop q) # list (snd (pop q))"
begin

text \<open>Pushing as many bytes as fit, and popping as many as there are.\<close>

fun push_list :: "uchar list \<Rightarrow> 'q \<Rightarrow> 'q" where
  "push_list [] q = q"
| "push_list (c # cs) q = push_list cs (push c q)"

fun pop_list :: "nat \<Rightarrow> 'q \<Rightarrow> uchar list \<times> 'q" where
  "pop_list 0 q = ([], q)"
| "pop_list (Suc n) q = (let (c, q) = pop q; (cs, q) = pop_list n q in (c # cs, q))"

lemma push_list_law: "length (list q) + length cs \<le> cap \<Longrightarrow> list (push_list cs q) = list q @ cs"
  by (induction cs arbitrary: q) (simp_all add: push_law)

lemma pop_list_law: "n \<le> length (list q) \<Longrightarrow> fst (pop_list n q) = take n (list q) \<and> list (snd (pop_list n q)) = drop n (list q)"
proof (induction n arbitrary: q)
  case (Suc n)
  then have ne: "list q \<noteq> []" by auto
  obtain c q' where q': "pop q = (c, q')" by fastforce
  then have l: "list q = c # list q'" using pop_law [OF ne] by simp
  then show ?case using Suc.IH [of q'] Suc.prems q' by (simp add: split_beta)
qed simp

lemma fifo:
  assumes "length (list q) + length cs \<le> cap" "n = length (list q) + length cs"
  shows "fst (pop_list n (push_list cs q)) = list q @ cs"
  using pop_list_law [of n "push_list cs q"] push_list_law [OF assms(1)] assms(2) by simp

end

section \<open>The circular array\<close>

lemma length_ring_contents [simp]: "length (ring_contents N (buf, r, w)) = unat (w - r)"
  by (simp add: ring_contents_def)

lemma ring_push_contents:
  assumes "N dvd 4294967296" "0 < N" "N < 4294967296" and len: "unat (w - r) < N"
  shows "ring_contents N (ring_push N c (buf, r, w)) = ring_contents N (buf, r, w) @ [c]"
proof -
  have s: "unat (w + 1 - r) = Suc (unat (w - r))"
  proof -
    have d: "w + 1 - r = (w - r) + 1" by simp
    have "unat (w - r) + 1 < 4294967296" using assms(3) len by simp
    then show ?thesis unfolding d unat_word_ariths by simp
  qed
  have w: "r + of_nat (unat (w - r)) = w" by simp
  have ne: "unat (r + of_nat i) mod N \<noteq> unat w mod N" if "i < unat (w - r)" for i
  proof
    assume "unat (r + of_nat i) mod N = unat w mod N"
    moreover have "unat (r + of_nat i) mod N = (unat r + i) mod N"
    proof -
      have "unat (of_nat i :: uint) = i" using that unat_bound32 [of "w - r"] by (intro unat_of_nat_small) simp
      then have "unat (r + of_nat i) = (unat r + i) mod 4294967296" using unat_word_ariths(1) [of r "of_nat i"] by simp
      then show ?thesis using assms(1) by (simp add: mod_mod_cancel)
    qed
    moreover have "unat w mod N = (unat r + unat (w - r)) mod N"
    proof -
      have "unat w = (unat r + unat (w - r)) mod 4294967296" using unat_word_ariths(1) [of r "w - r"] by simp
      then show ?thesis using assms(1) by (simp add: mod_mod_cancel)
    qed
    ultimately have "(unat r + i) mod N = (unat r + unat (w - r)) mod N" by simp
    then have "N dvd (unat r + unat (w - r)) - (unat r + i)" 
      using that mod_eq_dvd_iff_nat [of "unat r + i" "unat r + unat (w - r)" N] by (metis add_le_cancel_left less_imp_le)
    then have "N dvd unat (w - r) - i" by simp
    then have "N \<le> unat (w - r) - i" using that by (intro dvd_imp_le) simp_all
    then show False using len by simp
  qed
  show ?thesis using s w ne by (auto simp: ring_contents_def ring_push_def)
qed

lemma ring_pop_contents:
  assumes "w \<noteq> r"
  shows "ring_contents N (buf, r, w) = fst (ring_pop N (buf, r, w)) # ring_contents N (snd (ring_pop N (buf, r, w)))"
proof -
  have "unat (w - r) \<noteq> 0" using assms by (simp add: unat_eq_0)
  then obtain k where k: "unat (w - r) = Suc k" by (cases "unat (w - r)") auto
  have d: "w - (r + 1) = (w - r) - 1" by simp
  have "unat (w - (r + 1)) = k" unfolding d using k unat_minus_1 [of "w - r"] assms by simp
  moreover have "r + of_nat (Suc i) = (r + 1) + of_nat i" for i by simp
  ultimately show ?thesis
    by (simp add: ring_contents_def ring_pop_def k upt_conv_Cons map_Suc_upt [symmetric] comp_def add.assoc del: upt_Suc of_nat_Suc)
qed

lemma ring_unpush_contents:
  assumes "w \<noteq> r"
  shows "ring_contents N (buf, r, w - 1) = butlast (ring_contents N (buf, r, w))"
proof -
  have d: "w - 1 - r = (w - r) - 1" by simp
  have "unat (w - 1 - r) = unat (w - r) - 1" unfolding d using unat_minus_1 [of "w - r"] assms by simp
  moreover obtain k where "unat (w - r) = Suc k" using assms by (cases "unat (w - r)") (auto simp: unat_eq_0)
  ultimately show ?thesis by (simp add: ring_contents_def)
qed

lemma ring_contents_append:
  assumes "unat (w - r) \<le> unat (e - r)"
  shows "ring_contents N (buf, r, e) = ring_contents N (buf, r, w) @ ring_contents N (buf, w, e)"
proof -
  let ?a = "unat (w - r)" and ?b = "unat (e - w)"
  have "e - w = (e - r) - (w - r)" by simp
  moreover have "unat ((e - r) - (w - r)) = unat (e - r) - ?a" using assms by (intro unat_sub_le) (simp add: word_le_nat_alt)
  ultimately have e: "unat (e - r) = ?a + ?b" using assms by simp
  have "r + of_nat (?a + i) = w + of_nat i" for i by simp
  then have m: "map (\<lambda>i. buf (unat (r + of_nat i) mod N)) [?a..<?a + ?b] = map (\<lambda>i. buf (unat (w + of_nat i) mod N)) [0..<?b]"
    by (intro nth_equalityI) (simp_all del: of_nat_add)
  show ?thesis unfolding ring_contents_def prod.case e upt_add_eq_append [OF le0] map_append m ..
qed

lemma ring_contents_last:
  assumes "w \<noteq> r"
  shows "last (ring_contents N (buf, r, w)) = buf (unat (w - 1) mod N)"
proof -
  have "unat (w - r) \<noteq> 0" using assms by (simp add: unat_eq_0)
  then have "r + of_nat (unat (w - r) - 1) = w - 1" by (simp add: of_nat_diff)
  then show ?thesis using \<open>unat (w - r) \<noteq> 0\<close> by (simp add: ring_contents_def last_map)
qed

lemma ring_queue:
  assumes "N dvd 4294967296" "0 < N" "N < 4294967296"
  shows "byte_queue N (ring_contents N) (ring_push N) (ring_pop N)"
proof
  fix q :: ring_state and c
  obtain buf r w where q: "q = (buf, r, w)" by (cases q) auto
  show "length (ring_contents N q) < N \<Longrightarrow> ring_contents N (ring_push N c q) = ring_contents N q @ [c]"
    using ring_push_contents [OF assms] by (simp add: q)
  show "ring_contents N q \<noteq> [] \<Longrightarrow> ring_contents N q = fst (ring_pop N q) # ring_contents N (snd (ring_pop N q))"
    using ring_pop_contents [of w r N buf] by (cases "w = r") (simp_all add: q ring_contents_def)
qed

end
