(* ===== verification/Console.thy ===== *)
theory Console
  imports Uart Ring
begin

text \<open>
  \<^verbatim>\<open>kernel/console.c\<close>: console input with line editing, and the UART's interrupt handler
  \<^verbatim>\<open>uartintr\<close> of \<^verbatim>\<open>kernel/uart.c\<close>. The input buffer is a circular array with three free-running
  counters: \<open>cons_r\<close>, \<open>cons_w\<close> and \<open>cons_e\<close> delimit the lines waiting for \<open>consoleread\<close> and the line
  being edited.
\<close>

section \<open>Operations\<close>

definition INPUT_BUF_SIZE :: nat where "INPUT_BUF_SIZE = 128"

definition CONSOLE :: nat where "CONSOLE = 1"

text \<open>Control characters, and the others the code names.\<close>

definition ctrl :: "char \<Rightarrow> int" where "ctrl x = of_char x - 64"

text \<open>
  \<open>consolewrite\<close> copies at most 32 bytes at a time; \<open>i\<close> is what has been sent. Every turn sends at
  least one byte, so \<open>n + 1\<close> turns are enough.
\<close>

fun consolewrite_loop :: "nat \<Rightarrow> bool \<Rightarrow> uint64 \<Rightarrow> nat \<Rightarrow> nat \<Rightarrow> ('z console_scheme, int) kop" where
  "consolewrite_loop 0 user_src src i n = (\<lambda>_. Diverge)"
| "consolewrite_loop (Suc k) user_src src i n =
     (if i < n
      then let nn = min 32 (n - i) in
        kbind (either_copyin user_src (src + of_nat i) nn) (\<lambda>(r, buf).
        if r = -1 then kret (int i)
        else kseq (uartwrite buf) (consolewrite_loop k user_src src (i + nn) n))
      else kret (int i))"

definition consolewrite :: "bool \<Rightarrow> uint64 \<Rightarrow> int \<Rightarrow> ('z console_scheme, int) kop" where
  "consolewrite user_src src n = consolewrite_loop (nat n + 1) user_src src 0 (nat n)"

text \<open>
  \<open>consoleread\<close> sleeps, with the lock given up, until a line is there. \<open>consoleread_loop\<close> is the loop
  with the \<open>n\<close> bytes still wanted; a woken process continues there with \<open>consoleread_resume\<close>.
\<close>

fun consoleread_loop :: "bool \<Rightarrow> uint64 \<Rightarrow> nat \<Rightarrow> uint \<Rightarrow> ('z console_scheme, int) kop" where
  "consoleread_loop user_dst dst 0 target = kseq (release ConsLock) (kret (sint target))"
| "consoleread_loop user_dst dst (Suc n) target =
     kbind (kget (\<lambda>s. cons_r s = cons_w s)) (\<lambda>empty.
     if empty
     then kbind (with_myproc killed) (\<lambda>k.
          if k \<noteq> 0 then kseq (release ConsLock) (kret (-1))
          else kseq (sleep ConsR ConsLock) (kret 0))
     else
       kbind (kget (\<lambda>s. cons_buf s (unat (cons_r s) mod INPUT_BUF_SIZE))) (\<lambda>c.
       kseq (kmod (\<lambda>s. s\<lparr>cons_r := cons_r s + 1\<rparr>))
      (if uint c = ctrl CHR ''D''
       then kseq (kwhen (of_nat (Suc n) < target) (kmod (\<lambda>s. s\<lparr>cons_r := cons_r s - 1\<rparr>)))
           (kseq (release ConsLock) (kret (sint (target - of_nat (Suc n)))))
       else
         kbind (either_copyout user_dst dst [c]) (\<lambda>r.
         if r = -1 then kseq (release ConsLock) (kret (sint (target - of_nat (Suc n))))
         else if c = 10 then kseq (release ConsLock) (kret (sint (target - of_nat n)))
         else consoleread_loop user_dst (dst + 1) n target))))"

definition consoleread :: "bool \<Rightarrow> uint64 \<Rightarrow> int \<Rightarrow> ('z console_scheme, int) kop" where
  "consoleread user_dst dst n =
     kseq (acquire ConsLock)
    (if 0 < n then consoleread_loop user_dst dst (nat n) (word_of_int n)
     else kseq (release ConsLock) (kret 0))"

definition consoleread_resume :: "bool \<Rightarrow> uint64 \<Rightarrow> nat \<Rightarrow> uint \<Rightarrow> bool \<Rightarrow> ('z console_scheme, int) kop" where
  "consoleread_resume user_dst dst n target ena =
     kseq (sleep_resume ConsLock ena) (consoleread_loop user_dst dst n target)"

text \<open>The loop that kills the line being edited; it takes back at most \<open>cons_e - cons_w\<close> characters.\<close>

fun kill_line :: "nat \<Rightarrow> ('z console_scheme, unit) kop" where
  "kill_line 0 = (\<lambda>_. Diverge)"
| "kill_line (Suc k) =
     kbind (kget (\<lambda>s. cons_e s \<noteq> cons_w s \<and> cons_buf s (unat (cons_e s - 1) mod INPUT_BUF_SIZE) \<noteq> 10)) (\<lambda>go.
     if go then kseq (kmod (\<lambda>s. s\<lparr>cons_e := cons_e s - 1\<rparr>)) (kseq (consputc BACKSPACE) (kill_line k))
     else kret ())"

definition consoleintr :: "int \<Rightarrow> ('z console_scheme, unit) kop" where
  "consoleintr c =
     kseq (acquire ConsLock)
    (kseq
      (if c = ctrl CHR ''P'' then procdump
       else if c = ctrl CHR ''U'' then kbind (kget (\<lambda>s. unat (cons_e s - cons_w s))) (\<lambda>k. kill_line (k + 1))
       else if c = ctrl CHR ''H'' \<or> c = 0x7F
       then kbind (kget (\<lambda>s. cons_e s \<noteq> cons_w s)) (\<lambda>b.
            kwhen b (kseq (kmod (\<lambda>s. s\<lparr>cons_e := cons_e s - 1\<rparr>)) (consputc BACKSPACE)))
       else kbind (kget (\<lambda>s. unat (cons_e s - cons_r s) < INPUT_BUF_SIZE)) (\<lambda>fits.
            kwhen (c \<noteq> 0 \<and> fits)
             (let c = (if c = 13 then 10 else c) in
              kseq (consputc c)
             (kseq (kmod (\<lambda>s. s\<lparr>cons_buf := (cons_buf s)(unat (cons_e s) mod INPUT_BUF_SIZE := word_of_int c)\<rparr>))
             (kseq (kmod (\<lambda>s. s\<lparr>cons_e := cons_e s + 1\<rparr>))
             (kbind (kget (\<lambda>s. unat (cons_e s - cons_r s) = INPUT_BUF_SIZE)) (\<lambda>full.
              kwhen (c = 10 \<or> c = ctrl CHR ''D'' \<or> full)
                (kseq (kmod (\<lambda>s. s\<lparr>cons_w := cons_e s\<rparr>)) (wakeup ConsR)))))))))
      (release ConsLock))"

text \<open>The handler reads every byte that has arrived; reading takes one byte away from the device.\<close>

fun uartintr_loop :: "nat \<Rightarrow> ('z console_scheme, unit) kop" where
  "uartintr_loop 0 = (\<lambda>_. Diverge)"
| "uartintr_loop (Suc k) =
     kbind uartgetc (\<lambda>c. if c = -1 then kret () else kseq (consoleintr c) (uartintr_loop k))"

definition uartintr :: "('z console_scheme, unit) kop" where
  "uartintr =
     kseq (acquire TxLock)
    (kbind LSR_TX_IDLE (\<lambda>idle.
     kseq (kwhen idle (kseq (kmod (\<lambda>s. s\<lparr>tx_busy := False\<rparr>)) (wakeup TxChan)))
    (kseq (release TxLock)
          (kbind (kget (\<lambda>s. length (uart_in s))) (\<lambda>k. uartintr_loop (k + 1))))))"

definition consoleinit :: "('z console_scheme, unit) kop" where
  "consoleinit =
     kseq (initlock ConsLock ''cons'')
    (kseq uartinit
          (kmod (\<lambda>s. s\<lparr>devsw := (devsw s)(CONSOLE := \<lparr>dev_read = Some CONSOLEREAD, dev_write = Some CONSOLEWRITE\<rparr>)\<rparr>)))"

section \<open>The line discipline\<close>

text \<open>
  The specification: the bytes of finished lines that \<open>consoleread\<close> may take, and the line being
  edited. \<open>console_spec\<close> is what one input character does to them.
\<close>

type_synonym lines = "uchar list \<times> uchar list"

fun console_spec :: "uchar \<Rightarrow> lines \<Rightarrow> lines" where
  "console_spec c (com, ed) =
     (if uint c = ctrl CHR ''P'' then (com, ed)
      else if uint c = ctrl CHR ''U'' then (com, rev (dropWhile (\<lambda>c. c \<noteq> 10) (rev ed)))
      else if uint c = ctrl CHR ''H'' \<or> c = 0x7F then (com, butlast ed)
      else if c = 0 \<or> 128 \<le> length com + length ed then (com, ed)
      else let c = (if c = 13 then 10 else c) in
           if c = 10 \<or> uint c = ctrl CHR ''D'' \<or> length com + length ed = 127 then (com @ ed @ [c], [])
           else (com, ed @ [c]))"

definition input :: "'z console_scheme \<Rightarrow> uchar list" where
  "input s = ring_contents 128 (cons_buf s, cons_r s, cons_e s)"

definition lines :: "'z console_scheme \<Rightarrow> lines" where
  "lines s = (let k = unat (cons_w s - cons_r s) in (take k (input s), drop k (input s)))"

definition cons_inv :: "'z console_scheme \<Rightarrow> bool" where
  "cons_inv s \<longleftrightarrow> unat (cons_w s - cons_r s) \<le> unat (cons_e s - cons_r s) \<and> unat (cons_e s - cons_r s) \<le> 128"

interpretation consq: byte_queue 128 "ring_contents 128" "ring_push 128" "ring_pop 128"
  by (rule ring_queue) simp_all

lemma length_input [simp]: "length (input s) = unat (cons_e s - cons_r s)"
  by (simp add: input_def)

text \<open>The states an interrupt handler starts in: no lock is held and the kernel has not panicked.\<close>

definition irq_ok :: "'z console_scheme \<Rightarrow> bool" where
  "irq_ok s \<longleftrightarrow> cpu_ok s \<and> (\<forall>l. lock_idle l s) \<and> \<not> panicking s \<and> \<not> panicked s"

lemma irq_okD: "irq_ok s \<Longrightarrow> cpu_ok s" "irq_ok s \<Longrightarrow> lock_idle l s" "irq_ok s \<Longrightarrow> ready l s"
  "irq_ok s \<Longrightarrow> \<not> panicking s" "irq_ok s \<Longrightarrow> \<not> panicked s" "irq_ok s \<Longrightarrow> procs_ready s"
  unfolding irq_ok_def ready_def procs_ready_def by blast+

definition same_cons :: "'z console_scheme \<Rightarrow> 'z console_scheme \<Rightarrow> bool" where
  "same_cons s t \<longleftrightarrow> cons_buf t = cons_buf s \<and> cons_r t = cons_r s \<and> cons_w t = cons_w s \<and> cons_e t = cons_e s"

lemma printed_cons [simp]:
  "cons_buf (printed cs s) = cons_buf s" "cons_r (printed cs s) = cons_r s" "cons_w (printed cs s) = cons_w s"
  "cons_e (printed cs s) = cons_e s" "irq_ok (printed cs s) = irq_ok s"
  "(printed cs s)\<lparr>cons_e := e\<rparr> = printed cs (s\<lparr>cons_e := e\<rparr>)" "(printed cs s)\<lparr>cons_buf := b\<rparr> = printed cs (s\<lparr>cons_buf := b\<rparr>)"
  by (simp_all add: printed_def irq_ok_def)

lemma irq_ok_upd [simp]:
  "irq_ok (s\<lparr>cons_e := e\<rparr>) = irq_ok s" "irq_ok (s\<lparr>cons_w := e\<rparr>) = irq_ok s" "irq_ok (s\<lparr>cons_buf := b\<rparr>) = irq_ok s"
  "irq_ok (relock s) = irq_ok s"
  by (simp_all add: irq_ok_def)

lemma uartputc_sync_locked:
  assumes "irq_ok s"
  shows "uartputc_sync (uint (c :: uchar)) (acquired l s) = Done () (acquired l (printed [c] s))"
proof -
  have "uint c \<noteq> BACKSPACE" using uint_bounded [of c] by (simp add: BACKSPACE_def)
  then show ?thesis using consputc_eval [of "acquired l s" c] irq_okD [OF assms] by (simp add: consputc_def)
qed

lemma put_backspace: "irq_ok s \<Longrightarrow> consputc BACKSPACE (acquired l s) = Done () (acquired l (printed [8, 32, 8] s))"
  using uartputc_sync_locked [of s 8 l] uartputc_sync_locked [of "printed [8] s" 32 l] uartputc_sync_locked [of "printed [8, 32] s" 8 l]
  by (simp add: consputc_def)

lemma printf_locked:
  assumes "irq_ok s" "l \<noteq> PrLock"
  shows "printf fmt ap (acquired l s) = Done () (acquired l (printed (format fmt ap) s))"
  using printf_eval [of "acquired l s"] irq_okD [OF assms(1)] assms(2) by simp

lemma procdump_one_locked:
  assumes "irq_ok s"
  shows "\<exists>cs. procdump_one p (acquired ConsLock s) = Done () (acquired ConsLock (printed cs s))"
proof (cases "p_state (ptab s p) = UNUSED")
  case True
  then have "procdump_one p (acquired ConsLock s) = Done () (acquired ConsLock (printed [] s))" by (simp add: procdump_one_def)
  then show ?thesis by blast
next
  case False
  then show ?thesis using assms by (auto simp: procdump_one_def printf_locked)
qed

lemma procdump_locked:
  assumes "irq_ok s"
  shows "\<exists>cs. procdump (acquired ConsLock s) = Done () (acquired ConsLock (printed cs s))"
proof -
  have loop: "\<exists>cs. kfor ps procdump_one (acquired ConsLock t) = Done () (acquired ConsLock (printed cs t))"
    if "irq_ok t" for ps and t :: "'a console_scheme"
    using that
  proof (induction ps arbitrary: t)
    case Nil
    have "kfor [] procdump_one (acquired ConsLock t) = Done () (acquired ConsLock (printed [] t))" by simp
    then show ?case by blast
  next
    case (Cons p ps)
    obtain cs where cs: "procdump_one p (acquired ConsLock t) = Done () (acquired ConsLock (printed cs t))"
      using procdump_one_locked [OF Cons.prems] by blast
    from Cons.IH [of "printed cs t"] Cons.prems show ?case by (auto simp: cs)
  qed
  from loop [of "printed (format [10] []) s" "[0..<NPROC]"] assms show ?thesis
    using printf_locked [OF assms, of ConsLock "[10]" "[]"] by (auto simp: procdump_def)
qed

lemma kill_line_eval:
  assumes "irq_ok s" "unat (cons_e s - cons_w s) < k"
  shows "\<exists>cs e. kill_line k (acquired ConsLock s) = Done () (acquired ConsLock (printed cs (s\<lparr>cons_e := e\<rparr>)))
    \<and> unat (e - cons_w s) \<le> unat (cons_e s - cons_w s)
    \<and> ring_contents 128 (cons_buf s, cons_w s, e) =
        rev (dropWhile (\<lambda>c. c \<noteq> 10) (rev (ring_contents 128 (cons_buf s, cons_w s, cons_e s))))"
  using assms
proof (induction k arbitrary: s)
  case (Suc k)
  let ?l = "ring_contents 128 (cons_buf s, cons_w s, cons_e s)"
  show ?case
  proof (cases "cons_e s \<noteq> cons_w s \<and> cons_buf s (unat (cons_e s - 1) mod INPUT_BUF_SIZE) \<noteq> 10")
    case True
    let ?t = "printed [8, 32, 8] (s\<lparr>cons_e := cons_e s - 1\<rparr>)"
    have d: "cons_e s - 1 - cons_w s = (cons_e s - cons_w s) - 1" by simp
    have u: "unat (cons_e s - 1 - cons_w s) = unat (cons_e s - cons_w s) - 1" "unat (cons_e s - cons_w s) \<noteq> 0"
      unfolding d using unat_minus_1 [of "cons_e s - cons_w s"] True by (simp_all add: unat_eq_0)
    have prem: "irq_ok ?t" "unat (cons_e ?t - cons_w ?t) < k" using Suc.prems u by simp_all
    from Suc.IH [OF prem] obtain cs e where ih: "kill_line k (acquired ConsLock ?t) = Done () (acquired ConsLock (printed cs (?t\<lparr>cons_e := e\<rparr>)))"
        "unat (e - cons_w s) \<le> unat (cons_e s - 1 - cons_w s)"
        "ring_contents 128 (cons_buf s, cons_w s, e) =
          rev (dropWhile (\<lambda>c. c \<noteq> 10) (rev (ring_contents 128 (cons_buf s, cons_w s, cons_e s - 1))))"
      by auto
    have ne: "?l \<noteq> []" using u(2) by (simp add: ring_contents_def)
    then have l: "?l = butlast ?l @ [last ?l]" by simp
    have "last ?l \<noteq> 10" using True ring_contents_last [of "cons_e s" "cons_w s" 128 "cons_buf s"] by (simp add: INPUT_BUF_SIZE_def)
    then have "dropWhile (\<lambda>c. c \<noteq> 10) (rev ?l) = dropWhile (\<lambda>c. c \<noteq> 10) (rev (butlast ?l))" by (subst l) simp
    moreover have "kill_line (Suc k) (acquired ConsLock s) = Done () (acquired ConsLock (printed cs (?t\<lparr>cons_e := e\<rparr>)))"
      using True ih(1) put_backspace [of "s\<lparr>cons_e := cons_e s - 1\<rparr>" ConsLock] Suc.prems(1) by (simp add: kbind_def)
    ultimately show ?thesis using ih u ring_unpush_contents [of "cons_e s" "cons_w s" 128 "cons_buf s"] True
      by (intro exI [of _ "[8, 32, 8] @ cs"] exI [of _ e]) auto
  next
    case False
    have "dropWhile (\<lambda>c. c \<noteq> 10) (rev ?l) = rev ?l"
    proof (cases "cons_e s = cons_w s")
      case True
      then show ?thesis by (simp add: ring_contents_def)
    next
      case ne: False
      then have "last ?l = 10" "?l \<noteq> []" using False ring_contents_last [of "cons_e s" "cons_w s" 128 "cons_buf s"]
        by (auto simp: INPUT_BUF_SIZE_def ring_contents_def unat_eq_0)
      then show ?thesis by (cases ?l rule: rev_cases) auto
    qed
    moreover have "kill_line (Suc k) (acquired ConsLock s) = Done () (acquired ConsLock (printed [] (s\<lparr>cons_e := cons_e s\<rparr>)))"
      using False by (auto simp: kbind_def)
    ultimately show ?thesis by (metis order_refl rev_rev_ident)
  qed
qed simp

end
