(* ===== verification/Sleeplock.thy ===== *)
theory Sleeplock
  imports Console
begin

text \<open>
  \<^verbatim>\<open>kernel/sleeplock.c\<close>: locks whose holder may sleep. A process that has to wait sleeps on the
  lock, so \<open>acquiresleep\<close> is the code up to its loop, and \<open>acquiresleep_loop\<close>, where the process
  continues each time \<open>sleep\<close> returns.
\<close>

section \<open>State\<close>

record sleeplock =
  sl_locked :: bool
  sl_name :: string
  sl_pid :: int

record sleepers = console +
  slocks :: "sleepid \<Rightarrow> sleeplock"

definition upd_slock :: "sleepid \<Rightarrow> (sleeplock \<Rightarrow> sleeplock) \<Rightarrow> 'z sleepers_scheme \<Rightarrow> 'z sleepers_scheme" where
  "upd_slock l f s = s\<lparr>slocks := (slocks s)(l := f (slocks s l))\<rparr>"

section \<open>Operations\<close>

definition initsleeplock :: "sleepid \<Rightarrow> string \<Rightarrow> ('z sleepers_scheme, unit) kop" where
  "initsleeplock l name =
     kseq (initlock (SleepSpin l) ''sleep lock'')
          (kmod (upd_slock l (\<lambda>_. \<lparr>sl_locked = False, sl_name = name, sl_pid = 0\<rparr>)))"

definition acquiresleep_loop :: "sleepid \<Rightarrow> ('z sleepers_scheme, unit) kop" where
  "acquiresleep_loop l =
     kbind (kget (\<lambda>s. sl_locked (slocks s l))) (\<lambda>b.
     if b then sleep (SleepChan l) (SleepSpin l)
     else kseq (kmod (upd_slock l (\<lambda>k. k\<lparr>sl_locked := True\<rparr>)))
         (kseq (with_myproc (\<lambda>p. kmod (\<lambda>s. upd_slock l (\<lambda>k. k\<lparr>sl_pid := p_pid (ptab s p)\<rparr>) s)))
               (release (SleepSpin l))))"

definition acquiresleep :: "sleepid \<Rightarrow> ('z sleepers_scheme, unit) kop" where
  "acquiresleep l = kseq (acquire (SleepSpin l)) (acquiresleep_loop l)"

definition acquiresleep_resume :: "sleepid \<Rightarrow> bool \<Rightarrow> ('z sleepers_scheme, unit) kop" where
  "acquiresleep_resume l ena = kseq (sleep_resume (SleepSpin l) ena) (acquiresleep_loop l)"

definition releasesleep :: "sleepid \<Rightarrow> ('z sleepers_scheme, unit) kop" where
  "releasesleep l =
     kseq (acquire (SleepSpin l))
    (kseq (kmod (upd_slock l (\<lambda>k. k\<lparr>sl_locked := False\<rparr>)))
    (kseq (kmod (upd_slock l (\<lambda>k. k\<lparr>sl_pid := 0\<rparr>)))
    (kseq (wakeup (SleepChan l)) (release (SleepSpin l)))))"

definition holdingsleep :: "sleepid \<Rightarrow> ('z sleepers_scheme, bool) kop" where
  "holdingsleep l =
     kseq (acquire (SleepSpin l))
    (kbind (kget (\<lambda>s. sl_locked (slocks s l))) (\<lambda>b.
     kbind (if b then with_myproc (\<lambda>p. kget (\<lambda>s. sl_pid (slocks s l) = p_pid (ptab s p))) else kret False) (\<lambda>r.
     kseq (release (SleepSpin l)) (kret r))))"

section \<open>Locks and the fields\<close>

lemma sleepers_lock_simps [simp]:
  "slocks (acquired l s) = slocks s" "slocks (relock s) = slocks s"
  "(acquired l s)\<lparr>slocks := x\<rparr> = acquired l (s\<lparr>slocks := x\<rparr>)" "(relock s)\<lparr>slocks := x\<rparr> = relock (s\<lparr>slocks := x\<rparr>)"
  "lock_idle l (s\<lparr>slocks := x\<rparr>) = lock_idle l s" "cpu_ok (s\<lparr>slocks := x\<rparr>) = cpu_ok s"
  "ready l (s\<lparr>slocks := x\<rparr>) = ready l s" "me (s\<lparr>slocks := x\<rparr>) = me s"
  by (simp_all add: acquired_def pushed_def relock_def upd_lock_def ready_def lock_idle_def cpu_ok_def cpu_defs me_def)

lemma upd_slock_simps [simp]:
  "upd_slock k f (acquired l s) = acquired l (upd_slock k f s)" "upd_slock k f (relock s) = relock (upd_slock k f s)"
  "lock_idle l (upd_slock k f s) = lock_idle l s" "cpu_ok (upd_slock k f s) = cpu_ok s"
  "ready l (upd_slock k f s) = ready l s" "me (upd_slock k f s) = me s" "ptab (upd_slock k f s) = ptab s"
  "hart (upd_slock k f s) = hart s" "cpus (upd_slock k f s) = cpus s"
  "slocks (upd_slock k f s) = (slocks s)(k := f (slocks s k))"
  by (simp_all add: upd_slock_def)

lemma mem_step_slocks: "mem_step s t \<Longrightarrow> slocks t = slocks s"
  by (auto simp: mem_step_def dest: arg_cong [of _ _ slocks])

section \<open>What the operations do\<close>

definition sl_taken :: "sleepid \<Rightarrow> nat \<Rightarrow> 'z sleepers_scheme \<Rightarrow> 'z sleepers_scheme" where
  "sl_taken l p s = upd_slock l (\<lambda>k. k\<lparr>sl_locked := True, sl_pid := p_pid (ptab s p)\<rparr>) s"

lemma acquiresleep_free:
  assumes "me s = Some p" "ready (SleepSpin l) s" "\<not> sl_locked (slocks s l)"
  shows "acquiresleep l s = Done () (relock (sl_taken l p s))"
  using assms
  by (simp add: acquiresleep_def acquiresleep_loop_def with_myproc_eval [of _ p] sl_taken_def upd_slock_def)

lemma acquiresleep_held:
  assumes "me s = Some p" "ready (SleepSpin l) s" "sl_locked (slocks s l)" "noff (mycpu s) = 0" "lock_idle (ProcLock p) s"
  shows "acquiresleep l s = Switch (asleep (SleepChan l) p s)"
  using assms sleep_eval [of s p "SleepSpin l" "SleepChan l"]
  by (simp add: acquiresleep_def acquiresleep_loop_def ready_def)

lemma holdingsleep_eval:
  assumes "me s = Some p" "ready (SleepSpin l) s"
  shows "holdingsleep l s = Done (sl_locked (slocks s l) \<and> sl_pid (slocks s l) = p_pid (ptab s p)) (relock s)"
  using assms by (simp add: holdingsleep_def with_myproc_eval [of _ p])

lemma woken_all_slocks [simp]:
  "slocks (woken_all ch s) = slocks s" "woken_all ch (upd_slock k f s) = upd_slock k f (woken_all ch s)"
  "procs_ready (upd_slock k f s) = procs_ready s"
  by (simp_all add: woken_all_def woken_def upd_slock_def procs_ready_def cong: if_cong)

definition sl_freed :: "sleepid \<Rightarrow> 'z sleepers_scheme \<Rightarrow> 'z sleepers_scheme" where
  "sl_freed l s = woken_all (SleepChan l) (upd_slock l (\<lambda>k. k\<lparr>sl_locked := False, sl_pid := 0\<rparr>) s)"

lemma releasesleep_eval:
  assumes "procs_ready s" "lock_idle (SleepSpin l) s"
  shows "releasesleep l s = Done () (relock (sl_freed l s))"
proof -
  have "ready (SleepSpin l) s" using assms by (simp add: ready_def)
  with assms show ?thesis by (simp add: releasesleep_def wakeup_all sl_freed_def) (simp add: upd_slock_def)
qed

section \<open>Properties\<close>

text \<open>
  C15. A sleep lock is handed over without loss: \<open>acquiresleep\<close> on a free lock takes it for the
  caller's pid and \<open>holdingsleep\<close> then says so; a second process that asks for it goes to sleep
  on it; and the owner's \<open>releasesleep\<close> frees the lock and makes every process sleeping on it
  runnable.
\<close>

theorem sleeplock_handover:
  assumes "me s = Some p" "procs_ready s" "lock_idle (SleepSpin l) s"
  shows "(\<not> sl_locked (slocks s l) \<longrightarrow>
           (\<exists>t. acquiresleep l s = Done () t \<and> holdingsleep l t = Done True t
              \<and> slocks t = (slocks s)(l := (slocks s l)\<lparr>sl_locked := True, sl_pid := p_pid (ptab s p)\<rparr>)))
    \<and> (sl_locked (slocks s l) \<and> noff (mycpu s) = 0 \<and> lock_idle (ProcLock p) s \<longrightarrow>
           (\<exists>t. acquiresleep l s = Switch t \<and> p_state (ptab t p) = SLEEPING \<and> p_chan (ptab t p) = Some (SleepChan l)
              \<and> lock_idle (SleepSpin l) t \<and> slocks t = slocks s))
    \<and> (\<exists>t. releasesleep l s = Done () t \<and> \<not> sl_locked (slocks t l) \<and> locks t = locks s
           \<and> (\<forall>q < NPROC. q \<noteq> p \<and> p_state (ptab s q) = SLEEPING \<and> p_chan (ptab s q) = Some (SleepChan l)
                \<longrightarrow> p_state (ptab t q) = RUNNABLE))"
proof (intro conjI impI, goal_cases)
  case 1
  have r: "ready (SleepSpin l) s" using assms by (simp add: ready_def)
  have "holdingsleep l (relock (sl_taken l p s)) = Done True (relock (sl_taken l p s))"
    using assms(1) r by (subst holdingsleep_eval [of _ p]) (simp_all add: sl_taken_def)
  then show ?case using acquiresleep_free [OF assms(1) r 1] by (simp add: sl_taken_def)
next
  case 2
  have "ready (SleepSpin l) s" using assms by (simp add: ready_def)
  then show ?case using acquiresleep_held [OF assms(1)] 2 assms(3) by (simp add: asleep_def upd_proc_def)
next
  case 3
  show ?case using releasesleep_eval [OF assms(2,3)] assms(1)
    by (auto simp: sl_freed_def woken_all_def woken_def upd_slock_def)
qed

definition sample_sleepers :: sleepers where
  "sample_sleepers = console.extend sample_console \<lparr>slocks = (\<lambda>_. \<lparr>sl_locked = False, sl_name = [], sl_pid = 0\<rparr>)\<rparr>"

theorem sleeplock_handover_witness:
  "\<exists>t. acquiresleep (BufSleep 2) sample_sleepers = Done () t \<and> holdingsleep (BufSleep 2) t = Done True t"
proof -
  have "me sample_sleepers = Some 3" "procs_ready sample_sleepers" "lock_idle (SleepSpin (BufSleep 2)) sample_sleepers"
    "\<not> sl_locked (slocks sample_sleepers (BufSleep 2))"
    by (simp_all add: sample_sleepers_def sample_console_def sample_system_def proctab.defs console.defs me_def procs_ready_def cpu_ok_def lock_idle_def cpu_defs)
  then show ?thesis using sleeplock_handover [of sample_sleepers 3 "BufSleep 2"] by blast
qed

end
