(* ===== verification/Bio.thy ===== *)
theory Bio
  imports Sleeplock
begin

text \<open>
  \<^verbatim>\<open>kernel/bio.c\<close>: the buffer cache. The buffers are numbered from 0; the list head is number
  \<open>NBUF\<close>, and the \<^verbatim>\<open>prev\<close> and \<^verbatim>\<open>next\<close> pointers are such numbers.

  The disk is its blocks by block number (the driver ignores the device number), together with
  the sequence of block writes it has performed. \<open>disk_rw\<close> stands for a call of \<^verbatim>\<open>virtio_disk_rw\<close> that has
  returned: the process starts the request and sleeps until the disk interrupt says it is done.
\<close>

section \<open>State\<close>

type_synonym block = cstr

definition BSIZE :: nat where "BSIZE = 1024"

record buf =
  b_valid :: bool
  b_disk :: bool
  b_dev :: uint
  b_blockno :: uint
  b_refcnt :: uint
  b_prev :: nat
  b_next :: nat
  b_data :: block

record bcache = sleepers +
  bufs :: "nat \<Rightarrow> buf"
  disk :: "uint \<Rightarrow> block"
  dwrites :: "(uint \<times> block) list"

definition upd_buf :: "nat \<Rightarrow> (buf \<Rightarrow> buf) \<Rightarrow> 'z bcache_scheme \<Rightarrow> 'z bcache_scheme" where
  "upd_buf b f s = s\<lparr>bufs := (bufs s)(b := f (bufs s b))\<rparr>"

definition set_buf :: "nat \<Rightarrow> (buf \<Rightarrow> buf) \<Rightarrow> ('z bcache_scheme, unit) kop" where
  "set_buf b f = kmod (upd_buf b f)"

abbreviation HEAD :: nat where "HEAD \<equiv> NBUF"

section \<open>Operations\<close>

definition disk_rw :: "nat \<Rightarrow> bool \<Rightarrow> ('z bcache_scheme, unit) kop" where
  "disk_rw b wr =
     kmod (\<lambda>s. let n = b_blockno (bufs s b) in
       if wr then s\<lparr>disk := (disk s)(n := b_data (bufs s b)), dwrites := dwrites s @ [(n, b_data (bufs s b))]\<rparr>
       else upd_buf b (\<lambda>q. q\<lparr>b_data := disk s n\<rparr>) s)"

definition binit_one :: "nat \<Rightarrow> ('z bcache_scheme, unit) kop" where
  "binit_one b =
     kseq (kmod (\<lambda>s. upd_buf b (\<lambda>q. q\<lparr>b_next := b_next (bufs s HEAD)\<rparr>) s))
    (kseq (set_buf b (\<lambda>q. q\<lparr>b_prev := HEAD\<rparr>))
    (kseq (initsleeplock (BufSleep b) ''buffer'')
    (kseq (kmod (\<lambda>s. upd_buf (b_next (bufs s HEAD)) (\<lambda>q. q\<lparr>b_prev := b\<rparr>) s))
          (set_buf HEAD (\<lambda>q. q\<lparr>b_next := b\<rparr>)))))"

definition binit :: "('z bcache_scheme, unit) kop" where
  "binit =
     kseq (initlock BcacheLock ''bcache'')
    (kseq (set_buf HEAD (\<lambda>q. q\<lparr>b_prev := HEAD\<rparr>))
    (kseq (set_buf HEAD (\<lambda>q. q\<lparr>b_next := HEAD\<rparr>))
          (kfor [0..<NBUF] binit_one)))"

text \<open>
  The two searches of \<open>bget\<close>, forwards for the block and backwards for an unused buffer. The list
  has \<open>NBUF\<close> buffers, so \<open>NBUF + 1\<close> turns reach the head again.
\<close>

fun bget_cached :: "nat \<Rightarrow> uint \<Rightarrow> uint \<Rightarrow> nat \<Rightarrow> ('z bcache_scheme, nat option) kop" where
  "bget_cached 0 dev blockno b = (\<lambda>_. Diverge)"
| "bget_cached (Suc k) dev blockno b =
     (if b = HEAD then kret None
      else kbind (kget (\<lambda>s. bufs s b)) (\<lambda>q.
           if b_dev q = dev \<and> b_blockno q = blockno then kret (Some b)
           else bget_cached k dev blockno (b_next q)))"

fun bget_unused :: "nat \<Rightarrow> nat \<Rightarrow> ('z bcache_scheme, nat option) kop" where
  "bget_unused 0 b = (\<lambda>_. Diverge)"
| "bget_unused (Suc k) b =
     (if b = HEAD then kret None
      else kbind (kget (\<lambda>s. bufs s b)) (\<lambda>q.
           if b_refcnt q = 0 then kret (Some b) else bget_unused k (b_prev q)))"

definition bget :: "uint \<Rightarrow> uint \<Rightarrow> ('z bcache_scheme, nat) kop" where
  "bget dev blockno =
     kseq (acquire BcacheLock)
    (kbind (kget (\<lambda>s. b_next (bufs s HEAD))) (\<lambda>b0.
     kbind (bget_cached (NBUF + 1) dev blockno b0) (\<lambda>found.
     case found of
       Some b \<Rightarrow>
         kseq (set_buf b (\<lambda>q. q\<lparr>b_refcnt := b_refcnt q + 1\<rparr>))
        (kseq (release BcacheLock)
        (kseq (acquiresleep (BufSleep b)) (kret b)))
     | None \<Rightarrow>
         kbind (kget (\<lambda>s. b_prev (bufs s HEAD))) (\<lambda>b0.
         kbind (bget_unused (NBUF + 1) b0) (\<lambda>found.
         case found of
           Some b \<Rightarrow>
             kseq (set_buf b (\<lambda>q. q\<lparr>b_dev := dev, b_blockno := blockno, b_valid := False, b_refcnt := 1\<rparr>))
            (kseq (release BcacheLock)
            (kseq (acquiresleep (BufSleep b)) (kret b)))
         | None \<Rightarrow> kpanic ''bget: no buffers'')))))"

definition bread :: "uint \<Rightarrow> uint \<Rightarrow> ('z bcache_scheme, nat) kop" where
  "bread dev blockno =
     kbind (bget dev blockno) (\<lambda>b.
     kbind (kget (\<lambda>s. b_valid (bufs s b))) (\<lambda>v.
     kseq (kwhen (\<not> v) (kseq (disk_rw b False) (set_buf b (\<lambda>q. q\<lparr>b_valid := True\<rparr>))))
          (kret b)))"

definition bwrite :: "nat \<Rightarrow> ('z bcache_scheme, unit) kop" where
  "bwrite b =
     kbind (holdingsleep (BufSleep b)) (\<lambda>h.
     if \<not> h then kpanic ''bwrite'' else disk_rw b True)"

text \<open>The part of \<open>brelse\<close> that moves an unused buffer to the front of the list.\<close>

definition brelse_front :: "nat \<Rightarrow> ('z bcache_scheme, unit) kop" where
  "brelse_front b =
     kseq (kmod (\<lambda>s. upd_buf (b_next (bufs s b)) (\<lambda>q. q\<lparr>b_prev := b_prev (bufs s b)\<rparr>) s))
    (kseq (kmod (\<lambda>s. upd_buf (b_prev (bufs s b)) (\<lambda>q. q\<lparr>b_next := b_next (bufs s b)\<rparr>) s))
    (kseq (kmod (\<lambda>s. upd_buf b (\<lambda>q. q\<lparr>b_next := b_next (bufs s HEAD)\<rparr>) s))
    (kseq (set_buf b (\<lambda>q. q\<lparr>b_prev := HEAD\<rparr>))
    (kseq (kmod (\<lambda>s. upd_buf (b_next (bufs s HEAD)) (\<lambda>q. q\<lparr>b_prev := b\<rparr>) s))
          (set_buf HEAD (\<lambda>q. q\<lparr>b_next := b\<rparr>))))))"

definition brelse :: "nat \<Rightarrow> ('z bcache_scheme, unit) kop" where
  "brelse b =
     kbind (holdingsleep (BufSleep b)) (\<lambda>h.
     if \<not> h then kpanic ''brelse''
     else
       kseq (releasesleep (BufSleep b))
      (kseq (acquire BcacheLock)
      (kseq (set_buf b (\<lambda>q. q\<lparr>b_refcnt := b_refcnt q - 1\<rparr>))
      (kbind (kget (\<lambda>s. b_refcnt (bufs s b))) (\<lambda>n.
       kseq (kwhen (n = 0) (brelse_front b)) (release BcacheLock))))))"

definition bpin :: "nat \<Rightarrow> ('z bcache_scheme, unit) kop" where
  "bpin b =
     kseq (acquire BcacheLock) (kseq (set_buf b (\<lambda>q. q\<lparr>b_refcnt := b_refcnt q + 1\<rparr>)) (release BcacheLock))"

definition bunpin :: "nat \<Rightarrow> ('z bcache_scheme, unit) kop" where
  "bunpin b =
     kseq (acquire BcacheLock) (kseq (set_buf b (\<lambda>q. q\<lparr>b_refcnt := b_refcnt q - 1\<rparr>)) (release BcacheLock))"

section \<open>Locks and the fields\<close>

lemma bcache_lock_simps [simp]:
  "bufs (acquired l s) = bufs s" "bufs (relock s) = bufs s" "disk (acquired l s) = disk s" "disk (relock s) = disk s"
  "dwrites (acquired l s) = dwrites s" "dwrites (relock s) = dwrites s"
  "(acquired l s)\<lparr>bufs := x\<rparr> = acquired l (s\<lparr>bufs := x\<rparr>)" "(relock s)\<lparr>bufs := x\<rparr> = relock (s\<lparr>bufs := x\<rparr>)"
  "(acquired l s)\<lparr>disk := y\<rparr> = acquired l (s\<lparr>disk := y\<rparr>)" "(relock s)\<lparr>disk := y\<rparr> = relock (s\<lparr>disk := y\<rparr>)"
  "(acquired l s)\<lparr>dwrites := z\<rparr> = acquired l (s\<lparr>dwrites := z\<rparr>)" "(relock s)\<lparr>dwrites := z\<rparr> = relock (s\<lparr>dwrites := z\<rparr>)"
  by (simp_all add: acquired_def pushed_def relock_def upd_lock_def)

lemma bcache_upd_ready [simp]:
  "lock_idle l (s\<lparr>bufs := x\<rparr>) = lock_idle l s" "cpu_ok (s\<lparr>bufs := x\<rparr>) = cpu_ok s" "ready l (s\<lparr>bufs := x\<rparr>) = ready l s"
  "lock_idle l (s\<lparr>disk := y\<rparr>) = lock_idle l s" "cpu_ok (s\<lparr>disk := y\<rparr>) = cpu_ok s" "ready l (s\<lparr>disk := y\<rparr>) = ready l s"
  "lock_idle l (s\<lparr>dwrites := z\<rparr>) = lock_idle l s" "cpu_ok (s\<lparr>dwrites := z\<rparr>) = cpu_ok s" "ready l (s\<lparr>dwrites := z\<rparr>) = ready l s"
  "me (s\<lparr>bufs := x\<rparr>) = me s" "me (s\<lparr>disk := y\<rparr>) = me s" "me (s\<lparr>dwrites := z\<rparr>) = me s"
  by (simp_all add: ready_def lock_idle_def cpu_ok_def cpu_defs me_def)

lemma upd_buf_simps [simp]:
  "upd_buf b f (acquired l s) = acquired l (upd_buf b f s)" "upd_buf b f (relock s) = relock (upd_buf b f s)"
  "lock_idle l (upd_buf b f s) = lock_idle l s" "cpu_ok (upd_buf b f s) = cpu_ok s" "ready l (upd_buf b f s) = ready l s"
  "me (upd_buf b f s) = me s" "ptab (upd_buf b f s) = ptab s" "slocks (upd_buf b f s) = slocks s"
  "disk (upd_buf b f s) = disk s" "dwrites (upd_buf b f s) = dwrites s"
  "bufs (upd_buf b f s) = (bufs s)(b := f (bufs s b))"
  by (simp_all add: upd_buf_def)

lemma upd_buf_twice [simp]: "upd_buf b f (upd_buf b g s) = upd_buf b (\<lambda>q. f (g q)) s"
  by (simp add: upd_buf_def)

lemma upd_buf_eqI: "f (bufs s b) = g (bufs s b) \<Longrightarrow> upd_buf b f s = upd_buf b g s"
  by (simp add: upd_buf_def)

lemma upd_slock_bufs [simp]:
  "bufs (upd_slock l f s) = bufs s" "disk (upd_slock l f s) = disk s" "dwrites (upd_slock l f s) = dwrites s"
  "upd_buf b g (upd_slock l f s) = upd_slock l f (upd_buf b g s)"
  by (simp_all add: upd_slock_def upd_buf_def)

lemma set_buf_eval [simp]: "set_buf b f s = Done () (upd_buf b f s)"
  by (simp add: set_buf_def)

lemma woken_all_bufs [simp]:
  "bufs (woken_all ch s) = bufs s" "disk (woken_all ch s) = disk s" "dwrites (woken_all ch s) = dwrites s"
  "woken_all ch (upd_buf b f s) = upd_buf b f (woken_all ch s)"
  by (simp_all add: woken_all_def upd_buf_def cong: if_cong)

lemma sl_taken_simps [simp]:
  "lock_idle k (sl_taken l p s) = lock_idle k s" "cpu_ok (sl_taken l p s) = cpu_ok s" "ready k (sl_taken l p s) = ready k s"
  "me (sl_taken l p s) = me s" "ptab (sl_taken l p s) = ptab s"
  "sl_taken l p (acquired k s) = acquired k (sl_taken l p s)" "sl_taken l p (relock s) = relock (sl_taken l p s)"
  "slocks (sl_taken l p s) = (slocks s)(l := (slocks s l)\<lparr>sl_locked := True, sl_pid := p_pid (ptab s p)\<rparr>)"
  by (simp_all add: sl_taken_def)

lemma sl_taken_bufs [simp]:
  "bufs (sl_taken l p s) = bufs s" "disk (sl_taken l p s) = disk s" "dwrites (sl_taken l p s) = dwrites s"
  "upd_buf b f (sl_taken l p s) = sl_taken l p (upd_buf b f s)"
  by (simp_all add: sl_taken_def)

lemma sl_freed_simps [simp]:
  "lock_idle k (sl_freed l s) = lock_idle k s" "cpu_ok (sl_freed l s) = cpu_ok s" "ready k (sl_freed l s) = ready k s"
  "me (sl_freed l s) = me s" "p_pid (ptab (sl_freed l s) q) = p_pid (ptab s q)"
  "sl_freed l (acquired k s) = acquired k (sl_freed l s)" "sl_freed l (relock s) = relock (sl_freed l s)"
  "slocks (sl_freed l s) = (slocks s)(l := (slocks s l)\<lparr>sl_locked := False, sl_pid := 0\<rparr>)"
  by (simp_all add: sl_freed_def)

lemma sl_freed_bufs [simp]:
  "bufs (sl_freed l s) = bufs s" "disk (sl_freed l s) = disk s" "dwrites (sl_freed l s) = dwrites s"
  "upd_buf b f (sl_freed l s) = sl_freed l (upd_buf b f s)"
  by (simp_all add: sl_freed_def)

section \<open>The list of buffers\<close>

text \<open>
  \<open>seg B a xs z\<close>: following \<^verbatim>\<open>next\<close> from \<open>a\<close> gives the buffers \<open>xs\<close> and then \<open>z\<close>, and \<^verbatim>\<open>prev\<close> leads
  back. \<open>ring B xs\<close>: the cache list, most recently used first, is \<open>xs\<close>.
\<close>

fun seg :: "(nat \<Rightarrow> buf) \<Rightarrow> nat \<Rightarrow> nat list \<Rightarrow> nat \<Rightarrow> bool" where
  "seg B a [] z \<longleftrightarrow> b_next (B a) = z \<and> b_prev (B z) = a"
| "seg B a (x # xs) z \<longleftrightarrow> b_next (B a) = x \<and> b_prev (B x) = a \<and> seg B x xs z"

definition ring :: "(nat \<Rightarrow> buf) \<Rightarrow> nat list \<Rightarrow> bool" where
  "ring B xs \<longleftrightarrow> seg B HEAD xs HEAD \<and> distinct xs \<and> set xs = {0..<NBUF}"

lemma seg_append: "seg B a (ys @ b # zs) z \<longleftrightarrow> seg B a ys b \<and> seg B b zs z"
  by (induction ys arbitrary: a) auto

lemma seg_cong:
  assumes "\<And>x. x \<in> insert a (set xs) \<Longrightarrow> b_next (B' x) = b_next (B x)"
    and "\<And>x. x \<in> insert z (set xs) \<Longrightarrow> b_prev (B' x) = b_prev (B x)"
  shows "seg B' a xs z = seg B a xs z"
  using assms by (induction xs arbitrary: a) auto

lemma seg_upd_links [simp]:
  "b_next q' = b_next (B b) \<Longrightarrow> b_prev q' = b_prev (B b) \<Longrightarrow> seg (B(b := q')) a xs z = seg B a xs z"
  by (rule seg_cong) auto

lemma ring_upd_links: "ring B xs \<Longrightarrow> b_next q' = b_next (B b) \<Longrightarrow> b_prev q' = b_prev (B b) \<Longrightarrow> ring (B(b := q')) xs"
  by (simp add: ring_def)

lemma ring_length: "ring B xs \<Longrightarrow> length xs = NBUF"
  by (auto simp: ring_def dest: distinct_card)

lemma ring_first: "ring B xs \<Longrightarrow> b_next (B HEAD) = (if xs = [] then HEAD else hd xs)"
  by (cases xs) (auto simp: ring_def)

lemma seg_last: "seg B a xs z \<Longrightarrow> b_prev (B z) = last (a # xs)"
  by (induction xs arbitrary: a) auto

lemma bget_cached_seg:
  assumes "seg (bufs s) a xs HEAD" "HEAD \<notin> set xs" "length xs < k"
  shows "bget_cached k dev bn (b_next (bufs s a)) s =
    Done (List.find (\<lambda>b. b_dev (bufs s b) = dev \<and> b_blockno (bufs s b) = bn) xs) s"
  using assms
proof (induction xs arbitrary: a k)
  case Nil
  then show ?case by (cases k) auto
next
  case (Cons x xs)
  then show ?case by (cases k) auto
qed

lemma bget_unused_seg:
  assumes "seg (bufs s) HEAD xs z" "HEAD \<notin> set xs" "length xs < k"
  shows "bget_unused k (b_prev (bufs s z)) s = Done (List.find (\<lambda>b. b_refcnt (bufs s b) = 0) (rev xs)) s"
  using assms
proof (induction xs arbitrary: z k rule: rev_induct)
  case Nil
  then show ?case by (cases k) auto
next
  case (snoc x xs)
  then show ?case by (cases k) (auto simp: seg_append)
qed

declare bget_cached.simps [simp del] bget_unused.simps [simp del]

section \<open>The cache\<close>

text \<open>
  \<open>quiet\<close>: a process runs and no spin lock is held. \<open>bio_inv s xs\<close>: the list is well linked, no
  block of a device other than 0 has two buffers, and a locked buffer is in use. (Device 0 is what
  the buffers carry before their first use; no file system is on it.)
\<close>

definition quiet :: "'z machine_scheme \<Rightarrow> bool" where
  "quiet s \<longleftrightarrow> me s \<noteq> None \<and> cpu_ok s \<and> (\<forall>l. lock_idle l s)"

definition one_buf :: "(nat \<Rightarrow> buf) \<Rightarrow> bool" where
  "one_buf B \<longleftrightarrow> (\<forall>a < NBUF. \<forall>b < NBUF. b_dev (B a) \<noteq> 0 \<longrightarrow> b_dev (B a) = b_dev (B b) \<longrightarrow>
     b_blockno (B a) = b_blockno (B b) \<longrightarrow> a = b)"

definition bio_inv :: "'z bcache_scheme \<Rightarrow> nat list \<Rightarrow> bool" where
  "bio_inv s xs \<longleftrightarrow> ring (bufs s) xs \<and> one_buf (bufs s)
     \<and> (\<forall>b < NBUF. sl_locked (slocks s (BufSleep b)) \<longrightarrow> b_refcnt (bufs s b) \<noteq> 0)"

lemma quiet_simps [simp]: "quiet (relock s) = quiet s"
  by (simp add: quiet_def)

lemma quiet_upd [simp]:
  "quiet (upd_slock k f s) = quiet s" "quiet (sl_taken k p s) = quiet s" "quiet (sl_freed k s) = quiet s"
  by (simp_all add: quiet_def)

lemma quiet_buf [simp]:
  "quiet (upd_buf b g s) = quiet s" "quiet (s\<lparr>bufs := x\<rparr>) = quiet s"
  "quiet (s\<lparr>disk := y\<rparr>) = quiet s" "quiet (s\<lparr>dwrites := z\<rparr>) = quiet s"
  by (simp_all add: quiet_def)

lemma quiet_me: "quiet s \<Longrightarrow> \<exists>p. me s = Some p"
  by (simp add: quiet_def)

lemma quiet_ready [simp]: "quiet s \<Longrightarrow> ready l s" "quiet s \<Longrightarrow> lock_idle l s" "quiet s \<Longrightarrow> cpu_ok s"
  "quiet s \<Longrightarrow> procs_ready s"
  unfolding quiet_def ready_def procs_ready_def by blast+

text \<open>The buffer \<open>bget\<close> chooses, and what it does to it.\<close>

definition matches :: "uint \<Rightarrow> uint \<Rightarrow> buf \<Rightarrow> bool" where
  "matches dev bn q \<longleftrightarrow> b_dev q = dev \<and> b_blockno q = bn"

definition buf_for :: "uint \<Rightarrow> uint \<Rightarrow> (nat \<Rightarrow> buf) \<Rightarrow> nat list \<Rightarrow> nat option" where
  "buf_for dev bn B xs =
     (case List.find (\<lambda>b. matches dev bn (B b)) xs of
        Some b \<Rightarrow> Some b
      | None \<Rightarrow> List.find (\<lambda>b. b_refcnt (B b) = 0) (rev xs))"

definition claimed :: "uint \<Rightarrow> uint \<Rightarrow> buf \<Rightarrow> buf" where
  "claimed dev bn q =
     (if matches dev bn q then q\<lparr>b_refcnt := b_refcnt q + 1\<rparr>
      else q\<lparr>b_dev := dev, b_blockno := bn, b_valid := False, b_refcnt := 1\<rparr>)"

definition fetched :: "uint \<Rightarrow> uint \<Rightarrow> (uint \<Rightarrow> block) \<Rightarrow> buf \<Rightarrow> buf" where
  "fetched dev bn d q =
     (let q' = claimed dev bn q in q'\<lparr>b_valid := True, b_data := (if b_valid q' then b_data q' else d bn)\<rparr>)"

lemma find_SomeD: "List.find P xs = Some x \<Longrightarrow> x \<in> set xs \<and> P x"
  by (auto simp: find_Some_iff)

lemma bget_eval:
  assumes "quiet s" "me s = Some p" "bio_inv s xs" "buf_for dev bn (bufs s) xs = Some b" "\<not> sl_locked (slocks s (BufSleep b))"
  shows "bget dev bn s = Done b (relock (sl_taken (BufSleep b) p (upd_buf b (claimed dev bn) s)))"
proof -
  have ring: "seg (bufs s) HEAD xs HEAD" "HEAD \<notin> set xs" "length xs < NBUF + 1"
    using assms(3) ring_length [of "bufs s" xs] by (auto simp: bio_inv_def ring_def)
  let ?s = "acquired BcacheLock s"
  have c: "bget_cached (NBUF + 1) dev bn (b_next (bufs s HEAD)) ?s =
      Done (List.find (\<lambda>b. matches dev bn (bufs s b)) xs) ?s"
    using bget_cached_seg [of ?s HEAD xs] ring by (simp add: matches_def)
  have u: "bget_unused (NBUF + 1) (b_prev (bufs s HEAD)) ?s =
      Done (List.find (\<lambda>b. b_refcnt (bufs s b) = 0) (rev xs)) ?s"
    using bget_unused_seg [of ?s xs HEAD] ring by simp
  show ?thesis
  proof (cases "List.find (\<lambda>b. matches dev bn (bufs s b)) xs")
    case None
    then have u': "List.find (\<lambda>b. b_refcnt (bufs s b) = 0) (rev xs) = Some b"
      using assms(4) by (simp add: buf_for_def)
    then have b: "List.find (\<lambda>b. b_refcnt (bufs s b) = 0) (rev xs) = Some b" "\<not> matches dev bn (bufs s b)"
      using find_SomeD [OF u'] None by (auto simp: find_None_iff)
    have "acquiresleep (BufSleep b) (relock (upd_buf b (claimed dev bn) s)) =
        Done () (relock (sl_taken (BufSleep b) p (upd_buf b (claimed dev bn) s)))"
      using assms by (subst acquiresleep_free [of _ p]) simp_all
    then show ?thesis using assms(1) c u None b
      by (simp add: bget_def claimed_def upd_buf_def)
  next
    case (Some b')
    then have b: "b' = b" "matches dev bn (bufs s b)"
      using assms(4) find_SomeD [OF Some] by (auto simp: buf_for_def)
    have "acquiresleep (BufSleep b) (relock (upd_buf b (claimed dev bn) s)) =
        Done () (relock (sl_taken (BufSleep b) p (upd_buf b (claimed dev bn) s)))"
      using assms by (subst acquiresleep_free [of _ p]) simp_all
    then show ?thesis using assms(1) c Some b
      by (simp add: bget_def claimed_def upd_buf_def)
  qed
qed

lemma bread_eval:
  assumes "quiet s" "me s = Some p" "bio_inv s xs" "buf_for dev bn (bufs s) xs = Some b" "\<not> sl_locked (slocks s (BufSleep b))"
  shows "bread dev bn s = Done b (relock (sl_taken (BufSleep b) p (upd_buf b (fetched dev bn (disk s)) s)))"
proof -
  let ?q = "claimed dev bn (bufs s b)"
  have n: "b_blockno ?q = bn" by (simp add: claimed_def matches_def)
  show ?thesis
  proof (cases "b_valid ?q")
    case True
    then have "fetched dev bn (disk s) (bufs s b) = ?q" by (cases ?q) (simp add: fetched_def)
    then have "upd_buf b (fetched dev bn (disk s)) s = upd_buf b (claimed dev bn) s" by (rule upd_buf_eqI)
    then show ?thesis using bget_eval [OF assms] True by (simp add: bread_def)
  next
    case False
    have "upd_buf b (\<lambda>q. (claimed dev bn q)\<lparr>b_data := disk s bn, b_valid := True\<rparr>) s = upd_buf b (fetched dev bn (disk s)) s"
      by (rule upd_buf_eqI) (use False in \<open>simp add: fetched_def\<close>)
    then show ?thesis using bget_eval [OF assms] False n
      by (simp add: bread_def disk_rw_def Let_def)
  qed
qed

lemma bget_no_buffers:
  assumes "quiet s" "bio_inv s xs" "buf_for dev bn (bufs s) xs = None"
  shows "bget dev bn s = Panic ''bget: no buffers''"
proof -
  have ring: "seg (bufs s) HEAD xs HEAD" "HEAD \<notin> set xs" "length xs < NBUF + 1"
    using assms(2) ring_length [of "bufs s" xs] by (auto simp: bio_inv_def ring_def)
  let ?s = "acquired BcacheLock s"
  have "bget_cached (NBUF + 1) dev bn (b_next (bufs s HEAD)) ?s = Done None ?s"
    using bget_cached_seg [of ?s HEAD xs] ring assms(3) by (simp add: buf_for_def matches_def split: option.splits)
  moreover have "bget_unused (NBUF + 1) (b_prev (bufs s HEAD)) ?s = Done None ?s"
    using bget_unused_seg [of ?s xs HEAD] ring assms(3) by (simp add: buf_for_def split: option.splits)
  ultimately show ?thesis using assms(1) by (simp add: bget_def)
qed

section \<open>Releasing a buffer\<close>

text \<open>What \<open>brelse\<close> does to the links when nobody else uses the buffer, and to the buffers in all.\<close>

definition move_front :: "(nat \<Rightarrow> buf) \<Rightarrow> nat \<Rightarrow> nat \<Rightarrow> buf" where
  "move_front B b =
     (let B = B(b_next (B b) := (B (b_next (B b)))\<lparr>b_prev := b_prev (B b)\<rparr>);
          B = B(b_prev (B b) := (B (b_prev (B b)))\<lparr>b_next := b_next (B b)\<rparr>);
          B = B(b := (B b)\<lparr>b_next := b_next (B HEAD)\<rparr>);
          B = B(b := (B b)\<lparr>b_prev := HEAD\<rparr>);
          B = B(b_next (B HEAD) := (B (b_next (B HEAD)))\<lparr>b_prev := b\<rparr>)
      in B(HEAD := (B HEAD)\<lparr>b_next := b\<rparr>))"

definition unref :: "(nat \<Rightarrow> buf) \<Rightarrow> nat \<Rightarrow> nat \<Rightarrow> buf" where
  "unref B b =
     (let B = B(b := (B b)\<lparr>b_refcnt := b_refcnt (B b) - 1\<rparr>) in if b_refcnt (B b) = 0 then move_front B b else B)"

definition holds_buf :: "'z bcache_scheme \<Rightarrow> nat \<Rightarrow> bool" where
  "holds_buf s b \<longleftrightarrow> (\<exists>p. me s = Some p \<and> sl_locked (slocks s (BufSleep b)) \<and> sl_pid (slocks s (BufSleep b)) = p_pid (ptab s p))"

lemma brelse_front_eval: "brelse_front b s = Done () (s\<lparr>bufs := move_front (bufs s) b\<rparr>)"
  by (simp add: brelse_front_def move_front_def Let_def upd_buf_def del: fun_upd_apply)

lemma brelse_eval:
  assumes "quiet s" "holds_buf s b"
  shows "brelse b s = Done () (relock (sl_freed (BufSleep b) (s\<lparr>bufs := unref (bufs s) b\<rparr>)))"
proof -
  obtain p where p: "me s = Some p" "sl_locked (slocks s (BufSleep b))" "sl_pid (slocks s (BufSleep b)) = p_pid (ptab s p)"
    using assms(2) by (auto simp: holds_buf_def)
  have "holdingsleep (BufSleep b) s = Done True (relock s)"
    using holdingsleep_eval [of s p "BufSleep b"] p assms(1) by simp
  moreover have "releasesleep (BufSleep b) (relock s) = Done () (relock (sl_freed (BufSleep b) s))"
    using releasesleep_eval [of "relock s" "BufSleep b"] assms(1) by simp
  moreover have "sl_freed (BufSleep b) (s\<lparr>bufs := x\<rparr>) = (sl_freed (BufSleep b) s)\<lparr>bufs := x\<rparr>" for x
    by (simp add: sl_freed_def woken_all_def upd_slock_def cong: if_cong)
  ultimately show ?thesis using assms(1)
    by (simp add: brelse_def unref_def brelse_front_eval Let_def upd_buf_def del: fun_upd_apply)
qed

lemma brelse_not_held:
  assumes "quiet s" "me s = Some p" "\<not> holds_buf s b"
  shows "brelse b s = Panic ''brelse'' \<and> bwrite b s = Panic ''bwrite''"
  using holdingsleep_eval [of s p "BufSleep b"] assms by (auto simp: brelse_def bwrite_def holds_buf_def)

lemma bwrite_eval:
  assumes "quiet s" "holds_buf s b"
  shows "bwrite b s = Done () (relock (s\<lparr>disk := (disk s)(b_blockno (bufs s b) := b_data (bufs s b)),
      dwrites := dwrites s @ [(b_blockno (bufs s b), b_data (bufs s b))]\<rparr>))"
proof -
  obtain p where p: "me s = Some p" "sl_locked (slocks s (BufSleep b))" "sl_pid (slocks s (BufSleep b)) = p_pid (ptab s p)"
    using assms(2) by (auto simp: holds_buf_def)
  then show ?thesis using holdingsleep_eval [of s p "BufSleep b"] assms(1)
    by (simp add: bwrite_def disk_rw_def Let_def)
qed

lemma bpin_eval: "quiet s \<Longrightarrow> bpin b s = Done () (relock (upd_buf b (\<lambda>q. q\<lparr>b_refcnt := b_refcnt q + 1\<rparr>) s))"
  by (simp add: bpin_def)

lemma bunpin_eval: "quiet s \<Longrightarrow> bunpin b s = Done () (relock (upd_buf b (\<lambda>q. q\<lparr>b_refcnt := b_refcnt q - 1\<rparr>) s))"
  by (simp add: bunpin_def)

lemma ring_split:
  assumes "ring B xs" "b < NBUF"
  obtains ys zs where "xs = ys @ b # zs" "remove1 b xs = ys @ zs" "HEAD \<notin> set ys" "HEAD \<notin> set zs" "b \<notin> set ys" "b \<notin> set zs"
    "distinct ys" "distinct zs" "set ys \<inter> set zs = {}" "seg B HEAD ys b" "seg B b zs HEAD"
proof -
  have "b \<in> set xs" using assms by (simp add: ring_def)
  then obtain ys zs where xs: "xs = ys @ b # zs" by (auto simp: in_set_conv_decomp)
  moreover have "distinct xs" "HEAD \<notin> set xs" using assms(1) by (auto simp: ring_def)
  ultimately show ?thesis
    using that [of ys zs] assms(1) by (auto simp: ring_def seg_append remove1_append)
qed

lemma seg_first: "seg B b zs z \<Longrightarrow> b_next (B b) = hd (zs @ [z])"
  by (cases zs) auto

lemma seg_join:
  assumes "seg B a ys b" "seg B b zs z" "distinct (a # ys @ zs)" "z \<notin> set ys" "z \<notin> set zs"
    and "\<And>x. x \<in> insert a (set ys \<union> set zs) \<Longrightarrow> b_next (B' x) = (if x = b_prev (B b) then b_next (B b) else b_next (B x))"
    and "\<And>x. x \<in> insert z (set ys \<union> set zs) \<Longrightarrow> b_prev (B' x) = (if x = b_next (B b) then b_prev (B b) else b_prev (B x))"
  shows "seg B' a (ys @ zs) z"
  using assms
proof (induction ys arbitrary: a)
  case Nil
  then show ?case
  proof (cases zs)
    case (Cons x xs)
    have l: "b_prev (B b) = a" "b_next (B b) = x" "b_next (B a) = b" using Nil.prems(1,2) Cons by simp_all
    have "seg B' x xs z = seg B x xs z"
    proof (rule seg_cong)
      fix u assume u: "u \<in> insert x (set xs)"
      then have "u \<noteq> a" using Nil.prems(3) Cons by auto
      then show "b_next (B' u) = b_next (B u)" using Nil.prems(6) [of u] u l Cons by simp
    next
      fix u assume u: "u \<in> insert z (set xs)"
      then have "u \<noteq> x" using Nil.prems(3,5) Cons by auto
      then show "b_prev (B' u) = b_prev (B u)" using Nil.prems(7) [of u] u l Cons by auto
    qed
    then show ?thesis using Nil.prems(2) Nil.prems(6) [of a] Nil.prems(7) [of x] Cons l by simp
  qed simp
next
  case (Cons x ys)
  have y: "b_prev (B b) = last (x # ys)" using Cons.prems(1) seg_last [of B x ys b] by simp
  then have "b_prev (B b) \<noteq> a" using Cons.prems(3) by (auto split: if_splits)
  moreover have "b_next (B b) \<noteq> x" using seg_first [OF Cons.prems(2)] Cons.prems(3,4) by (cases zs) auto
  moreover have "seg B' x (ys @ zs) z"
  proof (rule Cons.IH)
    show "seg B x ys b" "seg B b zs z" "distinct (x # ys @ zs)" "z \<notin> set ys" "z \<notin> set zs"
      using Cons.prems(1-5) by simp_all
    show "b_next (B' u) = (if u = b_prev (B b) then b_next (B b) else b_next (B u))"
      if "u \<in> insert x (set ys \<union> set zs)" for u using that by (intro Cons.prems(6)) simp
    show "b_prev (B' u) = (if u = b_next (B b) then b_prev (B b) else b_prev (B u))"
      if "u \<in> insert z (set ys \<union> set zs)" for u using that by (intro Cons.prems(7)) auto
  qed
  ultimately show ?case using Cons.prems(1) Cons.prems(6) [of a] Cons.prems(7) [of x] by simp
qed

lemma ring_move_front:
  assumes "ring B xs" "b < NBUF"
  shows "ring (move_front B b) (b # remove1 b xs)"
proof -
  obtain ys zs where xs: "xs = ys @ b # zs" "remove1 b xs = ys @ zs" and nh: "HEAD \<notin> set ys" "HEAD \<notin> set zs"
      and nb: "b \<notin> set ys" "b \<notin> set zs" and d: "distinct ys" "distinct zs" "set ys \<inter> set zs = {}"
      and sg: "seg B HEAD ys b" "seg B b zs HEAD"
    by (rule ring_split [OF assms])
  have bh: "b \<noteq> HEAD" using assms(2) by simp
  define y n where "y = b_prev (B b)" and "n = b_next (B b)"
  have y: "y \<noteq> b" "y = last (HEAD # ys)" using seg_last [OF sg(1)] nb bh by (auto simp: y_def)
  have n: "n \<noteq> b" "n = hd (zs @ [HEAD])" using seg_first [OF sg(2)] nb bh by (cases zs; auto simp: n_def)+
  define C where "C = B(n := (B n)\<lparr>b_prev := y\<rparr>)"
  define D where "D = C(y := (C y)\<lparr>b_next := n\<rparr>)"
  have D: "seg D HEAD (ys @ zs) HEAD"
    by (rule seg_join [OF sg]) (use d nh in \<open>auto simp: D_def C_def y_def n_def\<close>)
  define f where "f = b_next (D HEAD)"
  have f: "f = hd (ys @ zs @ [HEAD])" using seg_first [OF D] by (simp add: f_def)
  then have fb: "f \<noteq> b" using nb bh by (cases ys; cases zs) auto
  have Db: "b_next (C b) = n" "b_prev (C b) = y" using n y by (simp_all add: C_def n_def y_def)
  have mf: "move_front B b = (let E = D(b := (D b)\<lparr>b_next := f, b_prev := HEAD\<rparr>); F = E(f := (E f)\<lparr>b_prev := b\<rparr>) in F(HEAD := (F HEAD)\<lparr>b_next := b\<rparr>))"
    unfolding move_front_def Let_def y_def [symmetric] n_def [symmetric] C_def [symmetric] Db D_def [symmetric]
    using bh by (simp add: f_def)
  have "seg (move_front B b) HEAD (b # ys @ zs) HEAD"
  proof (cases "ys @ zs")
    case Nil
    then show ?thesis using f bh by (simp add: mf Let_def)
  next
    case (Cons x xs')
    have x: "f = x" using f Cons by (cases ys) auto
    have "x \<noteq> HEAD" "x \<noteq> b" "HEAD \<notin> set xs'" "b \<notin> set xs'" "x \<notin> set xs'"
      using Cons nh nb d by (auto simp: Cons_eq_append_conv append_eq_Cons_conv dest: arg_cong [of _ _ set] arg_cong [of _ _ distinct])
    moreover from this have "seg (move_front B b) x xs' HEAD = seg D x xs' HEAD"
      using bh x by (intro seg_cong) (auto simp: mf Let_def)
    ultimately show ?thesis using D x bh unfolding Cons by (auto simp: mf Let_def)
  qed
  then show ?thesis using assms xs d nb nh by (auto simp: ring_def)
qed

text \<open>Relinking changes nothing but links.\<close>

definition same_content :: "buf \<Rightarrow> buf \<Rightarrow> bool" where
  "same_content p q \<longleftrightarrow> b_dev p = b_dev q \<and> b_blockno p = b_blockno q \<and> b_valid p = b_valid q
     \<and> b_refcnt p = b_refcnt q \<and> b_data p = b_data q \<and> b_disk p = b_disk q"

lemma same_content_link:
  "same_content ((B(x := (B x)\<lparr>b_prev := v\<rparr>)) z) q = same_content (B z) q"
  "same_content ((B(x := (B x)\<lparr>b_next := v\<rparr>)) z) q = same_content (B z) q"
  by (simp_all add: same_content_def)

lemma move_front_content: "same_content (move_front B b x) (B x)"
  unfolding move_front_def Let_def same_content_link by (simp add: same_content_def)

lemma move_front_fields [simp]:
  "b_dev (move_front B b x) = b_dev (B x)" "b_blockno (move_front B b x) = b_blockno (B x)"
  "b_valid (move_front B b x) = b_valid (B x)" "b_refcnt (move_front B b x) = b_refcnt (B x)"
  "b_data (move_front B b x) = b_data (B x)" "b_disk (move_front B b x) = b_disk (B x)"
  using move_front_content [of B b x] by (simp_all add: same_content_def)

lemma unref_fields [simp]:
  "b_dev (unref B b x) = b_dev (B x)" "b_blockno (unref B b x) = b_blockno (B x)" "b_valid (unref B b x) = b_valid (B x)"
  "b_data (unref B b x) = b_data (B x)" "b_refcnt (unref B b x) = (if x = b then b_refcnt (B b) - 1 else b_refcnt (B x))"
  by (simp_all add: unref_def Let_def)

lemma unref_disk: "b_disk (unref B b x) = b_disk (B x)"
  by (simp add: unref_def Let_def)

lemma ring_unref:
  assumes "ring B xs" "b < NBUF"
  shows "\<exists>ys. ring (unref B b) ys"
  using assms ring_move_front [of "B(b := (B b)\<lparr>b_refcnt := b_refcnt (B b) - 1\<rparr>)" xs b]
    ring_upd_links [OF assms(1), of "(B b)\<lparr>b_refcnt := b_refcnt (B b) - 1\<rparr>" b]
  unfolding unref_def Let_def by auto

section \<open>Initialisation\<close>

definition push_front :: "(nat \<Rightarrow> buf) \<Rightarrow> nat \<Rightarrow> nat \<Rightarrow> buf" where
  "push_front B b =
     (let B = B(b := (B b)\<lparr>b_next := b_next (B HEAD), b_prev := HEAD\<rparr>);
          B = B(b_next (B HEAD) := (B (b_next (B HEAD)))\<lparr>b_prev := b\<rparr>)
      in B(HEAD := (B HEAD)\<lparr>b_next := b\<rparr>))"

lemma seg_push_front:
  assumes "seg B HEAD xs HEAD" "distinct xs" "b \<notin> set xs" "b \<noteq> HEAD" "HEAD \<notin> set xs"
  shows "seg (push_front B b) HEAD (b # xs) HEAD"
proof (cases xs)
  case Nil
  then show ?thesis using assms by (simp add: push_front_def Let_def)
next
  case (Cons x ys)
  have "seg (push_front B b) x ys HEAD = seg B x ys HEAD"
    using assms Cons by (intro seg_cong) (auto simp: push_front_def Let_def)
  then show ?thesis using assms Cons by (auto simp: push_front_def Let_def)
qed

lemma binit_one_eval:
  "binit_one b s = Done () ((upd_slock (BufSleep b) (\<lambda>_. \<lparr>sl_locked = False, sl_name = ''buffer'', sl_pid = 0\<rparr>)
        (upd_lock (SleepSpin (BufSleep b)) (\<lambda>_. \<lparr>locked = False, lkname = ''sleep lock'', lkcpu = None\<rparr>) s))
        \<lparr>bufs := push_front (bufs s) b\<rparr>)"
  by (simp add: binit_one_def push_front_def Let_def initsleeplock_def initlock_def upd_buf_def upd_slock_def upd_lock_def
      fun_upd_same del: fun_upd_apply)

lemma push_front_content: "same_content (push_front B b x) (B x)"
  unfolding push_front_def Let_def same_content_link by (simp add: same_content_def)

text \<open>Everything \<open>binit\<close> leaves as it was.\<close>

definition binit_frame :: "'z bcache_scheme \<Rightarrow> 'z bcache_scheme \<Rightarrow> bool" where
  "binit_frame s t \<longleftrightarrow> (\<forall>c. same_content (bufs t c) (bufs s c)) \<and> (\<forall>l. lock_idle l s \<longrightarrow> lock_idle l t)
     \<and> me t = me s \<and> cpu_ok t = cpu_ok s \<and> disk t = disk s \<and> dwrites t = dwrites s"

lemma binit_frame_trans: "binit_frame s t \<Longrightarrow> binit_frame t u \<Longrightarrow> binit_frame s u"
  by (auto simp: binit_frame_def same_content_def)

lemma slocks_upd_lock [simp]: "slocks (upd_lock l f s) = slocks s"
  by (simp add: upd_lock_def)

lemma binit_loop:
  assumes "seg (bufs s) HEAD [] HEAD" "k \<le> NBUF"
  shows "\<exists>t. kfor [0..<k] binit_one s = Done () t \<and> seg (bufs t) HEAD (rev [0..<k]) HEAD \<and> binit_frame s t
      \<and> (\<forall>b < k. \<not> sl_locked (slocks t (BufSleep b)))"
  using assms(2)
proof (induction k)
  case 0
  then show ?case using assms(1) by (simp add: binit_frame_def same_content_def)
next
  case (Suc k)
  then obtain t where run: "kfor [0..<k] binit_one s = Done () t"
      and t: "seg (bufs t) HEAD (rev [0..<k]) HEAD" "binit_frame s t" "\<forall>b < k. \<not> sl_locked (slocks t (BufSleep b))"
    by auto
  let ?u = "(upd_slock (BufSleep k) (\<lambda>_. \<lparr>sl_locked = False, sl_name = ''buffer'', sl_pid = 0\<rparr>)
        (upd_lock (SleepSpin (BufSleep k)) (\<lambda>_. \<lparr>locked = False, lkname = ''sleep lock'', lkcpu = None\<rparr>) t))
        \<lparr>bufs := push_front (bufs t) k\<rparr>"
  have "seg (push_front (bufs t) k) HEAD (k # rev [0..<k]) HEAD"
    by (rule seg_push_front [OF t(1)]) (use Suc.prems in auto)
  moreover have "binit_frame t ?u"
    using push_front_content by (auto simp: binit_frame_def upd_slock_def upd_lock_def lock_idle_def me_def cpu_ok_def cpu_defs)
  then have "binit_frame s ?u" by (rule binit_frame_trans [OF t(2)])
  ultimately show ?case using run t(3) by (auto simp: kfor_append binit_one_eval [of k t] less_Suc_eq)
qed

lemma binit_ok:
  "\<exists>t. binit s = Done () t \<and> ring (bufs t) (rev [0..<NBUF]) \<and> binit_frame s t
     \<and> (\<forall>b < NBUF. \<not> sl_locked (slocks t (BufSleep b)))"
proof -
  let ?s = "upd_buf HEAD (\<lambda>q. q\<lparr>b_prev := HEAD, b_next := HEAD\<rparr>) (upd_lock BcacheLock (\<lambda>_. \<lparr>locked = False, lkname = ''bcache'', lkcpu = None\<rparr>) s)"
  have "seg (bufs ?s) HEAD [] HEAD" by simp
  moreover have "binit_frame s ?s"
    by (auto simp: binit_frame_def same_content_def upd_lock_def upd_buf_def lock_idle_def me_def cpu_ok_def cpu_defs)
  then have "binit_frame s t" if "binit_frame ?s t" for t using binit_frame_trans that by blast
  ultimately show ?thesis using binit_loop [of ?s NBUF] by (auto simp: binit_def initlock_def ring_def)
qed

section \<open>What users of the cache see\<close>

text \<open>
  \<open>blk s n\<close> is the content of block \<open>n\<close> as the kernel sees it: the buffer's if the block is
  cached, else the disk's. \<open>refs s n\<close> counts the users of the block, \<open>blocked s n\<close> says that a
  process has it locked, and \<open>room s\<close> is the number of buffers that can be recycled.
\<close>

definition blk :: "'z bcache_scheme \<Rightarrow> uint \<Rightarrow> block" where
  "blk s n = (case List.find (\<lambda>b. matches ROOTDEV n (bufs s b) \<and> b_valid (bufs s b)) [0..<NBUF] of
     Some b \<Rightarrow> b_data (bufs s b) | None \<Rightarrow> disk s n)"

definition refs :: "'z bcache_scheme \<Rightarrow> uint \<Rightarrow> uint" where
  "refs s n = (case List.find (\<lambda>b. matches ROOTDEV n (bufs s b)) [0..<NBUF] of
     Some b \<Rightarrow> b_refcnt (bufs s b) | None \<Rightarrow> 0)"

definition blocked :: "'z bcache_scheme \<Rightarrow> uint \<Rightarrow> bool" where
  "blocked s n \<longleftrightarrow> (\<exists>b < NBUF. matches ROOTDEV n (bufs s b) \<and> sl_locked (slocks s (BufSleep b)))"

definition room :: "'z bcache_scheme \<Rightarrow> nat" where
  "room s = card {b. b < NBUF \<and> b_refcnt (bufs s b) = 0}"

text \<open>
  \<open>cache_inv\<close>: the invariant of the cache, and that a buffer nobody uses holds what the disk holds.
  \<open>owns s b n\<close>: the running process has block \<open>n\<close> locked, in buffer \<open>b\<close>.
\<close>

definition cache_inv :: "'z bcache_scheme \<Rightarrow> bool" where
  "cache_inv s \<longleftrightarrow> (\<exists>xs. bio_inv s xs) \<and> (\<forall>b < NBUF. b_valid (bufs s b) \<longrightarrow> b_dev (bufs s b) = ROOTDEV)
     \<and> (\<forall>b < NBUF. b_valid (bufs s b) \<longrightarrow> b_refcnt (bufs s b) = 0 \<longrightarrow> b_data (bufs s b) = disk s (b_blockno (bufs s b)))"

definition owns :: "'z bcache_scheme \<Rightarrow> nat \<Rightarrow> uint \<Rightarrow> bool" where
  "owns s b n \<longleftrightarrow> b < NBUF \<and> matches ROOTDEV n (bufs s b) \<and> b_valid (bufs s b) \<and> holds_buf s b"

text \<open>Nothing but the cache, the disk and the states of waiting processes changes.\<close>

definition untouched :: "'z bcache_scheme \<Rightarrow> 'z bcache_scheme \<Rightarrow> bool" where
  "untouched s t \<longleftrightarrow> (\<exists>B K P d w. relock t = relock (s\<lparr>bufs := B, slocks := K, ptab := P, disk := d, dwrites := w\<rparr>)
     \<and> (\<forall>p. (P p)\<lparr>p_state := p_state (ptab s p)\<rparr> = ptab s p) \<and> (\<forall>l. (\<forall>b. l \<noteq> BufSleep b) \<longrightarrow> K l = slocks s l))"

lemma same_bufD:
  assumes "one_buf B" "a < NBUF" "b < NBUF" "matches ROOTDEV n (B a)" "matches ROOTDEV n (B b)"
  shows "a = b"
  using assms unfolding one_buf_def matches_def ROOTDEV_def by (metis zero_neq_one)

lemma find_upt_unique:
  assumes "b < N" "P b" "\<And>a. a < N \<Longrightarrow> P a \<Longrightarrow> a = b"
  shows "List.find P [0..<N] = Some b"
proof (cases "List.find P [0..<N]")
  case None
  then show ?thesis using assms(1,2) by (auto simp: find_None_iff)
next
  case (Some a)
  then show ?thesis using find_SomeD [OF Some] assms(3) by auto
qed

lemma view_cached:
  assumes "one_buf (bufs s)" "b < NBUF" "matches ROOTDEV n (bufs s b)"
  shows "refs s n = b_refcnt (bufs s b)" "blk s n = (if b_valid (bufs s b) then b_data (bufs s b) else disk s n)"
    "blocked s n = sl_locked (slocks s (BufSleep b))"
proof -
  have "List.find (\<lambda>b. matches ROOTDEV n (bufs s b)) [0..<NBUF] = Some b"
    by (rule find_upt_unique) (use assms same_bufD [OF assms(1)] in auto)
  then show "refs s n = b_refcnt (bufs s b)" by (simp add: refs_def)
  show "blk s n = (if b_valid (bufs s b) then b_data (bufs s b) else disk s n)"
  proof (cases "b_valid (bufs s b)")
    case True
    have "List.find (\<lambda>b. matches ROOTDEV n (bufs s b) \<and> b_valid (bufs s b)) [0..<NBUF] = Some b"
      by (rule find_upt_unique) (use assms True same_bufD [OF assms(1)] in auto)
    then show ?thesis using True by (simp add: blk_def)
  next
    case False
    have "List.find (\<lambda>b. matches ROOTDEV n (bufs s b) \<and> b_valid (bufs s b)) [0..<NBUF] = None"
      using False assms same_bufD [OF assms(1)] by (auto simp: find_None_iff)
    then show ?thesis using False by (simp add: blk_def)
  qed
  show "blocked s n = sl_locked (slocks s (BufSleep b))"
    using assms same_bufD [OF assms(1)] unfolding blocked_def by blast
qed

lemma view_uncached:
  assumes "\<forall>b < NBUF. \<not> matches ROOTDEV n (bufs s b)"
  shows "refs s n = 0" "blk s n = disk s n" "\<not> blocked s n"
proof -
  have "List.find (\<lambda>b. matches ROOTDEV n (bufs s b)) [0..<NBUF] = None"
    "List.find (\<lambda>b. matches ROOTDEV n (bufs s b) \<and> b_valid (bufs s b)) [0..<NBUF] = None"
    using assms by (auto simp: find_None_iff)
  then show "refs s n = 0" "blk s n = disk s n" by (simp_all add: refs_def blk_def)
  show "\<not> blocked s n" using assms by (auto simp: blocked_def)
qed

lemma view_other:
  assumes "one_buf (bufs s)" "one_buf (bufs t)"
    and same: "\<And>c. c < NBUF \<Longrightarrow> c \<noteq> b \<Longrightarrow> same_content (bufs t c) (bufs s c) \<and> slocks t (BufSleep c) = slocks s (BufSleep c)"
    and "\<not> matches ROOTDEV n (bufs s b)" "\<not> matches ROOTDEV n (bufs t b)" "disk t n = disk s n"
  shows "refs t n = refs s n" "blk t n = blk s n" "blocked t n = blocked s n"
proof -
  have "refs t n = refs s n \<and> blk t n = blk s n \<and> blocked t n = blocked s n"
  proof (cases "\<exists>c < NBUF. matches ROOTDEV n (bufs s c)")
    case True
    then obtain c where c: "c < NBUF" "matches ROOTDEV n (bufs s c)" by blast
    then have "c \<noteq> b" using assms(4) by auto
    with same [OF c(1)] c(2) have "matches ROOTDEV n (bufs t c)" "b_refcnt (bufs t c) = b_refcnt (bufs s c)"
        "b_valid (bufs t c) = b_valid (bufs s c)" "b_data (bufs t c) = b_data (bufs s c)"
        "slocks t (BufSleep c) = slocks s (BufSleep c)"
      by (simp_all add: matches_def same_content_def)
    then show ?thesis using view_cached [OF assms(1) c] view_cached [OF assms(2) c(1)] assms(6) by simp
  next
    case False
    then have "\<forall>c < NBUF. \<not> matches ROOTDEV n (bufs t c)"
      using same assms(5) by (metis matches_def same_content_def)
    then show ?thesis using False view_uncached [of n s] view_uncached [of n t] assms(6) by simp
  qed
  then show "refs t n = refs s n" "blk t n = blk s n" "blocked t n = blocked s n" by simp_all
qed

lemma buf_for_some:
  assumes "ring (bufs s) xs" "refs s n \<noteq> 0 \<or> 0 < room s"
  obtains b where "buf_for ROOTDEV n (bufs s) xs = Some b" "b < NBUF"
    "matches ROOTDEV n (bufs s b) \<or> (\<forall>c < NBUF. \<not> matches ROOTDEV n (bufs s c)) \<and> b_refcnt (bufs s b) = 0"
proof (cases "List.find (\<lambda>b. matches ROOTDEV n (bufs s b)) xs")
  case (Some b)
  then show ?thesis using that [of b] find_SomeD [OF Some] assms(1) by (auto simp: buf_for_def ring_def)
next
  case None
  have xs: "set xs = {0..<NBUF}" using assms(1) by (simp add: ring_def)
  then have no: "\<forall>c < NBUF. \<not> matches ROOTDEV n (bufs s c)" using None by (auto simp: find_None_iff)
  then have "0 < room s" using assms(2) view_uncached(1) by blast
  then obtain c where "c < NBUF" "b_refcnt (bufs s c) = 0" unfolding room_def by (auto simp: card_gt_0_iff)
  then have "List.find (\<lambda>b. b_refcnt (bufs s b) = 0) (rev xs) \<noteq> None" using xs by (auto simp: find_None_iff)
  then obtain b where b: "List.find (\<lambda>b. b_refcnt (bufs s b) = 0) (rev xs) = Some b" by blast
  then show ?thesis using that [of b] find_SomeD [OF b] None no xs by (auto simp: buf_for_def)
qed

lemma room_upd:
  assumes "b < NBUF" "\<And>c. c < NBUF \<Longrightarrow> c \<noteq> b \<Longrightarrow> b_refcnt (bufs t c) = b_refcnt (bufs s c)"
  shows "room t = (if b_refcnt (bufs t b) = 0 then 1 else 0) + (if b_refcnt (bufs s b) = 0 then room s - 1 else room s)"
proof -
  let ?F = "\<lambda>s. {c. c < NBUF \<and> b_refcnt (bufs s c) = 0}"
  have "?F t = (if b_refcnt (bufs t b) = 0 then {b} else {}) \<union> (?F s - {b})"
  proof (rule set_eqI)
    fix x show "x \<in> ?F t \<longleftrightarrow> x \<in> (if b_refcnt (bufs t b) = 0 then {b} else {}) \<union> (?F s - {b})"
      using assms by (cases "x = b") auto
  qed
  moreover have "card (?F s - {b}) = (if b_refcnt (bufs s b) = 0 then room s - 1 else room s)"
    using assms(1) by (simp add: room_def)
  moreover have "card (insert b (?F s - {b})) = Suc (card (?F s - {b}))" by (rule card_insert_disjoint) simp_all
  ultimately show ?thesis unfolding room_def by (simp only: if_True if_False Un_insert_left Un_empty_left split: if_split) simp
qed

lemma untouched_refl: "untouched s s"
  unfolding untouched_def by (rule exI [of _ "bufs s"], rule exI [of _ "slocks s"], rule exI [of _ "ptab s"],
      rule exI [of _ "disk s"], rule exI [of _ "dwrites s"]) simp

lemma untouchedI:
  "relock t = relock (s\<lparr>bufs := B, slocks := K, ptab := P, disk := d, dwrites := w\<rparr>) \<Longrightarrow>
   (\<And>p. (P p)\<lparr>p_state := p_state (ptab s p)\<rparr> = ptab s p) \<Longrightarrow> (\<And>l. (\<forall>b. l \<noteq> BufSleep b) \<Longrightarrow> K l = slocks s l) \<Longrightarrow> untouched s t"
  unfolding untouched_def by blast

lemma untouched_trans:
  assumes "untouched s t" "untouched t u"
  shows "untouched s u"
proof -
  obtain B K P d w where 1: "relock t = relock (s\<lparr>bufs := B, slocks := K, ptab := P, disk := d, dwrites := w\<rparr>)"
      "\<forall>p. (P p)\<lparr>p_state := p_state (ptab s p)\<rparr> = ptab s p" "\<forall>l. (\<forall>b. l \<noteq> BufSleep b) \<longrightarrow> K l = slocks s l"
    using assms(1) unfolding untouched_def by blast
  obtain B' K' P' d' w' where 2: "relock u = relock (t\<lparr>bufs := B', slocks := K', ptab := P', disk := d', dwrites := w'\<rparr>)"
      "\<forall>p. (P' p)\<lparr>p_state := p_state (ptab t p)\<rparr> = ptab t p" "\<forall>l. (\<forall>b. l \<noteq> BufSleep b) \<longrightarrow> K' l = slocks t l"
    using assms(2) unfolding untouched_def by blast
  have t: "ptab t = P" "slocks t = K" using arg_cong [OF 1(1), of ptab] arg_cong [OF 1(1), of slocks] by simp_all
  have "relock u = relock (s\<lparr>bufs := B', slocks := K', ptab := P', disk := d', dwrites := w'\<rparr>)"
    using 2(1) arg_cong [OF 1(1), of "\<lambda>t. t\<lparr>bufs := B', slocks := K', ptab := P', disk := d', dwrites := w'\<rparr>"] by simp
  moreover have "(P' p)\<lparr>p_state := p_state (ptab s p)\<rparr> = ptab s p" for p
  proof -
    have "(P' p)\<lparr>p_state := p_state (ptab s p)\<rparr> = ((P' p)\<lparr>p_state := p_state (P p)\<rparr>)\<lparr>p_state := p_state (ptab s p)\<rparr>" by simp
    also have "\<dots> = ptab s p" using 1(2) 2(2) unfolding t by simp
    finally show ?thesis .
  qed
  ultimately show ?thesis using 1(3) 2(3) unfolding t by (intro untouchedI [where K = K' and P = P' and s = s]) auto
qed

lemma one_buf_same:
  "one_buf B \<Longrightarrow> (\<And>c. b_dev (B' c) = b_dev (B c)) \<Longrightarrow> (\<And>c. b_blockno (B' c) = b_blockno (B c)) \<Longrightarrow> one_buf B'"
  by (simp add: one_buf_def)

lemma one_buf_upd:
  assumes "one_buf B" "matches dev n q" "\<And>c. c < NBUF \<Longrightarrow> matches dev n (B c) \<Longrightarrow> c = b"
  shows "one_buf (B(b := q))"
  unfolding one_buf_def
proof (intro allI impI)
  fix a c assume h: "a < NBUF" "c < NBUF" "b_dev ((B(b := q)) a) \<noteq> 0" "b_dev ((B(b := q)) a) = b_dev ((B(b := q)) c)"
    "b_blockno ((B(b := q)) a) = b_blockno ((B(b := q)) c)"
  consider "a = b" "c = b" | "a \<noteq> b" "c = b" | "a = b" "c \<noteq> b" | "a \<noteq> b" "c \<noteq> b" by blast
  then show "a = c"
  proof cases
    case 2 then show ?thesis using h assms(2) assms(3) [of a] by (simp add: matches_def)
  next
    case 3 then show ?thesis using h assms(2) assms(3) [of c] by (simp add: matches_def)
  next
    case 4 then show ?thesis using h assms(1) unfolding one_buf_def by simp
  qed simp
qed

lemma bread_frame:
  fixes s :: "'z bcache_scheme" and p :: nat
  assumes inv: "cache_inv s" and b: "b < NBUF" "\<not> sl_locked (slocks s (BufSleep b))" "refs s n + 1 \<noteq> 0"
    and m: "matches ROOTDEV n (bufs s b) \<or> (\<forall>c < NBUF. \<not> matches ROOTDEV n (bufs s c)) \<and> b_refcnt (bufs s b) = 0"
  defines "t \<equiv> sl_taken (BufSleep b) p (upd_buf b (fetched ROOTDEV n (disk s)) s)"
  shows "cache_inv t" "b_data (bufs t b) = blk s n" "blk t = blk s" "refs t = (refs s)(n := refs s n + 1)"
    "blocked t = (blocked s)(n := True)" "room t = (if refs s n = 0 then room s - 1 else room s)"
proof -
  obtain xs where xs: "bio_inv s xs" using inv by (auto simp: cache_inv_def)
  then have one: "one_buf (bufs s)" by (simp add: bio_inv_def)
  let ?q = "fetched ROOTDEV n (disk s) (bufs s b)"
  have q: "matches ROOTDEV n ?q" "b_valid ?q" "b_next ?q = b_next (bufs s b)" "b_prev ?q = b_prev (bufs s b)"
    by (simp_all add: fetched_def claimed_def matches_def Let_def)
  have rn: "b_refcnt ?q = refs s n + 1" "b_data ?q = blk s n"
    using m view_cached [OF one b(1)] view_uncached [of n s]
    by (auto simp: fetched_def claimed_def matches_def Let_def)
  have t: "bufs t = (bufs s)(b := ?q)" "disk t = disk s"
      "slocks t = (slocks s)(BufSleep b := (slocks s (BufSleep b))\<lparr>sl_locked := True, sl_pid := p_pid (ptab s p)\<rparr>)"
    by (simp_all add: t_def)
  have others: "c = b" if "c < NBUF" "matches ROOTDEV n (bufs s c)" for c
    using m that same_bufD [OF one _ b(1)] by blast
  have one': "one_buf (bufs t)"
    unfolding t by (rule one_buf_upd [OF one q(1)]) (rule others)
  have "bio_inv t xs"
    using xs one' ring_upd_links [of "bufs s" xs ?q b] q b(3) rn by (auto simp: bio_inv_def t)
  then show "cache_inv t" using inv q b(3) rn by (auto simp: cache_inv_def t matches_def)
  show "b_data (bufs t b) = blk s n" using rn by (simp add: t)
  note vt = view_cached [OF one' b(1), of n]
  have "blk t k = blk s k \<and> refs t k = ((refs s)(n := refs s n + 1)) k \<and> blocked t k = ((blocked s)(n := True)) k" for k
  proof (cases "k = n")
    case True
    then show ?thesis using vt q rn by (simp add: t)
  next
    case False
    then have nt: "\<not> matches ROOTDEV k (bufs t b)" using q(1) by (simp add: t matches_def)
    show ?thesis
    proof (cases "matches ROOTDEV k (bufs s b)")
      case True
      then have "\<not> matches ROOTDEV n (bufs s b)" using False by (simp add: matches_def)
      then have z: "b_refcnt (bufs s b) = 0" using m by blast
      have u: "\<forall>c < NBUF. \<not> matches ROOTDEV k (bufs t c)"
      proof (intro allI impI notI)
        fix c assume c: "c < NBUF" "matches ROOTDEV k (bufs t c)"
        then have "c \<noteq> b" using nt by blast
        with c show False using same_bufD [OF one _ b(1) _ True, of c] by (simp add: t)
      qed
      have d: "b_valid (bufs s b) \<Longrightarrow> b_data (bufs s b) = disk s k"
        using inv z b(1) True unfolding cache_inv_def matches_def by blast
      show ?thesis using view_cached [OF one b(1) True] view_uncached [OF u] b(2) False z d by (simp add: t)
    next
      case no: False
      show ?thesis using view_other [OF one one' _ no nt] False by (simp add: t same_content_def)
    qed
  qed
  then show "blk t = blk s" "refs t = (refs s)(n := refs s n + 1)" "blocked t = (blocked s)(n := True)" by auto
  have "refs s n = b_refcnt (bufs s b)" using m view_cached(1) [OF one b(1)] view_uncached(1) by metis
  then show "room t = (if refs s n = 0 then room s - 1 else room s)"
    using room_upd [OF b(1), of t s] rn b(3) by (simp add: t)
qed

lemma view_relock [simp]:
  "blk (relock s) = blk s" "refs (relock s) = refs s" "blocked (relock s) = blocked s" "room (relock s) = room s"
  "cache_inv (relock s) = cache_inv s" "holds_buf (relock s) = holds_buf s" "owns (relock s) = owns s"
  "untouched s (relock t) = untouched s t"
  by (simp_all add: fun_eq_iff blk_def refs_def blocked_def room_def cache_inv_def bio_inv_def holds_buf_def owns_def untouched_def cong: option.case_cong)

lemma owns_inv:
  assumes "owns s b n" "cache_inv s"
  shows "one_buf (bufs s)" "b < NBUF" "matches ROOTDEV n (bufs s b)" "b_valid (bufs s b)" "refs s n = b_refcnt (bufs s b)"
    "refs s n \<noteq> 0" "blk s n = b_data (bufs s b)" "blocked s n" "b_blockno (bufs s b) = n"
proof -
  show b: "one_buf (bufs s)" "b < NBUF" "matches ROOTDEV n (bufs s b)" "b_valid (bufs s b)"
    using assms by (auto simp: owns_def cache_inv_def bio_inv_def)
  have l: "sl_locked (slocks s (BufSleep b))" using assms(1) by (auto simp: owns_def holds_buf_def)
  show "refs s n = b_refcnt (bufs s b)" "refs s n \<noteq> 0" "blk s n = b_data (bufs s b)" "blocked s n"
    using view_cached [OF b(1-3)] b l assms(2) by (auto simp: cache_inv_def bio_inv_def)
  show "b_blockno (bufs s b) = n" using b(3) by (simp add: matches_def)
qed

lemma owns_same:
  assumes "owns s c m" "me t = me s" "\<And>q. p_pid (ptab t q) = p_pid (ptab s q)" "slocks t (BufSleep c) = slocks s (BufSleep c)"
    "same_content (bufs t c) (bufs s c)"
  shows "owns t c m"
  using assms by (auto simp: owns_def holds_buf_def matches_def same_content_def)

lemma bread_ok:
  assumes "quiet s" "cache_inv s" "\<not> blocked s n" "refs s n \<noteq> 0 \<or> 0 < room s" "refs s n + 1 \<noteq> 0"
  obtains b t where "bread ROOTDEV n s = Done b t" "quiet t" "cache_inv t" "untouched s t" "owns t b n"
    "b_data (bufs t b) = blk s n" "blk t = blk s" "disk t = disk s" "dwrites t = dwrites s"
    "refs t = (refs s)(n := refs s n + 1)" "blocked t = (blocked s)(n := True)"
    "room t = (if refs s n = 0 then room s - 1 else room s)"
    "\<And>c m. owns s c m \<Longrightarrow> owns t c m \<and> c \<noteq> b \<and> bufs t c = bufs s c"
proof -
  obtain p where p: "me s = Some p" using quiet_me [OF assms(1)] by blast
  obtain xs where xs: "bio_inv s xs" using assms(2) by (auto simp: cache_inv_def)
  then have one: "ring (bufs s) xs" "one_buf (bufs s)" by (auto simp: bio_inv_def)
  obtain b where b: "buf_for ROOTDEV n (bufs s) xs = Some b" "b < NBUF"
      and m: "matches ROOTDEV n (bufs s b) \<or> (\<forall>c < NBUF. \<not> matches ROOTDEV n (bufs s c)) \<and> b_refcnt (bufs s b) = 0"
    by (rule buf_for_some [OF one(1) assms(4)])
  have l: "\<not> sl_locked (slocks s (BufSleep b))"
    using m assms(3) view_cached(3) [OF one(2) b(2)] xs b(2) by (auto simp: bio_inv_def)
  let ?t = "sl_taken (BufSleep b) p (upd_buf b (fetched ROOTDEV n (disk s)) s)"
  note fr = bread_frame [OF assms(2) b(2) l assms(5) m, where p = p]
  have run: "bread ROOTDEV n s = Done b (relock ?t)" by (rule bread_eval [OF assms(1) p xs b(1) l])
  have "untouched s ?t"
    by (rule untouchedI [where P = "ptab s" and B = "bufs ?t" and K = "slocks ?t" and d = "disk s" and w = "dwrites s"])
      (auto simp: sl_taken_def upd_slock_def upd_buf_def)
  moreover have "owns ?t b n" using b p
    by (auto simp: owns_def holds_buf_def fetched_def claimed_def matches_def Let_def)
  moreover have "owns ?t c k \<and> c \<noteq> b \<and> bufs ?t c = bufs s c" if o: "owns s c k" for c k
  proof -
    have "c \<noteq> b" using o l by (auto simp: owns_def holds_buf_def)
    then show ?thesis using owns_same [OF o, of ?t] by (simp add: same_content_def)
  qed
  ultimately show ?thesis using that [of b "relock ?t"] run fr assms(1) by simp
qed

lemma set_data_ok:
  fixes d :: block
  assumes "cache_inv s" "owns s b n"
  defines "t \<equiv> upd_buf b (\<lambda>q. q\<lparr>b_data := d\<rparr>) s"
  shows "cache_inv t" "blk t = (blk s)(n := d)" "refs t = refs s" "blocked t = blocked s" "room t = room s"
    "owns t b n" "untouched s t" "owns s c m \<Longrightarrow> owns t c m"
proof -
  note o = owns_inv [OF assms(2,1)]
  have t: "bufs t = (bufs s)(b := (bufs s b)\<lparr>b_data := d\<rparr>)" "disk t = disk s" "slocks t = slocks s" "me t = me s" "ptab t = ptab s"
    by (simp_all add: t_def)
  have mt: "matches ROOTDEV k (bufs t c) = matches ROOTDEV k (bufs s c)" for k c by (simp add: t matches_def)
  have one: "one_buf (bufs t)" by (rule one_buf_same [OF o(1)]) (simp_all add: t)
  obtain xs where xs: "bio_inv s xs" using assms(1) by (auto simp: cache_inv_def)
  then have "bio_inv t xs" using one ring_upd_links [of "bufs s" xs _ b] by (auto simp: bio_inv_def t)
  then show "cache_inv t" using assms(1) o(5,6) by (auto simp: cache_inv_def t)
  have "blk t k = ((blk s)(n := d)) k \<and> refs t k = refs s k \<and> blocked t k = blocked s k" for k
  proof (cases "k = n")
    case True
    then show ?thesis using view_cached [OF one o(2) iffD2 [OF mt o(3)]] view_cached(3) [OF o(1-3)] o by (simp add: t)
  next
    case False
    then have no: "\<not> matches ROOTDEV k (bufs s b)" "\<not> matches ROOTDEV k (bufs t b)" using o(3) mt by (simp_all add: matches_def)
    show ?thesis using view_other [OF o(1) one _ no] False by (simp add: t same_content_def)
  qed
  then show "blk t = (blk s)(n := d)" "refs t = refs s" "blocked t = blocked s" by auto
  show "room t = room s" by (simp add: room_def t) (rule arg_cong [of _ _ card], auto)
  show "owns t b n" using assms(2) by (auto simp: owns_def holds_buf_def t matches_def)
  show "owns s c m \<Longrightarrow> owns t c m" by (auto simp: owns_def holds_buf_def t matches_def)
  show "untouched s t"
    by (rule untouchedI [where P = "ptab s" and B = "bufs t" and K = "slocks s" and d = "disk s" and w = "dwrites s"])
      (auto simp: t_def upd_buf_def)
qed

lemma bwrite_ok:
  assumes "quiet s" "cache_inv s" "owns s b n"
  obtains t where "bwrite b s = Done () t" "quiet t" "cache_inv t" "untouched s t" "bufs t = bufs s"
    "disk t = (disk s)(n := blk s n)" "dwrites t = dwrites s @ [(n, blk s n)]"
    "blk t = blk s" "refs t = refs s" "blocked t = blocked s" "room t = room s" "\<And>c m. owns s c m \<Longrightarrow> owns t c m"
proof -
  note o = owns_inv [OF assms(3,2)]
  let ?t = "s\<lparr>disk := (disk s)(n := blk s n), dwrites := dwrites s @ [(n, blk s n)]\<rparr>"
  have "holds_buf s b" using assms(3) by (simp add: owns_def)
  from bwrite_eval [OF assms(1) this] have run: "bwrite b s = Done () (relock ?t)" using o by simp
  have cl: "k \<noteq> b_blockno (bufs s b)" if "c < NBUF" "b_valid (bufs s c)" "b_refcnt (bufs s c) = 0" "k = b_blockno (bufs s c)" for c k
  proof
    assume "k = b_blockno (bufs s b)"
    then have "matches ROOTDEV n (bufs s c)" using that assms(2) o(9) by (auto simp: cache_inv_def matches_def)
    then have "c = b" using same_bufD [OF o(1) that(1) o(2) _ o(3)] by blast
    then show False using that(3) o(5,6) by simp
  qed
  have "cache_inv ?t" using assms(2) cl o(9) by (auto simp: cache_inv_def bio_inv_def)
  moreover have "blk ?t k = blk s k" for k
  proof (cases "k = n")
    case True
    then show ?thesis using view_cached(2) [of ?t b n] o by simp
  next
    case False
    then show ?thesis by (simp add: blk_def cong: option.case_cong)
  qed
  then have "blk ?t = blk s" by auto
  moreover have "refs ?t = refs s" "blocked ?t = blocked s" "room ?t = room s"
    by (simp_all add: fun_eq_iff refs_def blocked_def room_def cong: option.case_cong)
  moreover have "untouched s ?t"
    by (rule untouchedI [where P = "ptab s" and B = "bufs s" and K = "slocks s"]) auto
  moreover have "owns ?t c m" if "owns s c m" for c m using that by (auto simp: owns_def holds_buf_def)
  ultimately show ?thesis using that [of "relock ?t"] run assms(1) by simp
qed

lemma refs_change_ok:
  fixes f :: "uint \<Rightarrow> uint"
  assumes "cache_inv s" "owns s b n" "f (refs s n) \<noteq> 0"
  defines "t \<equiv> upd_buf b (\<lambda>q. q\<lparr>b_refcnt := f (b_refcnt q)\<rparr>) s"
  shows "cache_inv t" "blk t = blk s" "refs t = (refs s)(n := f (refs s n))" "blocked t = blocked s" "room t = room s"
    "untouched s t" "owns s c m \<Longrightarrow> owns t c m"
proof -
  note o = owns_inv [OF assms(2,1)]
  have t: "bufs t = (bufs s)(b := (bufs s b)\<lparr>b_refcnt := f (b_refcnt (bufs s b))\<rparr>)" "disk t = disk s" "slocks t = slocks s" "me t = me s" "ptab t = ptab s"
    by (simp_all add: t_def)
  have mt: "matches ROOTDEV k (bufs t c) = matches ROOTDEV k (bufs s c)" for k c by (simp add: t matches_def)
  have one: "one_buf (bufs t)" by (rule one_buf_same [OF o(1)]) (simp_all add: t)
  obtain xs where xs: "bio_inv s xs" using assms(1) by (auto simp: cache_inv_def)
  then have "bio_inv t xs" using one ring_upd_links [of "bufs s" xs _ b] assms(3) o(5) by (auto simp: bio_inv_def t)
  then show "cache_inv t" using assms(1,3) o(5) by (auto simp: cache_inv_def t)
  have "blk t k = blk s k \<and> refs t k = ((refs s)(n := f (refs s n))) k \<and> blocked t k = blocked s k" for k
  proof (cases "k = n")
    case True
    then show ?thesis using view_cached [OF one o(2) iffD2 [OF mt o(3)]] view_cached(3) [OF o(1-3)] o by (simp add: t)
  next
    case False
    then have no: "\<not> matches ROOTDEV k (bufs s b)" "\<not> matches ROOTDEV k (bufs t b)" using o(3) mt by (simp_all add: matches_def)
    show ?thesis using view_other [OF o(1) one _ no] False by (simp add: t same_content_def)
  qed
  then show "blk t = blk s" "refs t = (refs s)(n := f (refs s n))" "blocked t = blocked s" by auto
  show "room t = room s" using room_upd [OF o(2), of t s] assms(3) o(5,6) by (simp add: t)
  show "owns s c m \<Longrightarrow> owns t c m" by (auto simp: owns_def holds_buf_def t matches_def)
  show "untouched s t"
    by (rule untouchedI [where P = "ptab s" and B = "bufs t" and K = "slocks s" and d = "disk s" and w = "dwrites s"])
      (auto simp: t_def upd_buf_def)
qed

lemma brelse_ok:
  assumes "quiet s" "cache_inv s" "owns s b n" "refs s n = 1 \<Longrightarrow> blk s n = disk s n"
  obtains t where "brelse b s = Done () t" "quiet t" "cache_inv t" "untouched s t" "disk t = disk s" "dwrites t = dwrites s"
    "blk t = blk s" "refs t = (refs s)(n := refs s n - 1)" "blocked t = (blocked s)(n := False)"
    "room t = (if refs s n = 1 then room s + 1 else room s)"
    "\<And>c m. owns s c m \<Longrightarrow> c \<noteq> b \<Longrightarrow> owns t c m \<and> b_data (bufs t c) = b_data (bufs s c)"
proof -
  note o = owns_inv [OF assms(3,2)]
  let ?t = "sl_freed (BufSleep b) (s\<lparr>bufs := unref (bufs s) b\<rparr>)"
  have "holds_buf s b" using assms(3) by (simp add: owns_def)
  then have run: "brelse b s = Done () (relock ?t)" by (rule brelse_eval [OF assms(1)])
  obtain xs where xs: "bio_inv s xs" using assms(2) by (auto simp: cache_inv_def)
  obtain ys where ys: "ring (unref (bufs s) b) ys" using ring_unref [of "bufs s" xs b] o(2) xs by (auto simp: bio_inv_def)
  have mt: "matches ROOTDEV k (bufs ?t c) = matches ROOTDEV k (bufs s c)" for k c by (simp add: matches_def)
  have one: "one_buf (bufs ?t)" by (rule one_buf_same [OF o(1)]) simp_all
  have r1: "b_refcnt (bufs s b) - 1 = 0 \<longleftrightarrow> refs s n = 1" using o(5) by (metis diff_add_cancel add.left_neutral diff_self)
  have "bio_inv ?t ys" using ys one xs by (auto simp: bio_inv_def)
  then have "cache_inv ?t" using assms(2,4) o r1 by (auto simp: cache_inv_def)
  moreover have "blk ?t k = blk s k \<and> refs ?t k = ((refs s)(n := refs s n - 1)) k \<and> blocked ?t k = ((blocked s)(n := False)) k" for k
  proof (cases "k = n")
    case True
    then show ?thesis using view_cached [OF one o(2) iffD2 [OF mt o(3)]] o by simp
  next
    case False
    then have no: "\<not> matches ROOTDEV k (bufs s b)" "\<not> matches ROOTDEV k (bufs ?t b)" using o(3) mt by (simp_all add: matches_def)
    show ?thesis using view_other [OF o(1) one _ no] False by (simp add: same_content_def unref_disk)
  qed
  then have "blk ?t = blk s" "refs ?t = (refs s)(n := refs s n - 1)" "blocked ?t = (blocked s)(n := False)" by auto
  moreover have "room ?t = (if refs s n = 1 then room s + 1 else room s)"
    using room_upd [OF o(2), of ?t s] r1 o(5,6) by simp
  moreover have "untouched s ?t"
    by (rule untouchedI [where P = "ptab ?t" and B = "bufs ?t" and K = "slocks ?t" and d = "disk s" and w = "dwrites s"])
      (auto simp: sl_freed_def woken_all_def woken_def upd_slock_def)
  moreover have "owns ?t c m \<and> b_data (bufs ?t c) = b_data (bufs s c)" if "owns s c m" "c \<noteq> b" for c m
    using owns_same [OF that(1), of ?t] that(2) by (simp add: same_content_def unref_disk)
  ultimately show ?thesis using that [of "relock ?t"] run assms(1) by simp
qed

section \<open>The interface\<close>

text \<open>
  What the log relies on. \<open>rd\<close> locks a block, \<open>contents\<close> and \<open>put\<close> read and change the locked buffer, \<open>wr\<close>
  writes it to the disk and \<open>rel\<close> unlocks it; \<open>view\<close>, \<open>stable\<close>, \<open>written\<close>, \<open>users\<close>, \<open>busy\<close> and \<open>spare\<close>
  are what can be observed. The client lemmas are the patterns the log is made of: reading a block,
  rewriting it, and copying one block to another.
\<close>

locale block_cache =
  fixes ok :: "'s \<Rightarrow> bool"
    and view stable :: "'s \<Rightarrow> uint \<Rightarrow> block"
    and written :: "'s \<Rightarrow> (uint \<times> block) list"
    and users :: "'s \<Rightarrow> uint \<Rightarrow> uint"
    and busy :: "'s \<Rightarrow> uint \<Rightarrow> bool"
    and spare :: "'s \<Rightarrow> nat"
    and owner :: "'s \<Rightarrow> nat \<Rightarrow> uint \<Rightarrow> bool"
    and frame :: "'s \<Rightarrow> 's \<Rightarrow> bool"
    and rd :: "uint \<Rightarrow> ('s, nat) kop"
    and contents :: "nat \<Rightarrow> 's \<Rightarrow> block"
    and put :: "nat \<Rightarrow> block \<Rightarrow> 's \<Rightarrow> 's"
    and wr rel :: "nat \<Rightarrow> ('s, unit) kop"
  assumes frame_trans: "frame s t \<Longrightarrow> frame t u \<Longrightarrow> frame s u"
    and owner_law: "ok s \<Longrightarrow> owner s b n \<Longrightarrow> contents b s = view s n \<and> users s n \<noteq> 0 \<and> busy s n"
    and unused_clean_law: "ok s \<Longrightarrow> users s n = 0 \<Longrightarrow> view s n = stable s n"
    and rd_law: "ok s \<Longrightarrow> \<not> busy s n \<Longrightarrow> users s n \<noteq> 0 \<or> 0 < spare s \<Longrightarrow> users s n + 1 \<noteq> 0 \<Longrightarrow>
      \<exists>b t. rd n s = Done b t \<and> ok t \<and> frame s t \<and> owner t b n \<and> view t = view s \<and> stable t = stable s
        \<and> written t = written s \<and> users t = (users s)(n := users s n + 1) \<and> busy t = (busy s)(n := True)
        \<and> spare t = (if users s n = 0 then spare s - 1 else spare s) \<and> (\<forall>c m. owner s c m \<longrightarrow> owner t c m \<and> c \<noteq> b)"
    and put_law: "ok s \<Longrightarrow> owner s b n \<Longrightarrow>
      ok (put b d s) \<and> frame s (put b d s) \<and> view (put b d s) = (view s)(n := d) \<and> stable (put b d s) = stable s
        \<and> written (put b d s) = written s \<and> users (put b d s) = users s \<and> busy (put b d s) = busy s
        \<and> spare (put b d s) = spare s \<and> (\<forall>c m. owner s c m \<longrightarrow> owner (put b d s) c m)"
    and wr_law: "ok s \<Longrightarrow> owner s b n \<Longrightarrow>
      \<exists>t. wr b s = Done () t \<and> ok t \<and> frame s t \<and> view t = view s \<and> stable t = (stable s)(n := view s n)
        \<and> written t = written s @ [(n, view s n)] \<and> users t = users s \<and> busy t = busy s \<and> spare t = spare s
        \<and> (\<forall>c m. owner s c m \<longrightarrow> owner t c m)"
    and rel_law: "ok s \<Longrightarrow> owner s b n \<Longrightarrow> (users s n = 1 \<longrightarrow> view s n = stable s n) \<Longrightarrow>
      \<exists>t. rel b s = Done () t \<and> ok t \<and> frame s t \<and> view t = view s \<and> stable t = stable s \<and> written t = written s
        \<and> users t = (users s)(n := users s n - 1) \<and> busy t = (busy s)(n := False)
        \<and> spare t = (if users s n = 1 then spare s + 1 else spare s) \<and> (\<forall>c m. owner s c m \<longrightarrow> c \<noteq> b \<longrightarrow> owner t c m)"
begin

text \<open>The observables of two states agree, apart from the disk and its writes.\<close>

definition same_use :: "'s \<Rightarrow> 's \<Rightarrow> bool" where
  "same_use s t \<longleftrightarrow> ok t \<and> frame s t \<and> users t = users s \<and> busy t = busy s \<and> spare t = spare s"

definition free_for :: "'s \<Rightarrow> uint \<Rightarrow> bool" where
  "free_for s n \<longleftrightarrow> \<not> busy s n \<and> users s n + 1 \<noteq> 0 \<and> (users s n \<noteq> 0 \<or> 0 < spare s)"

lemma users_back: "(users s)(n := users s n + 1 - 1) = users s"
  by auto

lemma read_release:
  assumes "ok s" "free_for s n"
  shows "\<exists>b t u. rd n s = Done b t \<and> contents b t = view s n \<and> rel b t = Done () u
    \<and> same_use s u \<and> view u = view s \<and> stable u = stable s \<and> written u = written s"
proof -
  obtain b t where t: "rd n s = Done b t" "ok t" "frame s t" "owner t b n" "view t = view s" "stable t = stable s"
      "written t = written s" "users t = (users s)(n := users s n + 1)" "busy t = (busy s)(n := True)"
      "spare t = (if users s n = 0 then spare s - 1 else spare s)"
    using rd_law [of s n] assms by (auto simp: free_for_def)
  have one: "users s n + 1 = 1 \<longleftrightarrow> users s n = 0" by simp
  obtain u where u: "rel b t = Done () u" "ok u" "frame t u" "view u = view t" "stable u = stable t" "written u = written t"
      "users u = (users t)(n := users t n - 1)" "busy u = (busy t)(n := False)"
      "spare u = (if users t n = 1 then spare t + 1 else spare t)"
    using rel_law [OF t(2,4)] t one unused_clean_law [OF assms(1), of n] by auto
  have "contents b t = view s n" using owner_law [OF t(2,4)] t by simp
  moreover have "same_use s u"
    using t u assms(2) one frame_trans [OF t(3) u(3)] by (auto simp: same_use_def free_for_def fun_upd_idem)
  ultimately show ?thesis using t u by auto
qed

lemma rewrite_block:
  assumes "ok s" "free_for s n"
  shows "\<exists>b t u v. rd n s = Done b t \<and> contents b t = view s n \<and> wr b (put b d t) = Done () u \<and> rel b u = Done () v
    \<and> same_use s v \<and> view v = (view s)(n := d) \<and> stable v = (stable s)(n := d) \<and> written v = written s @ [(n, d)]"
proof -
  obtain b t where t: "rd n s = Done b t" "ok t" "frame s t" "owner t b n" "view t = view s" "stable t = stable s"
      "written t = written s" "users t = (users s)(n := users s n + 1)" "busy t = (busy s)(n := True)"
      "spare t = (if users s n = 0 then spare s - 1 else spare s)"
    using rd_law [of s n] assms by (auto simp: free_for_def)
  have one: "users s n + 1 = 1 \<longleftrightarrow> users s n = 0" by simp
  define t' where "t' = put b d t"
  have t': "ok t'" "frame t t'" "owner t' b n" "view t' = (view t)(n := d)" "stable t' = stable t" "written t' = written t"
      "users t' = users t" "busy t' = busy t" "spare t' = spare t"
    using put_law [OF t(2,4), of d] t(4) by (simp_all add: t'_def)
  obtain u where u: "wr b t' = Done () u" "ok u" "frame t' u" "owner u b n" "view u = view t'" "stable u = (stable t')(n := view t' n)"
      "written u = written t' @ [(n, view t' n)]" "users u = users t'" "busy u = busy t'" "spare u = spare t'"
    using wr_law [OF t'(1,3)] t'(3) by auto
  obtain v where v: "rel b u = Done () v" "ok v" "frame u v" "view v = view u" "stable v = stable u" "written v = written u"
      "users v = (users u)(n := users u n - 1)" "busy v = (busy u)(n := False)"
      "spare v = (if users u n = 1 then spare u + 1 else spare u)"
    using rel_law [OF u(2,4)] u t' by auto
  have "contents b t = view s n" using owner_law [OF t(2,4)] t by simp
  moreover have "frame s v" using frame_trans [OF frame_trans [OF t(3) t'(2)] frame_trans [OF u(3) v(3)]] .
  then have "same_use s v"
    using t t' u v assms(2) one by (auto simp: same_use_def free_for_def fun_upd_idem)
  ultimately show ?thesis using t t' u v t'_def by auto
qed

end

interpretation bc: block_cache "\<lambda>s. quiet s \<and> cache_inv s" blk disk dwrites refs blocked room owns untouched
  "bread ROOTDEV" "\<lambda>b s. b_data (bufs s b)" "\<lambda>b d. upd_buf b (\<lambda>q. q\<lparr>b_data := d\<rparr>)" bwrite brelse
proof (unfold_locales, goal_cases)
  case 1 then show ?case by (rule untouched_trans)
next
  case 2 then show ?case using owns_inv by metis
next
  case (3 s n)
  then show ?case
    using view_uncached [of n s] view_cached [of s _ n]
    by (cases "\<exists>b < NBUF. matches ROOTDEV n (bufs s b)") (auto simp: cache_inv_def bio_inv_def matches_def)
next
  case (4 s n)
  then show ?case by (elim conjE) (rule bread_ok [of s n]; blast)
next
  case (5 s b n d)
  then show ?case using set_data_ok [where s = s and b = b and n = n and d = d] by simp
next
  case (6 s b n)
  then show ?case by (elim conjE) (rule bwrite_ok [of s b n]; blast)
next
  case (7 s b n)
  then show ?case by (elim conjE) (rule brelse_ok [of s b n]; blast)
qed

lemma binit_cache_inv:
  assumes "quiet s" "\<forall>b < NBUF. b_dev (bufs s b) = 0 \<and> \<not> b_valid (bufs s b) \<and> b_refcnt (bufs s b) = 0"
  shows "\<exists>t. binit s = Done () t \<and> quiet t \<and> cache_inv t \<and> blk t = disk s \<and> disk t = disk s
    \<and> (\<forall>n. \<not> blocked t n \<and> refs t n = 0) \<and> room t = NBUF"
proof -
  obtain t where t: "binit s = Done () t" "ring (bufs t) (rev [0..<NBUF])" "binit_frame s t"
      "\<forall>b < NBUF. \<not> sl_locked (slocks t (BufSleep b))"
    using binit_ok by blast
  have z: "b_dev (bufs t b) = 0 \<and> \<not> b_valid (bufs t b) \<and> b_refcnt (bufs t b) = 0" if "b < NBUF" for b
    using t(3) assms(2) that by (auto simp: binit_frame_def same_content_def)
  have q: "quiet t" using t(3) assms(1) unfolding binit_frame_def quiet_def by metis
  have "cache_inv t" unfolding cache_inv_def bio_inv_def one_buf_def using t(2,4) z by blast
  moreover have "\<forall>b < NBUF. \<not> matches ROOTDEV n (bufs t b)" for n using z by (simp add: matches_def ROOTDEV_def)
  then have "refs t n = 0 \<and> blk t n = disk t n \<and> \<not> blocked t n" for n using view_uncached by blast
  moreover have "{b. b < NBUF \<and> b_refcnt (bufs t b) = 0} = {0..<NBUF}" using z by auto
  then have "room t = NBUF" by (simp add: room_def)
  moreover have "disk t = disk s" using t(3) by (simp add: binit_frame_def)
  ultimately show ?thesis using t(1) q by auto
qed

section \<open>Properties\<close>


definition sample_bcache :: bcache where
  "sample_bcache = sleepers.extend sample_sleepers \<lparr>bufs = (\<lambda>_. \<lparr>b_valid = False, b_disk = False, b_dev = 0, b_blockno = 0,
     b_refcnt = 0, b_prev = 0, b_next = 0, b_data = (\<lambda>_. 0)\<rparr>), disk = (\<lambda>n i. ucast n), dwrites = []\<rparr>"

lemma sample_bcache_ok:
  "quiet sample_bcache" "\<forall>b < NBUF. b_dev (bufs sample_bcache b) = 0 \<and> \<not> b_valid (bufs sample_bcache b) \<and> b_refcnt (bufs sample_bcache b) = 0"
  by (simp_all add: quiet_def sample_bcache_def sample_sleepers_def sample_console_def sample_system_def proctab.defs console.defs sleepers.defs
      me_def cpu_ok_def lock_idle_def cpu_defs)


text \<open>
  C10. The cache is transparent and writes go through: a process that locks block \<open>n\<close>, changes it,
  writes it with \<open>bwrite\<close> and releases it finds the new content when it reads the block again; the
  disk has exactly that block changed, and every other block reads as before. No step panics.
\<close>

theorem bread_after_bwrite:
  assumes "quiet s" "cache_inv s" "\<not> blocked s n" "refs s n + 1 \<noteq> 0" "refs s n \<noteq> 0 \<or> 0 < room s"
  shows "\<exists>b t u v b' w. bread ROOTDEV n s = Done b t \<and> b_data (bufs t b) = blk s n
    \<and> bwrite b (upd_buf b (\<lambda>q. q\<lparr>b_data := d\<rparr>) t) = Done () u \<and> brelse b u = Done () v
    \<and> disk v = (disk s)(n := d) \<and> (\<forall>m. m \<noteq> n \<longrightarrow> blk v m = blk s m) \<and> cache_inv v
    \<and> bread ROOTDEV n v = Done b' w \<and> b_data (bufs w b') = d"
proof -
  have ok: "quiet s \<and> cache_inv s" and free: "bc.free_for s n" using assms by (simp_all add: bc.free_for_def)
  obtain b t u v where 1: "bread ROOTDEV n s = Done b t" "b_data (bufs t b) = blk s n"
      "bwrite b (upd_buf b (\<lambda>q. q\<lparr>b_data := d\<rparr>) t) = Done () u" "brelse b u = Done () v"
      "bc.same_use s v" "blk v = (blk s)(n := d)" "disk v = (disk s)(n := d)"
    using bc.rewrite_block [OF ok free, of d] by blast
  then have "quiet v \<and> cache_inv v" "bc.free_for v n" using free by (simp_all add: bc.same_use_def bc.free_for_def)
  from bc.read_release [OF this] obtain b' w where "bread ROOTDEV n v = Done b' w" "b_data (bufs w b') = blk v n"
    by blast
  with 1 show ?thesis by (auto simp: bc.same_use_def)
qed

theorem bread_after_bwrite_witness:
  "\<exists>s :: bcache. \<exists>b t u v b' w. bread ROOTDEV 7 s = Done b t \<and> b_data (bufs t b) = (\<lambda>_. 7)
    \<and> bwrite b (upd_buf b (\<lambda>q. q\<lparr>b_data := (\<lambda>_. 1)\<rparr>) t) = Done () u \<and> brelse b u = Done () v
    \<and> bread ROOTDEV 7 v = Done b' w \<and> b_data (bufs w b') = (\<lambda>_. 1)"
proof -
  obtain s :: bcache where "quiet s" "cache_inv s" "\<not> blocked s 7" "refs s 7 = 0" "room s = NBUF" "blk s = disk sample_bcache"
    using binit_cache_inv [OF sample_bcache_ok] by metis
  moreover have "disk sample_bcache 7 = (\<lambda>_. 7)" by (simp add: sample_bcache_def sleepers.defs)
  ultimately show ?thesis using bread_after_bwrite [of s 7 "\<lambda>_. 1"] by (fastforce simp: NBUF_def MAXOPBLOCKS_def)
qed



end
