(* ===== verification/Log.thy ===== *)
theory Log
  imports Bio
begin

text \<open>
  \<^verbatim>\<open>kernel/log.c\<close>: the write-ahead log. Block numbers are unsigned words, as \<^verbatim>\<open>bread\<close> takes them. The
  header block on disk holds the count in its first four bytes and the block numbers after it.

  A crash can happen between any two block writes. \<open>dwrites\<close> records the writes in order, so the
  disk after a crash is the old disk with some first part of the writes of \<open>commit\<close> applied.
\<close>

section \<open>State\<close>

record logs = bcache +
  log_start :: uint
  log_outstanding :: int
  log_committing :: bool
  log_dev :: uint
  lh_n :: int
  lh_block :: "nat \<Rightarrow> uint"

section \<open>Operations\<close>

text \<open>Reading and writing a header in a block.\<close>

definition head_n :: "block \<Rightarrow> int" where
  "head_n d = sint (get32 d 0)"

definition head_block :: "block \<Rightarrow> nat \<Rightarrow> uint" where
  "head_block d i = get32 d (4 + 4 * i)"

fun put_blocks :: "block \<Rightarrow> (nat \<Rightarrow> uint) \<Rightarrow> nat \<Rightarrow> block" where
  "put_blocks d f 0 = d"
| "put_blocks d f (Suc i) = put32 (put_blocks d f i) (4 + 4 * i) (f i)"

definition put_head :: "block \<Rightarrow> int \<Rightarrow> (nat \<Rightarrow> uint) \<Rightarrow> block" where
  "put_head d n f = put_blocks (put32 d 0 (word_of_int n)) f (nat n)"

definition install_one :: "bool \<Rightarrow> nat \<Rightarrow> ('z logs_scheme, unit) kop" where
  "install_one recovering tail =
     kbind (kget (\<lambda>s. s)) (\<lambda>s0.
     kseq (kwhen recovering (printf (ascii ''recovering tail %d dst %d'' @ [10])
             [VWord (of_nat tail), VWord (ucast (lh_block s0 tail))]))
    (kbind (bread (log_dev s0) (log_start s0 + of_nat tail + 1)) (\<lambda>lbuf.
     kbind (bread (log_dev s0) (lh_block s0 tail)) (\<lambda>dbuf.
     kseq (kmod (\<lambda>s. upd_buf dbuf (\<lambda>q. q\<lparr>b_data := b_data (bufs s lbuf)\<rparr>) s))
    (kseq (bwrite dbuf)
    (kseq (kwhen (\<not> recovering) (bunpin dbuf))
    (kseq (brelse lbuf) (brelse dbuf))))))))"

definition install_trans :: "bool \<Rightarrow> ('z logs_scheme, unit) kop" where
  "install_trans recovering = kbind (kget lh_n) (\<lambda>n. kfor [0..<nat n] (install_one recovering))"

definition read_head :: "('z logs_scheme, unit) kop" where
  "read_head =
     kbind (kget (\<lambda>s. s)) (\<lambda>s0.
     kbind (bread (log_dev s0) (log_start s0)) (\<lambda>b.
     kbind (kget (\<lambda>s. b_data (bufs s b))) (\<lambda>d.
     kseq (kmod (\<lambda>s. s\<lparr>lh_n := head_n d\<rparr>))
    (kseq (kmod (\<lambda>s. s\<lparr>lh_block := (\<lambda>i. if i < nat (head_n d) then head_block d i else lh_block s i)\<rparr>))
          (brelse b)))))"

definition write_head :: "('z logs_scheme, unit) kop" where
  "write_head =
     kbind (kget (\<lambda>s. s)) (\<lambda>s0.
     kbind (bread (log_dev s0) (log_start s0)) (\<lambda>b.
     kseq (kmod (\<lambda>s. upd_buf b (\<lambda>q. q\<lparr>b_data := put_head (b_data q) (lh_n s) (lh_block s)\<rparr>) s))
    (kseq (bwrite b) (brelse b))))"

definition recover_from_log :: "('z logs_scheme, unit) kop" where
  "recover_from_log =
     kseq read_head
    (kseq (install_trans True)
    (kseq (kmod (\<lambda>s. s\<lparr>lh_n := 0\<rparr>)) write_head))"

definition initlog :: "uint \<Rightarrow> uint \<Rightarrow> ('z logs_scheme, unit) kop" where
  "initlog dev logstart =
     (if BSIZE \<le> 4 + 4 * LOGBLOCKS then kpanic ''initlog: too big logheader''
      else kseq (initlock LogLock ''log'')
          (kseq (kmod (\<lambda>s. s\<lparr>log_start := logstart, log_dev := dev\<rparr>)) recover_from_log))"

text \<open>\<open>begin_op\<close> sleeps while a commit runs or the log might overflow, and tries again when woken.\<close>

definition begin_op_loop :: "('z logs_scheme, unit) kop" where
  "begin_op_loop s =
     (if log_committing s then sleep LogChan LogLock s
      else if lh_n s + (log_outstanding s + 1) * int MAXOPBLOCKS > int LOGBLOCKS then sleep LogChan LogLock s
      else kseq (kmod (\<lambda>s. s\<lparr>log_outstanding := log_outstanding s + 1\<rparr>)) (release LogLock) s)"

definition begin_op :: "('z logs_scheme, unit) kop" where
  "begin_op = kseq (acquire LogLock) begin_op_loop"

definition begin_op_resume :: "bool \<Rightarrow> ('z logs_scheme, unit) kop" where
  "begin_op_resume ena = kseq (sleep_resume LogLock ena) begin_op_loop"

definition write_log_one :: "nat \<Rightarrow> ('z logs_scheme, unit) kop" where
  "write_log_one tail =
     kbind (kget (\<lambda>s. s)) (\<lambda>s0.
     kbind (bread (log_dev s0) (log_start s0 + of_nat tail + 1)) (\<lambda>to.
     kbind (bread (log_dev s0) (lh_block s0 tail)) (\<lambda>from.
     kseq (kmod (\<lambda>s. upd_buf to (\<lambda>q. q\<lparr>b_data := b_data (bufs s from)\<rparr>) s))
    (kseq (bwrite to)
    (kseq (brelse from) (brelse to))))))"

definition write_log :: "('z logs_scheme, unit) kop" where
  "write_log = kbind (kget lh_n) (\<lambda>n. kfor [0..<nat n] write_log_one)"

definition commit :: "('z logs_scheme, unit) kop" where
  "commit =
     kbind (kget lh_n) (\<lambda>n.
     kwhen (0 < n)
      (kseq write_log
      (kseq write_head
      (kseq (install_trans False)
      (kseq (kmod (\<lambda>s. s\<lparr>lh_n := 0\<rparr>)) write_head)))))"

definition end_op :: "('z logs_scheme, unit) kop" where
  "end_op =
     kseq (acquire LogLock)
    (kseq (kmod (\<lambda>s. s\<lparr>log_outstanding := log_outstanding s - 1\<rparr>))
    (kbind (kget (\<lambda>s. s)) (\<lambda>s1.
     if log_committing s1 then kpanic ''log.committing''
     else if log_outstanding s1 = 0
     then kseq (kmod (\<lambda>s. s\<lparr>log_committing := True\<rparr>))
         (kseq (release LogLock)
         (kseq commit
         (kseq (acquire LogLock)
         (kseq (kmod (\<lambda>s. s\<lparr>log_committing := False\<rparr>))
         (kseq (wakeup LogChan) (release LogLock))))))
     else kseq (wakeup LogChan) (release LogLock))))"

text \<open>The position of a block in the header, or the count if it is not there.\<close>

fun find_slot :: "(nat \<Rightarrow> uint) \<Rightarrow> nat \<Rightarrow> nat \<Rightarrow> uint \<Rightarrow> nat" where
  "find_slot f i 0 b = i"
| "find_slot f i (Suc k) b = (if f i = b then i else find_slot f (Suc i) k b)"

definition log_write :: "nat \<Rightarrow> ('z logs_scheme, unit) kop" where
  "log_write b =
     kseq (acquire LogLock)
    (kbind (kget (\<lambda>s. s)) (\<lambda>s0.
     if lh_n s0 \<ge> int LOGBLOCKS then kpanic ''too big a transaction''
     else if log_outstanding s0 < 1 then kpanic ''log_write outside of trans''
     else let i = find_slot (lh_block s0) 0 (nat (lh_n s0)) (b_blockno (bufs s0 b)) in
       kseq (kmod (\<lambda>s. s\<lparr>lh_block := (lh_block s)(i := b_blockno (bufs s b))\<rparr>))
      (kseq (kwhen (int i = lh_n s0) (kseq (bpin b) (kmod (\<lambda>s. s\<lparr>lh_n := lh_n s + 1\<rparr>))))
            (release LogLock))))"

end
