(* ===== verification/Commit.thy ===== *)
theory Commit
  imports Log
begin

text \<open>
  The log makes a transaction atomic across crashes. \<open>commit\<close> writes the modified blocks to the log,
  then the header that lists them, then the blocks in their places, and then the empty header
  (\<open>commit_writes\<close>); and recovery at boot installs what the header lists (\<open>recovered\<close>). Whatever
  first part of the writes of \<open>commit\<close> reached the disk before a crash, recovery leaves all blocks
  outside the log as they were before the commit, or all as they are after it.
\<close>

section \<open>Writes\<close>

definition apply_writes :: "(uint \<Rightarrow> block) \<Rightarrow> (uint \<times> block) list \<Rightarrow> uint \<Rightarrow> block" where
  "apply_writes d ws = foldl (\<lambda>d (n, b). d(n := b)) d ws"

definition log_block :: "uint \<Rightarrow> nat \<Rightarrow> uint" where
  "log_block start i = start + of_nat i + 1"

definition log_region :: "uint \<Rightarrow> uint set" where
  "log_region start = insert start (log_block start ` {0..<LOGBLOCKS})"

definition log_writes :: "uint \<Rightarrow> (nat \<Rightarrow> uint) \<Rightarrow> (uint \<Rightarrow> block) \<Rightarrow> nat \<Rightarrow> (uint \<times> block) list" where
  "log_writes start B dat k = map (\<lambda>i. (log_block start i, dat (B i))) [0..<k]"

definition home_writes :: "(nat \<Rightarrow> uint) \<Rightarrow> (uint \<Rightarrow> block) \<Rightarrow> nat \<Rightarrow> (uint \<times> block) list" where
  "home_writes B dat k = map (\<lambda>i. (B i, dat (B i))) [0..<k]"

definition commit_writes :: "uint \<Rightarrow> nat \<Rightarrow> (nat \<Rightarrow> uint) \<Rightarrow> (uint \<Rightarrow> block) \<Rightarrow> (uint \<times> block) list" where
  "commit_writes start n B dat =
     (let h = put_head (dat start) (int n) B in
      log_writes start B dat n @ [(start, h)] @ home_writes B dat n @ [(start, put_head h 0 B)])"

text \<open>What recovery makes of a disk.\<close>

definition install_writes :: "uint \<Rightarrow> (nat \<Rightarrow> uint) \<Rightarrow> (uint \<Rightarrow> block) \<Rightarrow> nat \<Rightarrow> (uint \<times> block) list" where
  "install_writes start B d k = map (\<lambda>i. (B i, d (log_block start i))) [0..<k]"

definition recover_writes :: "uint \<Rightarrow> (uint \<Rightarrow> block) \<Rightarrow> (uint \<times> block) list" where
  "recover_writes start d =
     (let h = d start in
      install_writes start (head_block h) d (nat (head_n h)) @ [(start, put_head h 0 (head_block h))])"

definition recovered :: "uint \<Rightarrow> (uint \<Rightarrow> block) \<Rightarrow> uint \<Rightarrow> block" where
  "recovered start d = apply_writes d (recover_writes start d)"

lemma apply_writes_simps [simp]:
  "apply_writes d [] = d" "apply_writes d ((n, b) # ws) = apply_writes (d(n := b)) ws"
  "apply_writes d (us @ ws) = apply_writes (apply_writes d us) ws"
  by (simp_all add: apply_writes_def)

lemma apply_writes_other: "n \<notin> fst ` set ws \<Longrightarrow> apply_writes d ws n = d n"
  by (induction ws arbitrary: d) auto

lemma apply_writes_last:
  assumes "(n, b) \<in> set ws" "\<And>b'. (n, b') \<in> set ws \<Longrightarrow> b' = b" shows "apply_writes d ws n = b"
  using assms
proof (induction ws rule: rev_induct)
  case (snoc w ws)
  obtain m c where w: "w = (m, c)" by (cases w)
  show ?case
  proof (cases "m = n")
    case True
    then have "c = b" using snoc.prems(2) w by simp
    then show ?thesis using True w by simp
  next
    case False
    then have "(n, b) \<in> set ws" using snoc.prems(1) w by auto
    moreover have "b' = b" if "(n, b') \<in> set ws" for b' using snoc.prems(2) [of b'] that by (metis Un_iff set_append)
    ultimately have "apply_writes d ws n = b" by (rule snoc.IH)
    then show ?thesis using False w by simp
  qed
qed simp

lemma apply_writes_mem: "n \<in> fst ` set ws \<Longrightarrow> apply_writes d ws n = apply_writes d' ws n"
proof (induction ws rule: rev_induct)
  case (snoc w ws)
  then show ?case by (cases w) auto
qed simp

lemma log_writes_Suc [simp]: "log_writes start B dat (Suc k) = log_writes start B dat k @ [(log_block start k, dat (B k))]"
  by (simp add: log_writes_def)

lemma home_writes_Suc [simp]: "home_writes B dat (Suc k) = home_writes B dat k @ [(B k, dat (B k))]"
  by (simp add: home_writes_def)

lemma install_writes_Suc [simp]:
  "install_writes start B d (Suc k) = install_writes start B d k @ [(B k, d (log_block start k))]"
  by (simp add: install_writes_def)

lemma writes_0 [simp]: "log_writes start B dat 0 = []" "home_writes B dat 0 = []" "install_writes start B d 0 = []"
  by (simp_all add: log_writes_def home_writes_def install_writes_def)

lemma writes_fst [simp]:
  "fst ` set (log_writes start B dat k) = log_block start ` {0..<k}" "fst ` set (home_writes B dat k) = B ` {0..<k}"
  "fst ` set (install_writes start B d k) = B ` {0..<k}"
  by (auto simp: log_writes_def home_writes_def install_writes_def image_image)

lemma log_block_inj: "i < LOGBLOCKS \<Longrightarrow> j < LOGBLOCKS \<Longrightarrow> log_block start i = log_block start j \<Longrightarrow> i = j"
proof -
  assume a: "i < LOGBLOCKS" "j < LOGBLOCKS" "log_block start i = log_block start j"
  then have "(of_nat i :: uint) = of_nat j" by (simp add: log_block_def)
  then have "unat (of_nat i :: uint) = unat (of_nat j :: uint)" by simp
  then show "i = j" using a(1,2) by (simp add: unat_of_nat LOGBLOCKS_def MAXOPBLOCKS_def)
qed

lemma log_block_start: "i < LOGBLOCKS \<Longrightarrow> log_block start i \<noteq> start"
proof
  assume a: "i < LOGBLOCKS" "log_block start i = start"
  then have "(of_nat (i + 1) :: uint) = 0" by (simp add: log_block_def add.assoc add.commute [of 1])
  then have "unat (of_nat (i + 1) :: uint) = 0" by (simp only: unat_0)
  then have "(i + 1) mod 2 ^ 32 = 0" by (simp only: unat_of_nat) simp
  then show False using a(1) by (simp add: LOGBLOCKS_def MAXOPBLOCKS_def)
qed

section \<open>The header\<close>

lemma get32_put_blocks:
  "i < k \<Longrightarrow> get32 (put_blocks d f k) (4 + 4 * i) = f i"
  "j + 4 \<le> 4 \<Longrightarrow> get32 (put_blocks d f k) j = get32 d j"
  by (induction k) (auto simp: less_Suc_eq)

lemma head_put_head [simp]:
  assumes "0 \<le> n" "n < 2 ^ 31"
  shows "head_n (put_head d n f) = n" "int i < n \<Longrightarrow> head_block (put_head d n f) i = f i"
  using assms
  by (simp_all add: head_n_def head_block_def put_head_def get32_put_blocks int_word_sint)

section \<open>Two blocks at a time\<close>

context block_cache
begin

lemma rd_two:
  assumes "ok s" "a \<noteq> b" "free_for s a" "\<not> busy s b" "users s b + 1 \<noteq> 0" "users s b \<noteq> 0 \<or> 1 < spare s"
  shows "\<exists>x t y u. rd a s = Done x t \<and> rd b t = Done y u \<and> ok u \<and> frame s u \<and> owner u x a \<and> owner u y b \<and> x \<noteq> y
    \<and> view u = view s \<and> stable u = stable s \<and> written u = written s
    \<and> users u = (users s)(a := users s a + 1, b := users s b + 1) \<and> busy u = (busy s)(a := True, b := True)
    \<and> spare u = spare s - (if users s a = 0 then 1 else 0) - (if users s b = 0 then 1 else 0)"
proof -
  obtain x t where t: "rd a s = Done x t" "ok t" "frame s t" "owner t x a" "view t = view s" "stable t = stable s"
      "written t = written s" "users t = (users s)(a := users s a + 1)" "busy t = (busy s)(a := True)"
      "spare t = (if users s a = 0 then spare s - 1 else spare s)"
    using rd_law [of s a] assms by (auto simp: free_for_def)
  have "\<not> busy t b" "users t b \<noteq> 0 \<or> 0 < spare t" "users t b + 1 \<noteq> 0" using t assms by (auto simp: free_for_def)
  from rd_law [OF t(2) this] obtain y u where u: "rd b t = Done y u" "ok u" "frame t u" "owner u y b" "view u = view t"
      "stable u = stable t" "written u = written t" "users u = (users t)(b := users t b + 1)" "busy u = (busy t)(b := True)"
      "spare u = (if users t b = 0 then spare t - 1 else spare t)" "\<forall>c m. owner t c m \<longrightarrow> owner u c m \<and> c \<noteq> y"
    by auto
  have "spare u = spare s - (if users s a = 0 then 1 else 0) - (if users s b = 0 then 1 else 0)"
    using t(8,10) u(10) assms(2) by simp
  moreover have "frame s u" using frame_trans [OF t(3) u(3)] .
  ultimately show ?thesis using t u assms(2) by auto
qed

lemma rel_two:
  assumes "ok s" "owner s x a" "owner s y b" "x \<noteq> y" "a \<noteq> b"
    "users s a = 1 \<longrightarrow> view s a = stable s a" "users s b = 1 \<longrightarrow> view s b = stable s b"
  shows "\<exists>t u. rel x s = Done () t \<and> rel y t = Done () u \<and> ok u \<and> frame s u \<and> view u = view s \<and> stable u = stable s
    \<and> written u = written s \<and> users u = (users s)(a := users s a - 1, b := users s b - 1)
    \<and> busy u = (busy s)(a := False, b := False)
    \<and> spare u = spare s + (if users s a = 1 then 1 else 0) + (if users s b = 1 then 1 else 0)"
proof -
  obtain t where t: "rel x s = Done () t" "ok t" "frame s t" "view t = view s" "stable t = stable s" "written t = written s"
      "users t = (users s)(a := users s a - 1)" "busy t = (busy s)(a := False)"
      "spare t = (if users s a = 1 then spare s + 1 else spare s)" "owner t y b"
    using rel_law [OF assms(1,2,6)] assms(3,4) by blast
  have "users t b = 1 \<longrightarrow> view t b = stable t b" using t assms by auto
  from rel_law [OF t(2,10) this] obtain u where u: "rel y t = Done () u" "ok u" "frame t u" "view u = view t" "stable u = stable t"
      "written u = written t" "users u = (users t)(b := users t b - 1)" "busy u = (busy t)(b := False)"
      "spare u = (if users t b = 1 then spare t + 1 else spare t)"
    by blast
  have "spare u = spare s + (if users s a = 1 then 1 else 0) + (if users s b = 1 then 1 else 0)"
    using t(7,9) u(9) assms(5) by simp
  moreover have "frame s u" using frame_trans [OF t(3) u(3)] .
  ultimately show ?thesis using t u assms(5) by auto
qed

lemma put_wr:
  assumes "ok s" "owner s y b"
  shows "\<exists>t. wr y (put y d s) = Done () t \<and> ok t \<and> frame s t \<and> view t = (view s)(b := d) \<and> stable t = (stable s)(b := d)
    \<and> written t = written s @ [(b, d)] \<and> users t = users s \<and> busy t = busy s \<and> spare t = spare s
    \<and> (\<forall>c m. owner s c m \<longrightarrow> owner t c m)"
proof -
  define u where "u = put y d s"
  have u: "ok u" "frame s u" "view u = (view s)(b := d)" "stable u = stable s" "written u = written s" "users u = users s"
      "busy u = busy s" "spare u = spare s" "\<forall>c m. owner s c m \<longrightarrow> owner u c m"
    using put_law [OF assms, of d] by (simp_all add: u_def)
  obtain t where t: "wr y u = Done () t" "ok t" "frame u t" "view t = view u" "stable t = (stable u)(b := view u b)"
      "written t = written u @ [(b, view u b)]" "users t = users u" "busy t = busy u" "spare t = spare u"
      "\<forall>c m. owner u c m \<longrightarrow> owner t c m"
    using wr_law [OF u(1), of y b] u(9) assms(2) by blast
  moreover have "frame s t" using frame_trans [OF u(2) t(3)] .
  ultimately show ?thesis using u by (auto simp: u_def)
qed

text \<open>Copying block \<open>b\<close> over block \<open>a\<close>, which is locked first.\<close>

lemma copy_to_first:
  assumes "ok s" "a \<noteq> b" "free_for s a" "\<not> busy s b" "users s b + 1 \<noteq> 0" "users s b \<noteq> 0 \<or> 1 < spare s"
  shows "\<exists>x t y u v w z. rd a s = Done x t \<and> rd b t = Done y u \<and> wr x (put x (contents y u) u) = Done () v
    \<and> rel y v = Done () w \<and> rel x w = Done () z \<and> same_use s z \<and> view z = (view s)(a := view s b)
    \<and> stable z = (stable s)(a := view s b) \<and> written z = written s @ [(a, view s b)]"
proof -
  obtain x t y u where u: "rd a s = Done x t" "rd b t = Done y u" "ok u" "frame s u" "owner u x a" "owner u y b" "x \<noteq> y"
      "view u = view s" "stable u = stable s" "written u = written s"
      "users u = (users s)(a := users s a + 1, b := users s b + 1)" "busy u = (busy s)(a := True, b := True)"
      "spare u = spare s - (if users s a = 0 then 1 else 0) - (if users s b = 0 then 1 else 0)"
    using rd_two [OF assms] by blast
  have c: "contents y u = view s b" using owner_law [OF u(3,6)] u(8) by simp
  obtain v where v: "wr x (put x (contents y u) u) = Done () v" "ok v" "frame u v" "view v = (view s)(a := view s b)"
      "stable v = (stable s)(a := view s b)" "written v = written s @ [(a, view s b)]" "users v = users u" "busy v = busy u"
      "spare v = spare u" "owner v x a" "owner v y b"
    using put_wr [OF u(3,5), of "contents y u"] u c by auto
  have "users v b = 1 \<longrightarrow> view v b = stable v b" using v(4,5,7) u(11) assms(2) unused_clean_law [OF assms(1), of b] by auto
  from rel_two [OF v(2,11,10) _ _ this] u(7) assms(2) v(4,5) obtain w z where
    z: "rel y v = Done () w" "rel x w = Done () z" "ok z" "frame v z" "view z = view v" "stable z = stable v" "written z = written v"
      "users z = (users v)(b := users v b - 1, a := users v a - 1)" "busy z = (busy v)(b := False, a := False)"
      "spare z = spare v + (if users v b = 1 then 1 else 0) + (if users v a = 1 then 1 else 0)"
    by auto
  have "users z = users s" "busy z = busy s" using z(8,9) v(7,8) u(11,12) assms(2-4) by (auto simp: free_for_def fun_eq_iff)
  moreover have "spare z = spare s" using z(10) v(7,9) u(11,13) assms(2,3,6) by (auto simp: free_for_def)
  moreover have "frame s z" using frame_trans [OF u(4) frame_trans [OF v(3) z(4)]] .
  ultimately show ?thesis using u v z by (auto simp: same_use_def)
qed

text \<open>Copying block \<open>a\<close>, which is locked first, over block \<open>b\<close>.\<close>

lemma copy_to_second:
  assumes "ok s" "a \<noteq> b" "free_for s a" "\<not> busy s b" "users s b + 1 \<noteq> 0" "users s b \<noteq> 0 \<or> 1 < spare s"
  shows "\<exists>x t y u v. rd a s = Done x t \<and> rd b t = Done y u \<and> wr y (put y (contents x u) u) = Done () v
    \<and> x \<noteq> y \<and> ok v \<and> frame s v \<and> owner v x a \<and> owner v y b \<and> view v = (view s)(b := view s a)
    \<and> stable v = (stable s)(b := view s a) \<and> written v = written s @ [(b, view s a)]
    \<and> users v = (users s)(a := users s a + 1, b := users s b + 1) \<and> busy v = (busy s)(a := True, b := True)
    \<and> spare v = spare s - (if users s a = 0 then 1 else 0) - (if users s b = 0 then 1 else 0)"
proof -
  obtain x t y u where u: "rd a s = Done x t" "rd b t = Done y u" "ok u" "frame s u" "owner u x a" "owner u y b" "x \<noteq> y"
      "view u = view s" "stable u = stable s" "written u = written s"
      "users u = (users s)(a := users s a + 1, b := users s b + 1)" "busy u = (busy s)(a := True, b := True)"
      "spare u = spare s - (if users s a = 0 then 1 else 0) - (if users s b = 0 then 1 else 0)"
    using rd_two [OF assms] by blast
  have c: "contents x u = view s a" using owner_law [OF u(3,5)] u(8) by simp
  obtain v where v: "wr y (put y (contents x u) u) = Done () v" "ok v" "frame u v" "view v = (view s)(b := view s a)"
      "stable v = (stable s)(b := view s a)" "written v = written s @ [(b, view s a)]" "users v = users u" "busy v = busy u"
      "spare v = spare u" "owner v x a" "owner v y b"
    using put_wr [OF u(3,6), of "contents x u"] u c by auto
  have "frame s v" using frame_trans [OF u(4) v(3)] .
  with u v show ?thesis by metis
qed

text \<open>Locking a block, changing it by what it holds, writing and releasing it.\<close>

lemma update_block:
  assumes "ok s" "free_for s n"
  shows "\<exists>b t. rd n s = Done b t \<and> frame s t \<and> contents b t = view s n
    \<and> (\<forall>d. \<exists>u v. wr b (put b d t) = Done () u \<and> rel b u = Done () v \<and> same_use s v \<and> view v = (view s)(n := d)
         \<and> stable v = (stable s)(n := d) \<and> written v = written s @ [(n, d)])"
proof -
  obtain b t where t: "rd n s = Done b t" "frame s t" using rd_law [of s n] assms by (auto simp: free_for_def)
  have "contents b t = view s n" using rewrite_block [OF assms] t(1) by auto
  moreover have "\<exists>u v. wr b (put b d t) = Done () u \<and> rel b u = Done () v \<and> same_use s v \<and> view v = (view s)(n := d)
      \<and> stable v = (stable s)(n := d) \<and> written v = written s @ [(n, d)]" for d
    using rewrite_block [OF assms, of d] t(1) by auto
  ultimately show ?thesis using t by blast
qed

end

section \<open>The log's fields\<close>

lemma logs_lock_simps [simp]:
  "log_start (relock s) = log_start s" "log_dev (relock s) = log_dev s" "lh_n (relock s) = lh_n s" "lh_block (relock s) = lh_block s"
  "log_outstanding (relock s) = log_outstanding s" "log_committing (relock s) = log_committing s"
  "log_start (acquired l s) = log_start s" "log_dev (acquired l s) = log_dev s" "lh_n (acquired l s) = lh_n s"
  "lh_block (acquired l s) = lh_block s" "log_outstanding (acquired l s) = log_outstanding s"
  "log_committing (acquired l s) = log_committing s"
  by (simp_all add: acquired_def pushed_def relock_def upd_lock_def)

lemma logs_lock_upd [simp]:
  "(acquired l s)\<lparr>lh_n := n\<rparr> = acquired l (s\<lparr>lh_n := n\<rparr>)" "(acquired l s)\<lparr>lh_block := B\<rparr> = acquired l (s\<lparr>lh_block := B\<rparr>)"
  "(acquired l s)\<lparr>log_outstanding := k\<rparr> = acquired l (s\<lparr>log_outstanding := k\<rparr>)"
  "(acquired l s)\<lparr>log_committing := c\<rparr> = acquired l (s\<lparr>log_committing := c\<rparr>)"
  "(relock s)\<lparr>lh_n := n\<rparr> = relock (s\<lparr>lh_n := n\<rparr>)" "(relock s)\<lparr>lh_block := B\<rparr> = relock (s\<lparr>lh_block := B\<rparr>)"
  "(relock s)\<lparr>log_outstanding := k\<rparr> = relock (s\<lparr>log_outstanding := k\<rparr>)"
  "(relock s)\<lparr>log_committing := c\<rparr> = relock (s\<lparr>log_committing := c\<rparr>)"
  by (simp_all add: acquired_def pushed_def relock_def upd_lock_def)

lemma untouched_logs:
  fixes s t :: "'z logs_scheme"
  assumes "untouched s t"
  shows "log_start t = log_start s" "log_dev t = log_dev s" "lh_n t = lh_n s" "lh_block t = lh_block s"
    "log_outstanding t = log_outstanding s" "log_committing t = log_committing s"
    "panicking t = panicking s" "panicked t = panicked s"
proof -
  obtain B K P d w where e: "relock t = relock (s\<lparr>bufs := B, slocks := K, ptab := P, disk := d, dwrites := w\<rparr>)"
    using assms by (auto simp: untouched_def)
  show "log_start t = log_start s" "log_dev t = log_dev s" "lh_n t = lh_n s" "lh_block t = lh_block s"
    "log_outstanding t = log_outstanding s" "log_committing t = log_committing s"
    "panicking t = panicking s" "panicked t = panicked s"
    using arg_cong [OF e, of log_start] arg_cong [OF e, of log_dev] arg_cong [OF e, of lh_n] arg_cong [OF e, of lh_block]
      arg_cong [OF e, of log_outstanding] arg_cong [OF e, of log_committing] arg_cong [OF e, of panicking] arg_cong [OF e, of panicked]
    by simp_all
qed

text \<open>What the cache shows depends on the cache only.\<close>

lemma same_cache:
  assumes "bufs t = bufs s" "slocks t = slocks s" "disk t = disk s" "me t = me s" "ptab t = ptab s"
  shows "blk t = blk s" "refs t = refs s" "blocked t = blocked s" "room t = room s" "cache_inv t = cache_inv s" "owns t = owns s"
  using assms unfolding blk_def [abs_def] refs_def [abs_def] blocked_def [abs_def] room_def cache_inv_def bio_inv_def
    owns_def [abs_def] holds_buf_def
  by (simp_all cong: option.case_cong)

lemma logs_upd_view [simp]:
  "blk (s\<lparr>lh_n := n\<rparr>) = blk s" "refs (s\<lparr>lh_n := n\<rparr>) = refs s" "blocked (s\<lparr>lh_n := n\<rparr>) = blocked s" "room (s\<lparr>lh_n := n\<rparr>) = room s"
  "cache_inv (s\<lparr>lh_n := n\<rparr>) = cache_inv s" "owns (s\<lparr>lh_n := n\<rparr>) = owns s" "quiet (s\<lparr>lh_n := n\<rparr>) = quiet s"
  "blk (s\<lparr>lh_block := B\<rparr>) = blk s" "refs (s\<lparr>lh_block := B\<rparr>) = refs s" "blocked (s\<lparr>lh_block := B\<rparr>) = blocked s"
  "room (s\<lparr>lh_block := B\<rparr>) = room s" "cache_inv (s\<lparr>lh_block := B\<rparr>) = cache_inv s" "owns (s\<lparr>lh_block := B\<rparr>) = owns s"
  "quiet (s\<lparr>lh_block := B\<rparr>) = quiet s"
  by (simp_all add: same_cache [of "s\<lparr>lh_n := n\<rparr>" s] same_cache [of "s\<lparr>lh_block := B\<rparr>" s] me_def quiet_def lock_idle_def cpu_ok_def cpu_defs)

lemma printed_view [simp]:
  "blk (printed cs s) = blk s" "refs (printed cs s) = refs s" "blocked (printed cs s) = blocked s" "room (printed cs s) = room s"
  "cache_inv (printed cs s) = cache_inv s" "owns (printed cs s) = owns s" "quiet (printed cs s) = quiet s"
proof -
  have e: "bufs (printed cs s) = bufs s" "slocks (printed cs s) = slocks s" "disk (printed cs s) = disk s" "ptab (printed cs s) = ptab s"
    by (simp_all add: printed_def)
  show "blk (printed cs s) = blk s" "refs (printed cs s) = refs s" "blocked (printed cs s) = blocked s" "room (printed cs s) = room s"
    "cache_inv (printed cs s) = cache_inv s" "owns (printed cs s) = owns s"
    by (simp_all add: same_cache [of "printed cs s" s] e)
  show "quiet (printed cs s) = quiet s" unfolding quiet_def by simp
qed

lemma relock_view [simp]:
  "blk (relock s) = blk s" "refs (relock s) = refs s" "blocked (relock s) = blocked s" "room (relock s) = room s"
  "cache_inv (relock s) = cache_inv s" "owns (relock s) = owns s"
  by (simp_all add: same_cache [of "relock s" s])

section \<open>Writing the log\<close>

text \<open>\<open>stored s t W\<close>: the writes \<open>W\<close>, and nothing else, happened to the blocks from \<open>s\<close> to \<open>t\<close>.\<close>

definition stored :: "'z bcache_scheme \<Rightarrow> 'z bcache_scheme \<Rightarrow> (uint \<times> block) list \<Rightarrow> bool" where
  "stored s t W \<longleftrightarrow> blk t = apply_writes (blk s) W \<and> disk t = apply_writes (disk s) W \<and> dwrites t = dwrites s @ W"

lemma stored_refl [simp]: "stored s s []"
  by (simp add: stored_def)

lemma stored_trans: "stored s t W \<Longrightarrow> stored t u X \<Longrightarrow> stored s u (W @ X)"
  by (simp add: stored_def)

lemma same_use_trans: "bc.same_use s t \<Longrightarrow> bc.same_use t u \<Longrightarrow> bc.same_use s u"
  by (auto simp: bc.same_use_def intro: untouched_trans)

lemma same_useD:
  assumes "bc.same_use s t"
  shows "quiet t" "cache_inv t" "untouched s t" "refs t = refs s" "blocked t = blocked s" "room t = room s"
    "bc.free_for t n = bc.free_for s n"
  using assms by (auto simp: bc.same_use_def bc.free_for_def)

lemma same_use_refl: "quiet s \<Longrightarrow> cache_inv s \<Longrightarrow> bc.same_use s s"
  by (simp add: bc.same_use_def untouched_refl)

lemma write_log_one_ok:
  fixes s :: "'z logs_scheme"
  assumes "quiet s" "cache_inv s" "log_dev s = ROOTDEV"
    "log_block (log_start s) i \<noteq> lh_block s i" "bc.free_for s (log_block (log_start s) i)"
    "\<not> blocked s (lh_block s i)" "refs s (lh_block s i) + 1 \<noteq> 0" "refs s (lh_block s i) \<noteq> 0"
  shows "\<exists>t. write_log_one i s = Done () t \<and> bc.same_use s t \<and> stored s t [(log_block (log_start s) i, blk s (lh_block s i))]"
proof -
  obtain x t y u v w z where
    "bread ROOTDEV (log_block (log_start s) i) s = Done x t" "bread ROOTDEV (lh_block s i) t = Done y u"
    "bwrite x (upd_buf x (\<lambda>q. q\<lparr>b_data := b_data (bufs u y)\<rparr>) u) = Done () v" "brelse y v = Done () w" "brelse x w = Done () z"
    "bc.same_use s z" "blk z = (blk s)(log_block (log_start s) i := blk s (lh_block s i))"
    "disk z = (disk s)(log_block (log_start s) i := blk s (lh_block s i))"
    "dwrites z = dwrites s @ [(log_block (log_start s) i, blk s (lh_block s i))]"
    using bc.copy_to_first [of s "log_block (log_start s) i" "lh_block s i"] assms by blast
  then show ?thesis using assms(3) by (simp add: write_log_one_def log_block_def stored_def)
qed

lemma write_log_ok:
  fixes s :: "'z logs_scheme"
  assumes "quiet s" "cache_inv s" "log_dev s = ROOTDEV" "k \<le> LOGBLOCKS"
    "\<And>i. i < k \<Longrightarrow> lh_block s i \<notin> log_region (log_start s) \<and> \<not> blocked s (lh_block s i) \<and> refs s (lh_block s i) + 1 \<noteq> 0 \<and> refs s (lh_block s i) \<noteq> 0"
    "\<And>i. i < k \<Longrightarrow> bc.free_for s (log_block (log_start s) i)"
  shows "\<exists>t. kfor [0..<k] write_log_one s = Done () t \<and> bc.same_use s t
    \<and> stored s t (log_writes (log_start s) (lh_block s) (blk s) k)"
  using assms(4-)
proof (induction k)
  case 0
  then show ?case using assms(1,2) by (simp add: same_use_refl)
next
  case (Suc k)
  then obtain t where t: "kfor [0..<k] write_log_one s = Done () t" "bc.same_use s t"
      "stored s t (log_writes (log_start s) (lh_block s) (blk s) k)"
    by (meson Suc_leD less_SucI)
  note u = same_useD [OF t(2)] and l = untouched_logs [OF same_useD(3) [OF t(2)]]
  have r: "log_block (log_start s) j \<in> log_region (log_start s)" if "j \<le> k" for j
    using Suc.prems(1) that by (simp add: log_region_def)
  then have ne: "log_block (log_start s) k \<noteq> lh_block s k" using Suc.prems(2) [of k] by (metis lessI order_refl)
  obtain w where w: "write_log_one k t = Done () w" "bc.same_use t w" "stored t w [(log_block (log_start s) k, blk t (lh_block s k))]"
    using write_log_one_ok [of t k] u l Suc.prems(2,3) [of k] ne assms(3) by auto
  have "lh_block s k \<notin> log_block (log_start s) ` {0..<k}" using r Suc.prems(2) [of k] by (auto simp: less_imp_le)
  then have "blk t (lh_block s k) = blk s (lh_block s k)" using t(3) by (simp add: stored_def apply_writes_other)
  then have "stored s w (log_writes (log_start s) (lh_block s) (blk s) (Suc k))" using stored_trans [OF t(3) w(3)] by simp
  then show ?case using t(1) w(1) same_use_trans [OF t(2) w(2)] by (simp add: kfor_append)
qed

lemma write_head_ok:
  fixes s :: "'z logs_scheme"
  assumes "quiet s" "cache_inv s" "log_dev s = ROOTDEV" "bc.free_for s (log_start s)"
  shows "\<exists>t. write_head s = Done () t \<and> bc.same_use s t
    \<and> stored s t [(log_start s, put_head (blk s (log_start s)) (lh_n s) (lh_block s))]"
proof -
  obtain b t where t: "bread ROOTDEV (log_start s) s = Done b t" "untouched s t" "b_data (bufs t b) = blk s (log_start s)"
    and w: "\<And>d. \<exists>u v. bwrite b (upd_buf b (\<lambda>q. q\<lparr>b_data := d\<rparr>) t) = Done () u \<and> brelse b u = Done () v \<and> bc.same_use s v
      \<and> blk v = (blk s)(log_start s := d) \<and> disk v = (disk s)(log_start s := d) \<and> dwrites v = dwrites s @ [(log_start s, d)]"
    using bc.update_block [of s "log_start s"] assms(1,2,4) by auto
  let ?d = "put_head (blk s (log_start s)) (lh_n s) (lh_block s)"
  have "upd_buf b (\<lambda>q. q\<lparr>b_data := put_head (b_data q) (lh_n t) (lh_block t)\<rparr>) t = upd_buf b (\<lambda>q. q\<lparr>b_data := ?d\<rparr>) t"
    by (rule upd_buf_eqI) (simp add: t(3) untouched_logs [OF t(2)])
  then show ?thesis using w [of ?d] t(1) assms(3) by (auto simp: write_head_def stored_def)
qed

section \<open>Installing\<close>

lemma bunpin_ok:
  assumes "quiet s" "cache_inv s" "owns s b n" "refs s n - 1 \<noteq> 0"
  shows "\<exists>t. bunpin b s = Done () t \<and> quiet t \<and> cache_inv t \<and> untouched s t \<and> disk t = disk s \<and> dwrites t = dwrites s
    \<and> blk t = blk s \<and> refs t = (refs s)(n := refs s n - 1) \<and> blocked t = blocked s \<and> room t = room s
    \<and> (\<forall>c m. owns s c m \<longrightarrow> owns t c m)"
proof -
  let ?t = "upd_buf b (\<lambda>q. q\<lparr>b_refcnt := b_refcnt q - 1\<rparr>) s"
  note r = refs_change_ok [OF assms(2,3), of "\<lambda>r. r - 1", OF assms(4)]
  have "untouched s (relock ?t)" using r(6) by (simp add: untouched_def)
  then show ?thesis using assms(1) r by (intro exI [of _ "relock ?t"]) (simp add: bunpin_def)
qed

lemma install_one_commit:
  fixes s :: "'z logs_scheme"
  defines "l i \<equiv> log_block (log_start s) i"
  assumes "quiet s" "cache_inv s" "log_dev s = ROOTDEV" "l i \<noteq> lh_block s i" "bc.free_for s (l i)"
    "\<not> blocked s (lh_block s i)" "refs s (lh_block s i) + 1 \<noteq> 0" "refs s (lh_block s i) \<noteq> 0"
  shows "\<exists>t. install_one False i s = Done () t \<and> quiet t \<and> cache_inv t \<and> untouched s t \<and> stored s t [(lh_block s i, blk s (l i))]
    \<and> refs t = (refs s)(lh_block s i := refs s (lh_block s i) - 1) \<and> blocked t = blocked s \<and> room s \<le> room t"
proof -
  let ?h = "lh_block s i"
  obtain x t y u v where v: "bread ROOTDEV (l i) s = Done x t" "bread ROOTDEV ?h t = Done y u"
      "bwrite y (upd_buf y (\<lambda>q. q\<lparr>b_data := b_data (bufs u x)\<rparr>) u) = Done () v" "x \<noteq> y" "quiet v" "cache_inv v" "untouched s v"
      "owns v x (l i)" "owns v y ?h" "blk v = (blk s)(?h := blk s (l i))" "disk v = (disk s)(?h := blk s (l i))"
      "dwrites v = dwrites s @ [(?h, blk s (l i))]" "refs v = (refs s)(l i := refs s (l i) + 1, ?h := refs s ?h + 1)"
      "blocked v = (blocked s)(l i := True, ?h := True)"
      "room v = room s - (if refs s (l i) = 0 then 1 else 0) - (if refs s ?h = 0 then 1 else 0)"
    using bc.copy_to_second [of s "l i" ?h] assms by auto
  have "refs v ?h - 1 \<noteq> 0" using v(13) assms(9) by simp
  from bunpin_ok [OF v(5,6,9) this] obtain w where w: "bunpin y v = Done () w" "quiet w" "cache_inv w" "untouched v w"
      "disk w = disk v" "dwrites w = dwrites v" "blk w = blk v" "refs w = (refs v)(?h := refs v ?h - 1)" "blocked w = blocked v"
      "room w = room v" "owns w x (l i)" "owns w y ?h"
    using v(8,9) by blast
  have "refs w (l i) = 1 \<longrightarrow> blk w (l i) = disk w (l i)"
    using w v bc.unused_clean_law [of s "l i"] assms by auto
  from bc.rel_two [OF _ w(11,12) v(4) assms(5) this] w v(10,11) obtain z1 z where z: "brelse x w = Done () z1" "brelse y z1 = Done () z"
      "quiet z" "cache_inv z" "untouched w z" "blk z = blk w" "disk z = disk w" "dwrites z = dwrites w"
      "refs z = (refs w)(l i := refs w (l i) - 1, ?h := refs w ?h - 1)" "blocked z = (blocked w)(l i := False, ?h := False)"
      "room z = room w + (if refs w (l i) = 1 then 1 else 0) + (if refs w ?h = 1 then 1 else 0)"
    by auto
  have "install_one False i s = Done () z" using v w z assms(1,4) by (simp add: install_one_def log_block_def)
  moreover have "refs z = (refs s)(?h := refs s ?h - 1)" "blocked z = blocked s"
    using z(9,10) w(8,9) v(13,14) assms(5,6,7) by (auto simp: fun_eq_iff bc.free_for_def)
  moreover have "room s \<le> room z" using z(11) w(8,10) v(13,15) assms(5,6,9) by (auto simp: bc.free_for_def)
  moreover have "untouched s z" using untouched_trans [OF v(7) untouched_trans [OF w(4) z(5)]] .
  ultimately show ?thesis using z w v by (auto simp: stored_def)
qed

lemma install_commit_ok:
  fixes s :: "'z logs_scheme"
  assumes "quiet s" "cache_inv s" "log_dev s = ROOTDEV" "k \<le> LOGBLOCKS" "0 < room s"
    "\<And>i. i < k \<Longrightarrow> lh_block s i \<notin> log_region (log_start s) \<and> \<not> blocked s (lh_block s i) \<and> refs s (lh_block s i) + 1 \<noteq> 0 \<and> refs s (lh_block s i) \<noteq> 0"
    "inj_on (lh_block s) {0..<k}" "\<And>m. m \<in> log_region (log_start s) \<Longrightarrow> bc.free_for s m"
  shows "\<exists>t. kfor [0..<k] (install_one False) s = Done () t \<and> quiet t \<and> cache_inv t \<and> untouched s t
    \<and> stored s t (install_writes (log_start s) (lh_block s) (blk s) k) \<and> blocked t = blocked s \<and> room s \<le> room t
    \<and> refs t = (\<lambda>m. if m \<in> lh_block s ` {0..<k} then refs s m - 1 else refs s m)"
  using assms(4,6,7)
proof (induction k)
  case 0
  then show ?case using assms(1,2) by (simp add: untouched_refl)
next
  case (Suc k)
  have "inj_on (lh_block s) {0..<k}" using Suc.prems(3) by (rule inj_on_subset) auto
  then obtain t where t: "kfor [0..<k] (install_one False) s = Done () t" "quiet t" "cache_inv t" "untouched s t"
      "stored s t (install_writes (log_start s) (lh_block s) (blk s) k)" "blocked t = blocked s" "room s \<le> room t"
      "refs t = (\<lambda>m. if m \<in> lh_block s ` {0..<k} then refs s m - 1 else refs s m)"
    using Suc.IH Suc.prems(1,2) by (meson Suc_leD less_SucI)
  note l = untouched_logs [OF t(4)]
  let ?l = "log_block (log_start s) k" and ?h = "lh_block s k"
  have lr: "?l \<in> log_region (log_start s)" using Suc.prems(1) by (simp add: log_region_def)
  have new: "?h \<notin> lh_block s ` {0..<k}" using Suc.prems(3) by (fastforce dest: inj_onD)
  have old: "?l \<notin> lh_block s ` {0..<k}" "?l \<noteq> ?h" using lr Suc.prems(2) by auto
  have "bc.free_for t ?l" using assms(8) [OF lr] t(6-8) old(1) assms(5) by (auto simp: bc.free_for_def)
  then obtain w where w: "install_one False k t = Done () w" "quiet w" "cache_inv w" "untouched t w" "stored t w [(?h, blk t ?l)]"
      "refs w = (refs t)(?h := refs t ?h - 1)" "blocked w = blocked t" "room t \<le> room w"
    using install_one_commit [of t k] t l old(2) assms(3) new Suc.prems(2) [of k] by auto
  have "blk t ?l = blk s ?l" using t(5) old(1) by (simp add: stored_def apply_writes_other)
  then have "stored s w (install_writes (log_start s) (lh_block s) (blk s) (Suc k))" using stored_trans [OF t(5) w(5)] by simp
  moreover have "refs w = (\<lambda>m. if m \<in> lh_block s ` {0..<Suc k} then refs s m - 1 else refs s m)"
    using w(6) t(8) new by (auto simp: fun_eq_iff less_Suc_eq)
  ultimately show ?case using t w untouched_trans [OF t(4) w(4)] by (auto simp: kfor_append)
qed

section \<open>Commit\<close>

text \<open>
  \<open>log_full s n\<close>: the transaction has \<open>n\<close> distinct blocks outside the log, each pinned in the cache and
  not locked; the blocks of the log can be locked; and there is a buffer to use.
\<close>

definition log_full :: "'z logs_scheme \<Rightarrow> nat \<Rightarrow> bool" where
  "log_full s n \<longleftrightarrow> quiet s \<and> cache_inv s \<and> log_dev s = ROOTDEV \<and> lh_n s = int n \<and> 0 < n \<and> n \<le> LOGBLOCKS \<and> 0 < room s
     \<and> inj_on (lh_block s) {0..<n}
     \<and> (\<forall>i < n. lh_block s i \<notin> log_region (log_start s) \<and> \<not> blocked s (lh_block s i)
          \<and> refs s (lh_block s i) + 1 \<noteq> 0 \<and> refs s (lh_block s i) \<noteq> 0)
     \<and> (\<forall>m \<in> log_region (log_start s). bc.free_for s m)"

lemma apply_log_writes:
  "i < k \<Longrightarrow> k \<le> LOGBLOCKS \<Longrightarrow> apply_writes d (log_writes start B dat k) (log_block start i) = dat (B i)"
  by (rule apply_writes_last) (auto simp: log_writes_def dest: log_block_inj [rotated 2])

lemma apply_home_writes: "m \<in> B ` {0..<k} \<Longrightarrow> apply_writes d (home_writes B dat k) m = dat m"
  by (rule apply_writes_last) (auto simp: home_writes_def)

lemma start_not_log: "k \<le> LOGBLOCKS \<Longrightarrow> start \<notin> log_block start ` {0..<k}"
  using log_block_start [of _ start] by (metis atLeastLessThan_iff imageE less_le_trans)

lemma commit_ok:
  fixes s :: "'z logs_scheme"
  assumes "log_full s n"
  shows "\<exists>t. commit s = Done () t \<and> quiet t \<and> cache_inv t \<and> lh_n t = 0
    \<and> stored s t (commit_writes (log_start s) n (lh_block s) (blk s)) \<and> blocked t = blocked s
    \<and> refs t = (\<lambda>m. if m \<in> lh_block s ` {0..<n} then refs s m - 1 else refs s m)"
proof -
  let ?st = "log_start s" and ?B = "lh_block s"
  note p = assms [unfolded log_full_def]
  have lr: "?st \<in> log_region ?st" "i < n \<Longrightarrow> log_block ?st i \<in> log_region ?st" for i using p by (auto simp: log_region_def)
  have nh: "?st \<notin> ?B ` {0..<n}" using p lr(1) by auto
  obtain t1 where 1: "write_log s = Done () t1" "bc.same_use s t1" "stored s t1 (log_writes ?st ?B (blk s) n)"
    using write_log_ok [of s n] p lr(2) by (auto simp: write_log_def)
  note u1 = same_useD [OF 1(2)] and l1 = untouched_logs [OF same_useD(3) [OF 1(2)]]
  have b1: "blk t1 ?st = blk s ?st" using 1(3) p start_not_log [of n ?st] by (simp add: stored_def apply_writes_other)
  let ?h = "put_head (blk s ?st) (int n) ?B"
  obtain t2 where 2: "write_head t1 = Done () t2" "bc.same_use t1 t2" "stored t1 t2 [(?st, ?h)]"
    using write_head_ok [of t1] u1 l1 p lr(1) b1 by auto
  note u2 = same_useD [OF 2(2)] and l2 = untouched_logs [OF same_useD(3) [OF 2(2)]]
  have b2: "blk t2 (log_block ?st i) = blk s (?B i)" if "i < n" for i
    using 1(3) 2(3) p that log_block_start [of i ?st] by (simp add: stored_def apply_log_writes)
  then have iw: "install_writes ?st ?B (blk t2) n = home_writes ?B (blk s) n" by (simp add: install_writes_def home_writes_def)
  have f2: "log_start t2 = ?st" "lh_block t2 = ?B" "refs t2 = refs s" "blocked t2 = blocked s" "room t2 = room s" "log_dev t2 = ROOTDEV" "lh_n t2 = int n"
    using p u1 u2 l1 l2 by simp_all
  have ff: "bc.free_for t2 m = bc.free_for s m" for m by (simp add: u1(7) u2(7))
  obtain t3 where 3: "install_trans False t2 = Done () t3" "quiet t3" "cache_inv t3" "untouched t2 t3"
      "stored t2 t3 (home_writes ?B (blk s) n)" "blocked t3 = blocked s" "room s \<le> room t3"
      "refs t3 = (\<lambda>m. if m \<in> ?B ` {0..<n} then refs s m - 1 else refs s m)"
    using install_commit_ok [of t2 n, unfolded f2 iw] p u2(1,2) f2(7) ff by (fastforce simp: install_trans_def)
  note l3 = untouched_logs [OF 3(4)]
  have b3: "blk t3 ?st = ?h" using 2(3) 3(5) nh by (simp add: stored_def apply_writes_other)
  have "bc.free_for t3 ?st" using p lr(1) nh 3(6-8) by (auto simp: bc.free_for_def)
  then obtain t4 where 4: "write_head (t3\<lparr>lh_n := 0\<rparr>) = Done () t4" "bc.same_use (t3\<lparr>lh_n := 0\<rparr>) t4"
      "stored (t3\<lparr>lh_n := 0\<rparr>) t4 [(?st, put_head ?h 0 ?B)]"
    using write_head_ok [of "t3\<lparr>lh_n := 0\<rparr>"] 3 l1 l2 l3 p b3 by (auto simp: bc.free_for_def)
  note u4 = same_useD [OF 4(2)] and l4 = untouched_logs [OF same_useD(3) [OF 4(2)]]
  have "stored t3 t4 [(?st, put_head ?h 0 ?B)]" using 4(3) by (simp add: stored_def)
  from stored_trans [OF stored_trans [OF stored_trans [OF 1(3) 2(3)] 3(5)] this]
  have "stored s t4 (commit_writes ?st n ?B (blk s))" by (simp add: commit_writes_def Let_def)
  moreover have "commit s = Done () t4" using 1(1) 2(1) 3(1) 4(1) p by (simp add: commit_def)
  ultimately show ?thesis using u4 l4 3 by (auto simp: fun_eq_iff)
qed

section \<open>Recovery\<close>

text \<open>
  \<open>booted s\<close>: the cache as \<open>binit\<close> leaves it, no block of it in use, and the console can print.
  \<open>same_head s t\<close>: the log's own record of the header is the same.
\<close>

definition booted :: "'z logs_scheme \<Rightarrow> bool" where
  "booted s \<longleftrightarrow> quiet s \<and> cache_inv s \<and> (\<forall>m. \<not> blocked s m \<and> refs s m = 0) \<and> 1 < room s \<and> \<not> panicking s \<and> \<not> panicked s"

definition same_head :: "'z logs_scheme \<Rightarrow> 'z logs_scheme \<Rightarrow> bool" where
  "same_head s t \<longleftrightarrow> log_start t = log_start s \<and> log_dev t = log_dev s \<and> lh_n t = lh_n s \<and> lh_block t = lh_block s"

lemma booted_free: "booted s \<Longrightarrow> bc.free_for s m"
  by (simp add: booted_def bc.free_for_def)

lemma booted_clean: "booted s \<Longrightarrow> blk s = disk s"
  using bc.unused_clean_law [of s] by (auto simp: booted_def)

lemma booted_same_use: "booted s \<Longrightarrow> bc.same_use s t \<Longrightarrow> booted t"
  using untouched_logs(7,8) [of s t] same_useD [of s t] by (auto simp: booted_def)

lemma booted_printed: "booted s \<Longrightarrow> booted (relock (printed cs s))"
  by (simp add: booted_def)

lemma put_head_0: "put_head d 0 f = put_head d 0 g"
  by (simp add: put_head_def)

lemma install_one_recover:
  fixes s :: "'z logs_scheme"
  assumes "booted s" "log_dev s = ROOTDEV" "log_block (log_start s) i \<noteq> lh_block s i"
  shows "\<exists>t. install_one True i s = Done () t \<and> booted t \<and> same_head s t
    \<and> stored s t [(lh_block s i, blk s (log_block (log_start s) i))]"
proof -
  let ?l = "log_block (log_start s) i" and ?h = "lh_block s i"
  define msg where "msg = format (ascii ''recovering tail %d dst %d'' @ [10]) [VWord (of_nat i), VWord (ucast ?h)]"
  define r where "r = relock (printed msg s)"
  have pr: "printf (ascii ''recovering tail %d dst %d'' @ [10]) [VWord (of_nat i), VWord (ucast ?h)] s = Done () r"
    using assms(1) printf_eval [of s] by (simp add: booted_def r_def msg_def)
  have b: "booted r" using booted_printed [OF assms(1)] by (simp add: r_def)
  have v: "blk r = blk s" "disk r = disk s" "dwrites r = dwrites s" "same_head s r"
    by (simp_all add: r_def) (simp_all add: printed_def same_head_def)
  obtain x t y u w where w: "bread ROOTDEV ?l r = Done x t" "bread ROOTDEV ?h t = Done y u"
      "bwrite y (upd_buf y (\<lambda>q. q\<lparr>b_data := b_data (bufs u x)\<rparr>) u) = Done () w" "x \<noteq> y" "quiet w" "cache_inv w" "untouched r w"
      "owns w x ?l" "owns w y ?h" "blk w = (blk r)(?h := blk r ?l)" "disk w = (disk r)(?h := blk r ?l)"
      "dwrites w = dwrites r @ [(?h, blk r ?l)]" "refs w = (refs r)(?l := refs r ?l + 1, ?h := refs r ?h + 1)"
      "blocked w = (blocked r)(?l := True, ?h := True)"
      "room w = room r - (if refs r ?l = 0 then 1 else 0) - (if refs r ?h = 0 then 1 else 0)"
    using bc.copy_to_second [of r ?l ?h] assms(3) b booted_free [OF b] by (auto simp: booted_def)
  have "refs w ?l = 1 \<longrightarrow> blk w ?l = disk w ?l" "refs w ?h = 1 \<longrightarrow> blk w ?h = disk w ?h"
    using w(10,11) assms(3) booted_clean [OF b] by auto
  from bc.rel_two [OF _ w(8,9,4) assms(3) this] w(5,6) obtain z1 z where z: "brelse x w = Done () z1" "brelse y z1 = Done () z"
      "quiet z" "cache_inv z" "untouched w z" "blk z = blk w" "disk z = disk w" "dwrites z = dwrites w"
      "refs z = (refs w)(?l := refs w ?l - 1, ?h := refs w ?h - 1)" "blocked z = (blocked w)(?l := False, ?h := False)"
      "room z = room w + (if refs w ?l = 1 then 1 else 0) + (if refs w ?h = 1 then 1 else 0)"
    by auto
  have "install_one True i s = Done () z"
    using pr w(1-3) z(1,2) assms(2) by (simp add: install_one_def log_block_def)
  moreover have un: "untouched r z" using untouched_trans [OF w(7) z(5)] .
  have "refs z = refs r" "blocked z = blocked r" "room z = room r"
    using z(9-11) w(13-15) b assms(3) by (auto simp: booted_def fun_eq_iff)
  then have "booted z" using b z(3,4) un booted_same_use [of r z] by (simp add: bc.same_use_def)
  moreover have "same_head s z" using untouched_logs [OF un] v(4) by (simp add: same_head_def)
  ultimately show ?thesis using w z v by (auto simp: stored_def)
qed

lemma install_recover_ok:
  fixes s :: "'z logs_scheme"
  assumes "booted s" "log_dev s = ROOTDEV" "k \<le> LOGBLOCKS" "\<And>i. i < k \<Longrightarrow> lh_block s i \<notin> log_region (log_start s)"
  shows "\<exists>t. kfor [0..<k] (install_one True) s = Done () t \<and> booted t \<and> same_head s t
    \<and> stored s t (install_writes (log_start s) (lh_block s) (blk s) k)"
  using assms(3,4)
proof (induction k)
  case 0
  then show ?case using assms(1) by (simp add: same_head_def)
next
  case (Suc k)
  then obtain t where t: "kfor [0..<k] (install_one True) s = Done () t" "booted t" "same_head s t"
      "stored s t (install_writes (log_start s) (lh_block s) (blk s) k)"
    by (meson Suc_leD less_SucI)
  let ?l = "log_block (log_start s) k" and ?h = "lh_block s k"
  have lr: "?l \<in> log_region (log_start s)" using Suc.prems(1) by (simp add: log_region_def)
  have old: "?l \<notin> lh_block s ` {0..<k}" "?l \<noteq> ?h" using lr Suc.prems(2) by auto
  obtain w where w: "install_one True k t = Done () w" "booted w" "same_head t w" "stored t w [(?h, blk t ?l)]"
    using install_one_recover [of t k] t(2,3) old(2) assms(2) by (auto simp: same_head_def)
  have "blk t ?l = blk s ?l" using t(4) old(1) by (simp add: stored_def apply_writes_other)
  then have "stored s w (install_writes (log_start s) (lh_block s) (blk s) (Suc k))" using stored_trans [OF t(4) w(4)] by simp
  moreover have "same_head s w" using t(3) w(3) by (simp add: same_head_def)
  ultimately show ?case using t(1) w by (auto simp: kfor_append)
qed

lemma read_head_ok:
  fixes s :: "'z logs_scheme"
  assumes "booted s" "log_dev s = ROOTDEV"
  shows "\<exists>t. read_head s = Done () t \<and> booted t \<and> stored s t [] \<and> log_start t = log_start s \<and> log_dev t = ROOTDEV
    \<and> lh_n t = head_n (blk s (log_start s)) \<and> (\<forall>i < nat (lh_n t). lh_block t i = head_block (blk s (log_start s)) i)"
proof -
  let ?st = "log_start s"
  have q: "quiet s \<and> cache_inv s" "\<not> blocked s ?st" "refs s ?st = 0" "0 < room s" using assms(1) by (auto simp: booted_def)
  obtain b t where t: "bread ROOTDEV ?st s = Done b t" "quiet t" "cache_inv t" "untouched s t" "owns t b ?st" "blk t = blk s"
      "disk t = disk s" "dwrites t = dwrites s" "refs t = (refs s)(?st := refs s ?st + 1)" "blocked t = (blocked s)(?st := True)"
      "room t = (if refs s ?st = 0 then room s - 1 else room s)"
    using bc.rd_law [of s ?st] q by auto
  let ?d = "blk s ?st"
  have c: "b_data (bufs t b) = ?d" using bc.owner_law [of t b ?st] t by simp
  define u where "u = t\<lparr>lh_n := head_n ?d, lh_block := (\<lambda>i. if i < nat (head_n ?d) then head_block ?d i else lh_block t i)\<rparr>"
  have u: "quiet u" "cache_inv u" "owns u b ?st" "blk u = blk s" "disk u = disk s" "dwrites u = dwrites s" "refs u = refs t"
      "blocked u = blocked t" "room u = room t" "log_start u = ?st" "log_dev u = ROOTDEV" "lh_n u = head_n ?d"
      "\<forall>i < nat (head_n ?d). lh_block u i = head_block ?d i" "panicking u = panicking s" "panicked u = panicked s"
    using t untouched_logs [OF t(4)] assms(2) by (simp_all add: u_def)
  have "blk u ?st = disk u ?st" using u booted_clean [OF assms(1)] by simp
  then obtain v where v: "brelse b u = Done () v" "quiet v" "cache_inv v" "untouched u v" "blk v = blk u" "disk v = disk u"
      "dwrites v = dwrites u" "refs v = (refs u)(?st := refs u ?st - 1)" "blocked v = (blocked u)(?st := False)"
      "room v = (if refs u ?st = 1 then room u + 1 else room u)"
    using bc.rel_law [of u b ?st] u(1-3) by auto
  have "read_head s = Done () v" using t(1) c v(1) assms(2) by (simp add: read_head_def u_def cong: if_cong)
  moreover have "booted v" using assms(1) v t u untouched_logs(7,8) [OF v(4)] by (auto simp: booted_def)
  ultimately show ?thesis using u v untouched_logs [OF v(4)] by (auto simp: stored_def)
qed

lemma recover_ok:
  fixes s :: "'z logs_scheme"
  defines "h \<equiv> disk s (log_start s)"
  assumes "booted s" "log_dev s = ROOTDEV" "nat (head_n h) \<le> LOGBLOCKS"
    "\<And>i. i < nat (head_n h) \<Longrightarrow> head_block h i \<notin> log_region (log_start s)"
  shows "\<exists>t. recover_from_log s = Done () t \<and> booted t \<and> lh_n t = 0 \<and> log_start t = log_start s
    \<and> stored s t (recover_writes (log_start s) (disk s))"
proof -
  let ?st = "log_start s" and ?n = "nat (head_n h)"
  have h: "blk s ?st = h" "blk s = disk s" using booted_clean [OF assms(2)] by (simp_all add: h_def)
  obtain t where t: "read_head s = Done () t" "booted t" "stored s t []" "log_start t = ?st" "log_dev t = ROOTDEV" "lh_n t = head_n h"
      "\<forall>i < ?n. lh_block t i = head_block h i"
    using read_head_ok [OF assms(2,3)] h(1) by auto
  obtain u where u: "kfor [0..<?n] (install_one True) t = Done () u" "booted u" "same_head t u"
      "stored t u (install_writes ?st (lh_block t) (blk t) ?n)"
    using install_recover_ok [of t ?n] t(2,4,5,7) assms(4,5) by auto
  have iw: "install_writes ?st (lh_block t) (blk t) ?n = install_writes ?st (head_block h) (disk s) ?n"
    using t(3,7) h(2) by (simp add: install_writes_def stored_def)
  have "booted (u\<lparr>lh_n := 0\<rparr>)" using u(2) by (simp add: booted_def)
  from booted_free [OF this] this u(3) t(4,5) obtain v where v: "write_head (u\<lparr>lh_n := 0\<rparr>) = Done () v" "bc.same_use (u\<lparr>lh_n := 0\<rparr>) v"
      "stored (u\<lparr>lh_n := 0\<rparr>) v [(?st, put_head (blk u ?st) 0 (lh_block u))]"
    using write_head_ok [of "u\<lparr>lh_n := 0\<rparr>"] by (auto simp: same_head_def booted_def)
  note l = untouched_logs [OF same_useD(3) [OF v(2)]]
  have "?st \<notin> head_block h ` {0..<?n}" using assms(5) by (metis atLeastLessThan_iff imageE insertI1 log_region_def)
  moreover note su = u(4) [unfolded iw]
  ultimately have bu: "blk u ?st = h" using t(3) h by (simp add: stored_def apply_writes_other)
  have "stored u v [(?st, put_head h 0 (head_block h))]"
    using v(3) put_head_0 [of h "lh_block u" "head_block h"] by (simp add: stored_def bu)
  from stored_trans [OF stored_trans [OF t(3) su] this]
  have "stored s v (recover_writes ?st (disk s))" by (simp add: recover_writes_def Let_def h_def)
  moreover have "recover_from_log s = Done () v" using t(1,6) u(1) v(1) by (simp add: recover_from_log_def install_trans_def)
  moreover have "booted v" using booted_same_use [OF \<open>booted (u\<lparr>lh_n := 0\<rparr>)\<close> v(2)] .
  ultimately show ?thesis using l u(3) t(4) by (auto simp: same_head_def)
qed

lemma initlog_ok:
  fixes s :: "'z logs_scheme" and start :: uint
  defines "h \<equiv> disk s start"
  assumes "booted s" "nat (head_n h) \<le> LOGBLOCKS" "\<And>i. i < nat (head_n h) \<Longrightarrow> head_block h i \<notin> log_region start"
  shows "\<exists>t. initlog ROOTDEV start s = Done () t \<and> booted t \<and> lh_n t = 0 \<and> log_start t = start
    \<and> stored s t (recover_writes start (disk s))"
proof -
  define u where "u = (upd_lock LogLock (\<lambda>_. \<lparr>locked = False, lkname = ''log'', lkcpu = None\<rparr>) s)\<lparr>log_start := start, log_dev := ROOTDEV\<rparr>"
  have e: "bufs u = bufs s" "slocks u = slocks s" "disk u = disk s" "me u = me s" "ptab u = ptab s" "panicking u = panicking s"
      "panicked u = panicked s" "log_start u = start" "log_dev u = ROOTDEV"
    by (simp_all add: u_def upd_lock_def me_def)
  have "lock_idle l u \<longleftrightarrow> l = LogLock \<or> lock_idle l s" for l by (simp add: u_def upd_lock_def lock_idle_def)
  moreover have "cpu_ok u = cpu_ok s" by (simp add: u_def upd_lock_def cpu_ok_def cpu_defs)
  ultimately have "quiet u" using assms(2) e(4) unfolding booted_def quiet_def by metis
  then have "booted u" using assms(2) e same_cache [of u s] by (simp add: booted_def)
  then have "\<exists>t. recover_from_log u = Done () t \<and> booted t \<and> lh_n t = 0 \<and> log_start t = start \<and> stored u t (recover_writes start (disk s))"
    using recover_ok [of u] assms(3,4) e by (simp add: h_def)
  moreover have "stored u t W = stored s t W" for t W using e same_cache(1) [of u s] by (simp add: stored_def u_def upd_lock_def)
  ultimately have "\<exists>t. recover_from_log u = Done () t \<and> booted t \<and> lh_n t = 0 \<and> log_start t = start \<and> stored s t (recover_writes start (disk s))"
    by simp
  then show ?thesis by (simp add: initlog_def initlock_def BSIZE_def LOGBLOCKS_def MAXOPBLOCKS_def u_def)
qed

section \<open>Crashes\<close>

lemma recovered_empty: "head_n (d start) = 0 \<Longrightarrow> m \<noteq> start \<Longrightarrow> recovered start d m = d m"
  by (simp add: recovered_def recover_writes_def Let_def)

lemma recovered_full:
  assumes "head_n (d start) = int n" "\<And>i. i < n \<Longrightarrow> head_block (d start) i = B i" "\<And>i. i < n \<Longrightarrow> d (log_block start i) = dat (B i)"
    "m \<noteq> start"
  shows "recovered start d m = apply_writes d (home_writes B dat n) m"
proof -
  have "install_writes start (head_block (d start)) d n = home_writes B dat n"
    using assms(2,3) by (simp add: install_writes_def home_writes_def)
  then show ?thesis using assms(1,4) by (simp add: recovered_def recover_writes_def Let_def)
qed

lemma take_commit_writes:
  fixes dat :: "uint \<Rightarrow> block" and start :: uint and n :: nat and B :: "nat \<Rightarrow> uint"
  defines "h \<equiv> put_head (dat start) (int n) B"
  shows "k \<le> n \<Longrightarrow> take k (commit_writes start n B dat) = log_writes start B dat k"
    "n < k \<Longrightarrow> k \<le> 2 * n + 1 \<Longrightarrow> take k (commit_writes start n B dat) = log_writes start B dat n @ [(start, h)] @ home_writes B dat (k - n - 1)"
    "2 * n + 1 < k \<Longrightarrow> take k (commit_writes start n B dat) = commit_writes start n B dat"
  by (auto simp: commit_writes_def Let_def h_def log_writes_def home_writes_def take_map take_Cons' min_def)

text \<open>The header found after a crash, and what recovery makes of the disk.\<close>

lemma crash_header:
  fixes dat :: "uint \<Rightarrow> block" and k :: nat
  assumes "n \<le> LOGBLOCKS" "\<And>i. i < n \<Longrightarrow> B i \<notin> log_region start" "head_n (d start) = 0"
  defines "d' \<equiv> apply_writes d (take k (commit_writes start n B dat))"
  shows "head_n (d' start) = 0 \<or> head_n (d' start) = int n \<and> (\<forall>i < n. head_block (d' start) i = B i)"
    "m \<notin> log_region start \<Longrightarrow> recovered start d' m = (if k \<le> n then d m else apply_writes d (commit_writes start n B dat) m)"
proof -
  let ?h = "put_head (dat start) (int n) B"
  have big: "int n < 2 ^ 31" using assms(1) by (simp add: LOGBLOCKS_def MAXOPBLOCKS_def)
  have hd: "head_n ?h = int n" "i < n \<Longrightarrow> head_block ?h i = B i" "head_n (put_head ?h 0 B) = 0" for i using big by simp_all
  have sl: "start \<notin> log_block start ` {0..<j}" if "j \<le> n" for j using start_not_log [of j] assms(1) that by simp
  have reg: "start \<in> log_region start" "i < n \<Longrightarrow> log_block start i \<in> log_region start" for i using assms(1) by (auto simp: log_region_def)
  have sh: "start \<notin> B ` {0..<j}" if "j \<le> n" for j
    using assms(2) reg(1) that by (metis atLeastLessThan_iff imageE less_le_trans)
  have lh: "log_block start i \<notin> B ` {0..<j}" if "i < n" "j \<le> n" for i j
    using assms(2) reg(2) that by (metis atLeastLessThan_iff imageE less_le_trans)
  have out: "m \<noteq> start \<and> m \<notin> log_block start ` {0..<j}" if "m \<notin> log_region start" "j \<le> n" for m j
    using assms(1) that by (auto simp: log_region_def)
  consider (a) "k \<le> n" | (b) "n < k" "k \<le> 2 * n + 1" | (c) "2 * n + 1 < k" by linarith
  then have "(head_n (d' start) = 0 \<or> head_n (d' start) = int n \<and> (\<forall>i < n. head_block (d' start) i = B i))
      \<and> (m \<notin> log_region start \<longrightarrow> recovered start d' m = (if k \<le> n then d m else apply_writes d (commit_writes start n B dat) m))"
  proof cases
    case a
    then have e: "d' = apply_writes d (log_writes start B dat k)" by (simp add: d'_def take_commit_writes)
    then have "d' start = d start" using sl [OF a] by (simp add: apply_writes_other)
    then show ?thesis using a assms(3) out [of m k] recovered_empty [of d' start m] by (auto simp: e apply_writes_other)
  next
    case b
    let ?H = "home_writes B dat (k - n - 1)"
    have kn: "k - n - 1 \<le> n" using b by simp
    have e: "d' = apply_writes ((apply_writes d (log_writes start B dat n))(start := ?h)) ?H"
      using b by (simp add: d'_def take_commit_writes)
    have s: "d' start = ?h" using sh [OF kn] by (simp add: e apply_writes_other)
    have l: "d' (log_block start i) = dat (B i)" if "i < n" for i
      using that lh [OF that kn] log_block_start [of i start] assms(1) by (simp add: e apply_writes_other apply_log_writes)
    have "recovered start d' m = apply_writes d (commit_writes start n B dat) m" if m: "m \<notin> log_region start"
    proof -
      have "recovered start d' m = apply_writes d' (home_writes B dat n) m"
        by (rule recovered_full) (use s hd l out [OF m, of 0] in simp_all)
      also have "\<dots> = apply_writes d (commit_writes start n B dat) m"
      proof (cases "m \<in> B ` {0..<n}")
        case True
        then show ?thesis using out [OF m, of 0] by (simp add: commit_writes_def Let_def apply_home_writes)
      next
        case False
        then have "m \<notin> B ` {0..<k - n - 1}" using kn by auto
        then show ?thesis using False out [OF m, of n] by (simp add: commit_writes_def Let_def e apply_writes_other)
      qed
      finally show ?thesis .
    qed
    then show ?thesis using b s hd by auto
  next
    case c
    then have e: "d' = apply_writes d (commit_writes start n B dat)" by (simp add: d'_def take_commit_writes)
    then have "head_n (d' start) = 0" using hd(3) by (simp add: commit_writes_def Let_def)
    then show ?thesis using c e out [of m 0] recovered_empty [of d' start m] by auto
  qed
  then show "head_n (d' start) = 0 \<or> head_n (d' start) = int n \<and> (\<forall>i < n. head_block (d' start) i = B i)"
    "m \<notin> log_region start \<Longrightarrow> recovered start d' m = (if k \<le> n then d m else apply_writes d (commit_writes start n B dat) m)"
    by auto
qed

text \<open>Recovery after an interrupted recovery.\<close>

lemma take_recover_writes:
  "k \<le> nat (head_n (d start)) \<Longrightarrow> take k (recover_writes start d) = install_writes start (head_block (d start)) d k"
  "nat (head_n (d start)) < k \<Longrightarrow> take k (recover_writes start d) = recover_writes start d"
  by (auto simp: recover_writes_def Let_def install_writes_def take_map take_Cons' min_def)

lemma recover_again:
  fixes d :: "uint \<Rightarrow> block" and k :: nat
  assumes "nat (head_n (d start)) \<le> LOGBLOCKS" "\<forall>i < nat (head_n (d start)). head_block (d start) i \<notin> log_region start"
  defines "d' \<equiv> apply_writes d (take k (recover_writes start d))"
  shows "head_n (d' start) = 0 \<or> d' start = d start" "m \<notin> log_region start \<Longrightarrow> recovered start d' m = recovered start d m"
proof -
  let ?n = "nat (head_n (d start))" and ?B = "head_block (d start)"
  have reg: "start \<in> log_region start" "i < ?n \<Longrightarrow> log_block start i \<in> log_region start" for i using assms(1) by (auto simp: log_region_def)
  have sh: "start \<notin> ?B ` {0..<j}" "i < ?n \<Longrightarrow> log_block start i \<notin> ?B ` {0..<j}" if "j \<le> ?n" for i j
    using assms(2) reg that by (metis atLeastLessThan_iff imageE less_le_trans)+
  have "(head_n (d' start) = 0 \<or> d' start = d start) \<and> (m \<notin> log_region start \<longrightarrow> recovered start d' m = recovered start d m)"
  proof (cases "k \<le> ?n")
    case True
    then have e: "d' = apply_writes d (install_writes start ?B d k)" by (simp add: d'_def take_recover_writes)
    have s: "d' start = d start" and l: "\<And>i. i < ?n \<Longrightarrow> d' (log_block start i) = d (log_block start i)"
      using sh [OF True] by (simp_all add: e apply_writes_other)
    have iw: "install_writes start ?B d' ?n = install_writes start ?B d ?n" using l by (simp add: install_writes_def)
    have "apply_writes d' (install_writes start ?B d ?n) m = apply_writes d (install_writes start ?B d ?n) m"
    proof (cases "m \<in> ?B ` {0..<?n}")
      case True
      then show ?thesis using apply_writes_mem [of m "install_writes start ?B d ?n"] by simp
    next
      case False
      then have "m \<notin> ?B ` {0..<k}" using \<open>k \<le> ?n\<close> by auto
      then show ?thesis using False by (simp add: e apply_writes_other)
    qed
    then show ?thesis using s iw by (simp add: recovered_def recover_writes_def Let_def)
  next
    case False
    then have e: "d' = recovered start d" by (simp add: d'_def recovered_def take_recover_writes)
    then have z: "head_n (d' start) = 0" by (simp add: recovered_def recover_writes_def Let_def)
    then show ?thesis using e reg(1) recovered_empty [of d' start m] by auto
  qed
  then show "head_n (d' start) = 0 \<or> d' start = d start" "m \<notin> log_region start \<Longrightarrow> recovered start d' m = recovered start d m"
    by auto
qed

section \<open>Adding a block to the transaction\<close>

lemma find_slot_range: "i \<le> find_slot f i k b \<and> find_slot f i k b \<le> i + k
    \<and> (find_slot f i k b < i + k \<longrightarrow> f (find_slot f i k b) = b) \<and> (\<forall>j. i \<le> j \<and> j < find_slot f i k b \<longrightarrow> f j \<noteq> b)"
proof (induction k arbitrary: i)
  case (Suc k)
  show ?case
  proof (cases "f i = b")
    case False
    have "f j \<noteq> b" if "i \<le> j" "j < find_slot f (Suc i) k b" for j
      using that False Suc.IH [of "Suc i"] by (cases "i = j") simp_all
    then show ?thesis using False Suc.IH [of "Suc i"] by simp
  qed auto
qed auto

lemma log_write_ok:
  fixes s :: "'z logs_scheme"
  assumes "quiet s" "cache_inv s" "owns s b m" "lh_n s = int n" "n < LOGBLOCKS" "1 \<le> log_outstanding s" "refs s m + 1 \<noteq> 0"
  shows "\<exists>t. log_write b s = Done () t \<and> quiet t \<and> cache_inv t \<and> blk t = blk s \<and> disk t = disk s \<and> dwrites t = dwrites s
    \<and> blocked t = blocked s \<and> room t = room s \<and> owns t b m \<and> log_start t = log_start s \<and> log_dev t = log_dev s
    \<and> (if m \<in> lh_block s ` {0..<n} then lh_n t = lh_n s \<and> lh_block t = lh_block s \<and> refs t = refs s
       else lh_n t = lh_n s + 1 \<and> lh_block t = (lh_block s)(n := m) \<and> refs t = (refs s)(m := refs s m + 1))"
proof -
  let ?i = "find_slot (lh_block s) 0 n m"
  note o = owns_inv [OF assms(3,2)]
  note f = find_slot_range [of 0 "lh_block s" n m, simplified]
  define v where "v = s\<lparr>lh_block := (lh_block s)(?i := m)\<rparr>"
  have lock: "ready LogLock s" using assms(1) by simp
  show ?thesis
  proof (cases "m \<in> lh_block s ` {0..<n}")
    case True
    then have i: "?i < n" "lh_block s ?i = m" using f by (metis atLeastLessThan_iff imageE le0 le_neq_implies_less not_less)+
    then have same: "(lh_block s)(?i := m) = lh_block s" by (simp add: fun_upd_idem)
    then have "log_write b s = Done () (relock s)"
      using lock assms(4-6) o(9) i by (simp add: log_write_def Let_def)
    then show ?thesis using True assms by simp
  next
    case False
    then have i: "?i = n" using f by (metis atLeastLessThan_iff image_eqI le0 le_neq_implies_less)
    have v: "quiet v" "cache_inv v" "owns v b m" "refs v m + 1 \<noteq> 0" using assms by (simp_all add: v_def)
    define w where "w = upd_buf b (\<lambda>q. q\<lparr>b_refcnt := b_refcnt q + 1\<rparr>) v"
    note r = refs_change_ok [OF v(2,3), of "\<lambda>r. r + 1", OF v(4), folded w_def]
    have w: "log_start w = log_start s" "log_dev w = log_dev s" "lh_n w = lh_n s" "lh_block w = (lh_block s)(n := m)" "quiet w"
        "dwrites w = dwrites s" "disk w = disk s"
      using v(1) i by (simp_all add: w_def v_def upd_buf_def)
    have "bpin b (acquired LogLock v) = Done () (acquired LogLock w)"
      using v(1) by (simp add: bpin_def w_def ready_def)
    moreover have "release LogLock (acquired LogLock (w\<lparr>lh_n := lh_n w + 1\<rparr>)) = Done () (relock (w\<lparr>lh_n := lh_n w + 1\<rparr>))"
      by (rule release_acquired) (use w(5) in simp)
    ultimately have "log_write b s = Done () (relock (w\<lparr>lh_n := lh_n w + 1\<rparr>))"
      using lock assms(4-6) o(9) i by (simp add: log_write_def v_def Let_def)
    then show ?thesis using False r w v by (simp add: v_def)
  qed
qed

section \<open>Properties\<close>

text \<open>
  C1. A transaction is atomic across crashes. \<open>commit\<close> of a transaction of \<open>n\<close> blocks performs a
  certain sequence \<open>W\<close> of block writes, after which every block of the transaction is in its place on
  disk. If the machine crashes when only the first \<open>k\<close> of these writes have reached the disk, and
  boots again, then \<open>initlog\<close> recovers a disk whose blocks outside the log are all as they were before
  the commit (\<open>k \<le> n\<close>), or all as the complete commit leaves them (\<open>k > n\<close>), and the log is empty.
\<close>

theorem commit_crash_atomic:
  fixes s :: "'z logs_scheme"
  assumes "log_full s n" "head_n (disk s (log_start s)) = 0"
  shows "\<exists>t W. commit s = Done () t \<and> dwrites t = dwrites s @ W \<and> lh_n t = 0
    \<and> (\<forall>m. m \<in> lh_block s ` {0..<n} \<longrightarrow> disk t m = blk s m)
    \<and> (\<forall>k (r :: 'z logs_scheme). booted r \<longrightarrow> disk r = apply_writes (disk s) (take k W) \<longrightarrow>
         (\<exists>u. initlog ROOTDEV (log_start s) r = Done () u \<and> lh_n u = 0
            \<and> (\<forall>m. m \<notin> log_region (log_start s) \<longrightarrow> blk u m = (if k \<le> n then disk s m else disk t m))))"
proof -
  let ?st = "log_start s" and ?B = "lh_block s"
  let ?W = "commit_writes ?st n ?B (blk s)"
  have n: "n \<le> LOGBLOCKS" and out: "\<And>i. i < n \<Longrightarrow> ?B i \<notin> log_region ?st" using assms(1) by (auto simp: log_full_def)
  obtain t where t: "commit s = Done () t" "lh_n t = 0" "stored s t ?W" using commit_ok [OF assms(1)] by blast
  have "disk t m = blk s m" if m: "m \<in> ?B ` {0..<n}" for m
  proof -
    have "m \<noteq> ?st" using m out by (metis atLeastLessThan_iff imageE insertI1 log_region_def)
    then show ?thesis using t(3) m by (simp add: stored_def commit_writes_def Let_def apply_home_writes)
  qed
  moreover have "\<exists>u. initlog ROOTDEV ?st r = Done () u \<and> lh_n u = 0
      \<and> (\<forall>m. m \<notin> log_region ?st \<longrightarrow> blk u m = (if k \<le> n then disk s m else disk t m))"
    if r: "booted r" "disk r = apply_writes (disk s) (take k ?W)" for k and r :: "'z logs_scheme"
  proof -
    note c = crash_header [where n = n and B = ?B and start = ?st and d = "disk s" and k = k and dat = "blk s", OF n _ assms(2), folded r(2)]
    have "nat (head_n (disk r ?st)) \<le> LOGBLOCKS" "\<And>i. i < nat (head_n (disk r ?st)) \<Longrightarrow> head_block (disk r ?st) i \<notin> log_region ?st"
      using c(1) [OF out] n out by auto
    from initlog_ok [OF r(1) this] obtain u where u: "initlog ROOTDEV ?st r = Done () u" "booted u" "lh_n u = 0"
        "disk u = recovered ?st (disk r)"
      by (auto simp: stored_def recovered_def)
    then show ?thesis using c(2) [OF out] booted_clean [OF u(2)] t(3) by (auto simp: stored_def)
  qed
  ultimately show ?thesis using t by (auto simp: stored_def)
qed

text \<open>
  C2. Recovery can itself be interrupted. If \<open>initlog\<close> crashes after the first \<open>k\<close> of its own block
  writes and the machine boots again, the second run of \<open>initlog\<close> leaves every block outside the log as
  an uninterrupted run does.
\<close>

theorem recovery_restartable:
  fixes s :: "'z logs_scheme"
  assumes "booted s" "nat (head_n (disk s start)) \<le> LOGBLOCKS"
    "\<forall>i < nat (head_n (disk s start)). head_block (disk s start) i \<notin> log_region start"
  shows "\<exists>t W. initlog ROOTDEV start s = Done () t \<and> lh_n t = 0 \<and> dwrites t = dwrites s @ W
    \<and> (\<forall>k (r :: 'z logs_scheme). booted r \<longrightarrow> disk r = apply_writes (disk s) (take k W) \<longrightarrow>
         (\<exists>u. initlog ROOTDEV start r = Done () u \<and> lh_n u = 0 \<and> (\<forall>m. m \<notin> log_region start \<longrightarrow> blk u m = blk t m)))"
proof -
  let ?W = "recover_writes start (disk s)"
  obtain t where t: "initlog ROOTDEV start s = Done () t" "booted t" "lh_n t = 0" "stored s t ?W"
    using initlog_ok [OF assms(1,2)] assms(3) by blast
  have "\<exists>u. initlog ROOTDEV start r = Done () u \<and> lh_n u = 0 \<and> (\<forall>m. m \<notin> log_region start \<longrightarrow> blk u m = blk t m)"
    if r: "booted r" "disk r = apply_writes (disk s) (take k ?W)" for k and r :: "'z logs_scheme"
  proof -
    note c = recover_again [where d = "disk s" and start = start and k = k, OF assms(2,3), folded r(2)]
    have "nat (head_n (disk r start)) \<le> LOGBLOCKS" "\<And>i. i < nat (head_n (disk r start)) \<Longrightarrow> head_block (disk r start) i \<notin> log_region start"
      using c(1) assms(2,3) by auto
    from initlog_ok [OF r(1) this] obtain u where u: "initlog ROOTDEV start r = Done () u" "booted u" "lh_n u = 0"
        "disk u = recovered start (disk r)"
      by (auto simp: stored_def recovered_def)
    then show ?thesis using c(2) booted_clean [OF u(2)] booted_clean [OF t(2)] t(4) by (auto simp: stored_def recovered_def)
  qed
  then show ?thesis using t by (auto simp: stored_def)
qed

text \<open>
  C13. \<open>log_write\<close> records the locked block in the transaction: a block already listed is absorbed, a new
  one is appended and its buffer pinned, so that the blocks listed stay distinct and are the former ones
  and this one. It panics exactly when the transaction is full or outside a transaction.
\<close>

theorem log_write_records:
  fixes s :: "'z logs_scheme"
  assumes "quiet s" "cache_inv s" "owns s b m" "lh_n s = int n" "inj_on (lh_block s) {0..<n}" "refs s m + 1 \<noteq> 0"
  shows "if LOGBLOCKS \<le> n then log_write b s = Panic ''too big a transaction''
    else if log_outstanding s < 1 then log_write b s = Panic ''log_write outside of trans''
    else \<exists>t k. log_write b s = Done () t \<and> cache_inv t \<and> lh_n t = int k \<and> k \<le> LOGBLOCKS
      \<and> lh_block t ` {0..<k} = insert m (lh_block s ` {0..<n}) \<and> inj_on (lh_block t) {0..<k}
      \<and> blk t = blk s \<and> disk t = disk s
      \<and> refs t = (if m \<in> lh_block s ` {0..<n} then refs s else (refs s)(m := refs s m + 1))"
proof (cases "LOGBLOCKS \<le> n \<or> log_outstanding s < 1")
  case True
  then show ?thesis using assms(1,4) by (auto simp: log_write_def)
next
  case False
  then obtain t where t: "log_write b s = Done () t" "cache_inv t" "blk t = blk s" "disk t = disk s"
      "if m \<in> lh_block s ` {0..<n} then lh_n t = lh_n s \<and> lh_block t = lh_block s \<and> refs t = refs s
       else lh_n t = lh_n s + 1 \<and> lh_block t = (lh_block s)(n := m) \<and> refs t = (refs s)(m := refs s m + 1)"
    using log_write_ok [OF assms(1-4) _ _ assms(6)] by fastforce
  show ?thesis
  proof (cases "m \<in> lh_block s ` {0..<n}")
    case True
    then show ?thesis using t False assms(4,5) by (auto simp: insert_absorb)
  next
    case new: False
    have "lh_block t ` {0..<Suc n} = insert m (lh_block s ` {0..<n})" "inj_on (lh_block t) {0..<Suc n}"
      using t(5) new assms(5) by (auto simp: atLeast0_lessThan_Suc inj_on_def)
    then show ?thesis using t new False assms(4) by (auto intro!: exI [of _ "Suc n"])
  qed
qed

section \<open>Witnesses\<close>

definition sample_logs :: "(uint \<Rightarrow> block) \<Rightarrow> logs" where
  "sample_logs d = bcache.extend (sample_bcache\<lparr>disk := d\<rparr>)
     \<lparr>log_start = 2, log_outstanding = 1, log_committing = False, log_dev = ROOTDEV, lh_n = 0, lh_block = (\<lambda>_. 0)\<rparr>"

text \<open>A booted machine with any given disk, and one whose transaction has block 50 in it.\<close>

lemma boot_exists: "\<exists>r :: logs. booted r \<and> disk r = d \<and> log_dev r = ROOTDEV \<and> log_start r = 2 \<and> lh_n r = 0 \<and> log_outstanding r = 1"
proof -
  have "quiet (sample_logs d)" "\<forall>b < NBUF. b_dev (bufs (sample_logs d) b) = 0 \<and> \<not> b_valid (bufs (sample_logs d) b) \<and> b_refcnt (bufs (sample_logs d) b) = 0"
    by (simp_all add: quiet_def sample_logs_def sample_bcache_def sample_sleepers_def sample_console_def sample_system_def proctab.defs console.defs
        sleepers.defs bcache.defs me_def cpu_ok_def lock_idle_def cpu_defs)
  from binit_cache_inv [OF this] obtain t :: logs where t: "quiet t" "cache_inv t" "disk t = disk (sample_logs d)" "\<forall>n. \<not> blocked t n \<and> refs t n = 0"
      "room t = NBUF" by blast
  let ?r = "t\<lparr>panicking := False, panicked := False, log_dev := ROOTDEV, log_start := 2, lh_n := 0, log_outstanding := 1\<rparr>"
  have e: "bufs ?r = bufs t" "slocks ?r = slocks t" "disk ?r = disk t" "me ?r = me t" "ptab ?r = ptab t" by (simp_all add: me_def)
  have "quiet ?r" using t(1) unfolding quiet_def by (simp add: me_def cpu_ok_def lock_idle_def cpu_defs)
  then have "booted ?r" using t same_cache [OF e] by (simp add: booted_def NBUF_def MAXOPBLOCKS_def)
  moreover have "disk ?r = d" using t(3) by (simp add: sample_logs_def sample_bcache_def bcache.defs)
  ultimately show ?thesis by (intro exI [of _ ?r]) simp
qed

lemma block_50: "(50 :: uint) \<notin> log_region 2"
proof
  assume "(50 :: uint) \<in> log_region 2"
  then obtain i where i: "i < 30" "(50 :: uint) = of_nat (i + 3)" by (auto simp: log_region_def log_block_def LOGBLOCKS_def MAXOPBLOCKS_def)
  have "unat (50 :: uint) = (i + 3) mod 2 ^ 32" unfolding i(2) by (simp only: unat_of_nat) simp
  then show False using i(1) by simp
qed

lemma transaction_exists:
  "\<exists>s :: logs. log_full s 1 \<and> log_start s = 2 \<and> lh_block s 0 = 50 \<and> blk s 50 = (\<lambda>_. 9) \<and> disk s = (\<lambda>_ _. 0)"
proof -
  obtain r :: logs where r: "booted r" "disk r = (\<lambda>_ _. 0)" "log_dev r = ROOTDEV" "log_start r = 2" "lh_n r = 0" "log_outstanding r = 1"
    using boot_exists by blast
  then have q: "quiet r \<and> cache_inv r" "\<not> blocked r 50" "refs r 50 = 0" "1 < room r" by (auto simp: booted_def)
  obtain b t where t: "quiet t \<and> cache_inv t" "untouched r t" "owns t b 50" "blk t = blk r" "disk t = disk r"
      "refs t = (refs r)(50 := 1)" "blocked t = (blocked r)(50 := True)" "room t = room r - 1"
    using bc.rd_law [of r 50] q by auto
  define u where "u = upd_buf b (\<lambda>q. q\<lparr>b_data := (\<lambda>_. 9)\<rparr>) t"
  have u: "quiet u \<and> cache_inv u" "untouched t u" "owns u b 50" "blk u = (blk t)(50 := (\<lambda>_. 9))" "disk u = disk t" "refs u = refs t"
      "blocked u = blocked t" "room u = room t"
    using bc.put_law [OF t(1,3), of "\<lambda>_. 9"] t(3) by (simp_all add: u_def)
  note l = untouched_logs [OF untouched_trans [OF t(2) u(2)]]
  obtain v where v: "log_write b u = Done () v" "quiet v" "cache_inv v" "blk v = blk u" "disk v = disk u" "blocked v = blocked u" "room v = room u"
      "owns v b 50" "log_start v = 2" "log_dev v = ROOTDEV" "lh_n v = 1" "lh_block v = (lh_block u)(0 := 50)" "refs v = (refs u)(50 := 2)"
    using log_write_ok [of u b 50 0] u t(6) l r by (auto simp: LOGBLOCKS_def MAXOPBLOCKS_def)
  obtain w where w: "quiet w" "cache_inv w" "untouched v w" "blk w = blk v" "disk w = disk v" "refs w = (refs v)(50 := 1)"
      "blocked w = (blocked v)(50 := False)" "room w = room v"
    using bc.rel_law [of v b 50] v(2,3,8,13) by auto
  note lw = untouched_logs [OF w(3)]
  have "bc.free_for w m" if "m \<in> log_region 2" for m
  proof -
    have "m \<noteq> 50" using that block_50 by blast
    then show ?thesis using r(1) q(4) t u v w by (simp add: bc.free_for_def booted_def)
  qed
  then have "log_full w 1"
    using w(1,2,6-8) v(6,7,9-13) u(6-8) t(6-8) q(2-4) lw(1-4) block_50 by (simp add: log_full_def LOGBLOCKS_def MAXOPBLOCKS_def)
  then show ?thesis using w v u t r lw by (intro exI [of _ w]) simp
qed

lemma head_zero: "head_n (\<lambda>_. 0) = 0"
  by (simp add: head_n_def get32_def)

theorem commit_crash_atomic_witness:
  "\<exists>(s :: logs) t W (r :: logs) u. commit s = Done () t \<and> dwrites t = dwrites s @ W \<and> disk s 50 \<noteq> blk s 50 \<and> booted r
    \<and> disk r = apply_writes (disk s) (take 2 W) \<and> initlog ROOTDEV 2 r = Done () u \<and> blk u 50 = (\<lambda>_. 9)"
proof -
  obtain s :: logs where s: "log_full s 1" "log_start s = 2" "lh_block s 0 = 50" "blk s 50 = (\<lambda>_. 9)" "disk s = (\<lambda>_ _. 0)"
    using transaction_exists by blast
  then have "head_n (disk s (log_start s)) = 0" by (simp add: head_zero)
  from commit_crash_atomic [OF s(1) this] obtain t W where t: "commit s = Done () t" "dwrites t = dwrites s @ W"
      "\<forall>m. m \<in> lh_block s ` {0..<1} \<longrightarrow> disk t m = blk s m"
    and c: "\<forall>k (r :: logs). booted r \<longrightarrow> disk r = apply_writes (disk s) (take k W) \<longrightarrow>
         (\<exists>u. initlog ROOTDEV (log_start s) r = Done () u \<and> lh_n u = 0
            \<and> (\<forall>m. m \<notin> log_region (log_start s) \<longrightarrow> blk u m = (if k \<le> 1 then disk s m else disk t m)))"
    by blast
  obtain r :: logs where r: "booted r" "disk r = apply_writes (disk s) (take 2 W)" using boot_exists by blast
  obtain u where "initlog ROOTDEV 2 r = Done () u" "blk u 50 = disk t 50" using c r block_50 s(2) by fastforce
  moreover have "disk t 50 = blk s 50" using t(3) s(3) by simp
  moreover have "disk s 50 \<noteq> blk s 50" using s(4,5) by (simp add: fun_eq_iff)
  ultimately have "commit s = Done () t \<and> dwrites t = dwrites s @ W \<and> disk s 50 \<noteq> blk s 50 \<and> booted r
    \<and> disk r = apply_writes (disk s) (take 2 W) \<and> initlog ROOTDEV 2 r = Done () u \<and> blk u 50 = (\<lambda>_. 9)"
    using t(1,2) r s(4) by simp
  then show ?thesis by blast
qed

theorem recovery_restartable_witness:
  "\<exists>(s :: logs) t. head_n (disk s 2) = 1 \<and> initlog ROOTDEV 2 s = Done () t \<and> lh_n t = 0"
proof -
  let ?h = "put_head (\<lambda>_. 0) 1 (\<lambda>_. 50)"
  obtain s :: logs where s: "booted s" "disk s = (\<lambda>_ _. 0)(2 := ?h)" using boot_exists by blast
  have h: "head_n ?h = 1" "head_block ?h 0 = 50" by simp_all
  have "nat (head_n (disk s 2)) \<le> LOGBLOCKS" "\<forall>i < nat (head_n (disk s 2)). head_block (disk s 2) i \<notin> log_region 2"
    using s(2) h block_50 by (simp_all add: LOGBLOCKS_def MAXOPBLOCKS_def)
  from recovery_restartable [OF s(1) this] obtain t where "initlog ROOTDEV 2 s = Done () t" "lh_n t = 0" by blast
  moreover have "head_n (disk s 2) = 1" using s(2) h(1) by simp
  ultimately show ?thesis by blast
qed

theorem log_write_records_witness:
  "\<exists>(s :: logs) b t k. log_write b s = Done () t \<and> lh_n t = int k \<and> lh_block t ` {0..<k} = {50}"
proof -
  obtain r :: logs where r: "booted r" "lh_n r = 0" "log_outstanding r = 1" using boot_exists [of "\<lambda>_ _. 0"] by blast
  then have q: "quiet r \<and> cache_inv r" "\<not> blocked r 50" "refs r 50 = 0" "1 < room r" by (auto simp: booted_def)
  obtain b t where t: "quiet t" "cache_inv t" "untouched r t" "owns t b 50" "refs t = (refs r)(50 := 1)"
    using bc.rd_law [of r 50] q by auto
  have l: "lh_n t = int 0" "log_outstanding t = 1" using untouched_logs [OF t(3)] r by simp_all
  have "\<exists>u k. log_write b t = Done () u \<and> lh_n u = int k \<and> lh_block u ` {0..<k} = {50}"
    using log_write_records [OF t(1,2,4) l(1)] t(5) l(2) by (auto simp: LOGBLOCKS_def MAXOPBLOCKS_def)
  then show ?thesis by blast
qed

end
