(* ===== verification/Logfull.thy ===== *)
theory Logfull
  imports Commit
begin

text \<open>
  The cache has as many buffers as a transaction may have blocks (\<^verbatim>\<open>NBUF\<close> and \<^verbatim>\<open>LOGBLOCKS\<close> are both
  \<^verbatim>\<open>MAXOPBLOCKS*3\<close>), and every block of a transaction keeps its buffer pinned until the commit. So a
  transaction of the full size leaves no buffer for the blocks of the log, and its commit panics.
\<close>

lemma small_nat: "i < 1000 \<Longrightarrow> unat (of_nat i :: uint) = i"
  by (simp add: unat_of_nat)

lemma bread_no_room:
  assumes "quiet s" "cache_inv s" "room s = 0" "refs s n = 0"
  shows "bread ROOTDEV n s = Panic ''bget: no buffers''"
proof -
  obtain xs where xs: "bio_inv s xs" using assms(2) by (auto simp: cache_inv_def)
  have set: "set xs = {0..<NBUF}" and one: "one_buf (bufs s)" using xs by (auto simp: bio_inv_def ring_def)
  have used: "b_refcnt (bufs s b) \<noteq> 0" if "b < NBUF" for b
  proof -
    have "finite {b. b < NBUF \<and> b_refcnt (bufs s b) = 0}" by simp
    then have "{b. b < NBUF \<and> b_refcnt (bufs s b) = 0} = {}" using assms(3) by (simp add: room_def)
    then show ?thesis using that by blast
  qed
  then have "\<not> matches ROOTDEV n (bufs s b)" if "b < NBUF" for b
    using view_cached(1) [OF one that] assms(4) that by auto
  then have "buf_for ROOTDEV n (bufs s) xs = None"
    using used set by (auto simp: buf_for_def find_None_iff split: option.splits)
  then show ?thesis using bget_no_buffers [OF assms(1) xs] by (simp add: bread_def)
qed

section \<open>Properties\<close>

text \<open>
  C14. If the transaction has pinned every buffer of the cache, \<open>commit\<close> panics with \<^verbatim>\<open>bget: no buffers\<close>
  at its first read of a log block, before anything is written to the disk.
\<close>

theorem commit_needs_buffer:
  fixes s :: "'z logs_scheme"
  assumes "quiet s" "cache_inv s" "log_dev s = ROOTDEV" "lh_n s = int LOGBLOCKS" "room s = 0" "refs s (log_start s + 1) = 0"
  shows "commit s = Panic ''bget: no buffers''"
proof -
  have "[0..<LOGBLOCKS] = 0 # [1..<LOGBLOCKS]" by (simp add: LOGBLOCKS_def MAXOPBLOCKS_def upt_conv_Cons)
  then have "write_log s = Panic ''bget: no buffers''"
    using bread_no_room [OF assms(1,2,5,6)] assms(3,4) by (simp add: write_log_def write_log_one_def)
  then show ?thesis using assms(4) by (simp add: commit_def LOGBLOCKS_def MAXOPBLOCKS_def)
qed

text \<open>A machine with 30 blocks pinned, and all of them in the transaction.\<close>

lemma full_exists:
  "\<exists>s :: logs. quiet s \<and> cache_inv s \<and> log_dev s = ROOTDEV \<and> lh_n s = int LOGBLOCKS \<and> room s = 0 \<and> refs s (log_start s + 1) = 0
     \<and> inj_on (lh_block s) {0..<LOGBLOCKS} \<and> (\<forall>i < LOGBLOCKS. refs s (lh_block s i) = 1)"
proof -
  obtain r :: logs where r: "booted r" "log_dev r = ROOTDEV" "log_start r = 2" using boot_exists [of "\<lambda>_ _. 0"] by blast
  define B where "B = (\<lambda>b. (bufs r b)\<lparr>b_dev := ROOTDEV, b_blockno := of_nat b + 100, b_valid := True, b_refcnt := 1\<rparr>)"
  define s where "s = r\<lparr>bufs := B, slocks := (\<lambda>l. (slocks r l)\<lparr>sl_locked := False\<rparr>), lh_n := int LOGBLOCKS, lh_block := (\<lambda>i. of_nat i + 100)\<rparr>"
  have s: "bufs s = B" "log_dev s = ROOTDEV" "log_start s = 2" "lh_n s = int LOGBLOCKS" "\<And>b. \<not> sl_locked (slocks s b)"
      "\<And>i. lh_block s i = of_nat i + 100"
    using r by (simp_all add: s_def)
  have q: "quiet s" using r(1) unfolding booted_def quiet_def by (simp add: s_def me_def cpu_ok_def lock_idle_def cpu_defs)
  obtain xs where "ring (bufs r) xs" using r(1) by (auto simp: booted_def cache_inv_def bio_inv_def)
  moreover have "seg B a ys z = seg (bufs r) a ys z" for a ys z by (induction ys arbitrary: a) (simp_all add: B_def)
  ultimately have "ring B xs" by (simp add: ring_def)
  moreover have inj: "a = b" if "a < 30" "b < 30" "of_nat a = (of_nat b :: uint)" for a b
  proof -
    have "unat (of_nat a :: uint) = a" "unat (of_nat b :: uint) = b" using that(1,2) by (auto intro: small_nat)
    with that(3) show ?thesis by metis
  qed
  then have one: "one_buf B" by (auto simp: one_buf_def B_def NBUF_def MAXOPBLOCKS_def)
  ultimately have c: "cache_inv s" unfolding cache_inv_def bio_inv_def s(1) using s(5) by (auto simp: B_def)
  have "room s = 0" unfolding room_def s(1) by (simp add: B_def)
  moreover have "\<not> matches ROOTDEV 3 (B b)" if "b < NBUF" for b
  proof
    assume "matches ROOTDEV 3 (B b)"
    then have "(3 :: uint) = of_nat (b + 100)" by (simp add: matches_def B_def)
    then have "unat (3 :: uint) = unat (of_nat (b + 100) :: uint)" by (rule arg_cong)
    also have "\<dots> = b + 100" by (rule small_nat) (use that in \<open>simp add: NBUF_def MAXOPBLOCKS_def\<close>)
    finally show False by simp
  qed
  then have "refs s 3 = 0" using view_uncached [of 3 s] s(1) by auto
  moreover have "refs s (lh_block s i) = 1" if "i < LOGBLOCKS" for i
    using view_cached(1) [of s i "lh_block s i"] one that s(1,6) by (simp add: matches_def B_def LOGBLOCKS_def NBUF_def)
  moreover have "inj_on (lh_block s) {0..<LOGBLOCKS}" using inj by (auto simp: inj_on_def s(6) LOGBLOCKS_def MAXOPBLOCKS_def)
  ultimately show ?thesis using q c s(2-4) by auto
qed

theorem commit_needs_buffer_witness:
  "\<exists>s :: logs. lh_n s = int LOGBLOCKS \<and> inj_on (lh_block s) {0..<LOGBLOCKS} \<and> commit s = Panic ''bget: no buffers''"
  using full_exists commit_needs_buffer by metis

end
