(* ===== verification/Fs.thy ===== *)
theory Fs
  imports Log
begin

text \<open>
  \<^verbatim>\<open>kernel/fs.c\<close>: the superblock, the block bitmap, inodes and their contents, directories and
  path names, on the logged buffer cache.

  An in-memory inode is its index in \<open>itable\<close>, a null pointer is \<open>None\<close>. Paths and names are lists
  of characters without the final NUL. Where the code passes the address of a local variable to
  \<open>readi\<close> or \<open>writei\<close>, the model passes the bytes themselves (\<open>DBuf\<close>, \<open>SBuf\<close>).
\<close>

section \<open>On-disk layout\<close>

definition ROOTINO :: uint where "ROOTINO = 1"
definition FSMAGIC :: uint where "FSMAGIC = 0x10203040"
definition NDIRECT :: nat where "NDIRECT = 12"
definition NINDIRECT :: nat where "NINDIRECT = BSIZE div 4"
definition MAXFILE :: nat where "MAXFILE = NDIRECT + NINDIRECT"
definition IPB :: nat where "IPB = BSIZE div 64"
definition BPB :: nat where "BPB = BSIZE * 8"
definition DIRSIZ :: nat where "DIRSIZ = 14"

definition T_DIR :: ushort where "T_DIR = 1"
definition T_FILE :: ushort where "T_FILE = 2"
definition T_DEVICE :: ushort where "T_DEVICE = 3"

record superblock =
  sb_magic :: uint
  sb_size :: uint
  sb_nblocks :: uint
  sb_ninodes :: uint
  sb_nlog :: uint
  sb_logstart :: uint
  sb_inodestart :: uint
  sb_bmapstart :: uint

definition get_sb :: "block \<Rightarrow> superblock" where
  "get_sb d = \<lparr>sb_magic = get32 d 0, sb_size = get32 d 4, sb_nblocks = get32 d 8, sb_ninodes = get32 d 12,
     sb_nlog = get32 d 16, sb_logstart = get32 d 20, sb_inodestart = get32 d 24, sb_bmapstart = get32 d 28\<rparr>"

text \<open>An inode on disk: 64 bytes, the type, device numbers and link count of two bytes each, the size, and 13 addresses.\<close>

record dinode =
  di_type :: ushort
  di_major :: ushort
  di_minor :: ushort
  di_nlink :: ushort
  di_size :: uint
  di_addrs :: "nat \<Rightarrow> uint"

definition get_dinode :: "block \<Rightarrow> nat \<Rightarrow> dinode" where
  "get_dinode d k =
     \<lparr>di_type = get16 d (64 * k), di_major = get16 d (64 * k + 2), di_minor = get16 d (64 * k + 4),
      di_nlink = get16 d (64 * k + 6), di_size = get32 d (64 * k + 8),
      di_addrs = (\<lambda>i. if i \<le> NDIRECT then get32 d (64 * k + 12 + 4 * i) else 0)\<rparr>"

fun put_addrs :: "block \<Rightarrow> nat \<Rightarrow> (nat \<Rightarrow> uint) \<Rightarrow> nat \<Rightarrow> block" where
  "put_addrs d k f 0 = d"
| "put_addrs d k f (Suc i) = put32 (put_addrs d k f i) (64 * k + 12 + 4 * i) (f i)"

definition put_dinode :: "block \<Rightarrow> nat \<Rightarrow> dinode \<Rightarrow> block" where
  "put_dinode d k q =
     put_addrs (put32 (put16 (put16 (put16 (put16 d (64 * k) (di_type q)) (64 * k + 2) (di_major q))
       (64 * k + 4) (di_minor q)) (64 * k + 6) (di_nlink q)) (64 * k + 8) (di_size q)) k (di_addrs q) (NDIRECT + 1)"

section \<open>State\<close>

record inode =
  i_dev :: uint
  i_inum :: uint
  i_ref :: int
  i_valid :: bool
  i_d :: dinode

record fsys = logs +
  sb :: superblock
  itable :: "nat \<Rightarrow> inode"

definition upd_inode :: "nat \<Rightarrow> (inode \<Rightarrow> inode) \<Rightarrow> 'z fsys_scheme \<Rightarrow> 'z fsys_scheme" where
  "upd_inode i f s = s\<lparr>itable := (itable s)(i := f (itable s i))\<rparr>"

definition set_inode :: "nat \<Rightarrow> (inode \<Rightarrow> inode) \<Rightarrow> ('z fsys_scheme, unit) kop" where
  "set_inode i f = kmod (upd_inode i f)"

definition set_d :: "nat \<Rightarrow> (dinode \<Rightarrow> dinode) \<Rightarrow> ('z fsys_scheme, unit) kop" where
  "set_d i f = set_inode i (\<lambda>q. q\<lparr>i_d := f (i_d q)\<rparr>)"

definition buf_data :: "nat \<Rightarrow> ('z bcache_scheme, block) kop" where
  "buf_data b = kget (\<lambda>s. b_data (bufs s b))"

definition set_data :: "nat \<Rightarrow> (block \<Rightarrow> block) \<Rightarrow> ('z bcache_scheme, unit) kop" where
  "set_data b f = set_buf b (\<lambda>q. q\<lparr>b_data := f (b_data q)\<rparr>)"

definition IBLOCK :: "uint \<Rightarrow> superblock \<Rightarrow> uint" where
  "IBLOCK i s = of_nat (unat i div IPB) + sb_inodestart s"

definition BBLOCK :: "nat \<Rightarrow> superblock \<Rightarrow> uint" where
  "BBLOCK b s = of_nat (b div BPB) + sb_bmapstart s"

section \<open>Blocks\<close>

definition readsb :: "uint \<Rightarrow> ('z fsys_scheme, unit) kop" where
  "readsb dev =
     kbind (bread dev 1) (\<lambda>bp.
     kbind (buf_data bp) (\<lambda>d.
     kseq (kmod (\<lambda>s. s\<lparr>sb := get_sb d\<rparr>)) (brelse bp)))"

definition bzero :: "uint \<Rightarrow> uint \<Rightarrow> ('z fsys_scheme, unit) kop" where
  "bzero dev bno =
     kbind (bread dev bno) (\<lambda>bp.
     kseq (set_data bp (\<lambda>_ _. 0))
    (kseq (log_write bp) (brelse bp)))"

text \<open>The bit of the bitmap block for the \<open>bi\<close>-th block it covers.\<close>

definition bit_set :: "block \<Rightarrow> nat \<Rightarrow> bool" where
  "bit_set d bi \<longleftrightarrow> d (bi div 8) AND push_bit (bi mod 8) 1 \<noteq> 0"

definition mark_bit :: "nat \<Rightarrow> block \<Rightarrow> block" where
  "mark_bit bi d = d(bi div 8 := d (bi div 8) OR push_bit (bi mod 8) 1)"

definition clear_bit :: "nat \<Rightarrow> block \<Rightarrow> block" where
  "clear_bit bi d = d(bi div 8 := d (bi div 8) AND NOT (push_bit (bi mod 8) 1))"

text \<open>\<open>balloc\<close>: the loop over the bitmap blocks; \<open>bs\<close> are the multiples of \<^verbatim>\<open>BPB\<close> still to look at.\<close>

fun balloc_loop :: "uint \<Rightarrow> nat list \<Rightarrow> ('z fsys_scheme, uint) kop" where
  "balloc_loop dev [] = kseq (printf (ascii ''balloc: out of blocks'' @ [10]) []) (kret 0)"
| "balloc_loop dev (b # bs) =
     kbind (kget sb) (\<lambda>sb.
     kbind (bread dev (BBLOCK b sb)) (\<lambda>bp.
     kbind (buf_data bp) (\<lambda>d.
     case List.find (\<lambda>bi. \<not> bit_set d bi) [0..<min BPB (unat (sb_size sb) - b)] of
       Some bi \<Rightarrow>
         kseq (set_data bp (mark_bit bi))
        (kseq (log_write bp)
        (kseq (brelse bp)
        (kseq (bzero dev (of_nat (b + bi))) (kret (of_nat (b + bi))))))
     | None \<Rightarrow> kseq (brelse bp) (balloc_loop dev bs))))"

definition balloc :: "uint \<Rightarrow> ('z fsys_scheme, uint) kop" where
  "balloc dev =
     kbind (kget (\<lambda>s. unat (sb_size (sb s)))) (\<lambda>size.
     balloc_loop dev (filter (\<lambda>b. b < size) (map (\<lambda>k. k * BPB) [0..<size div BPB + 1])))"

definition bfree :: "uint \<Rightarrow> uint \<Rightarrow> ('z fsys_scheme, unit) kop" where
  "bfree dev b =
     kbind (kget sb) (\<lambda>sb.
     kbind (bread dev (BBLOCK (unat b) sb)) (\<lambda>bp.
     let bi = unat b mod BPB in
     kbind (buf_data bp) (\<lambda>d.
     if \<not> bit_set d bi then kpanic ''freeing free block''
     else kseq (set_data bp (clear_bit bi)) (kseq (log_write bp) (brelse bp)))))"

section \<open>Inodes\<close>

definition iinit :: "('z fsys_scheme, unit) kop" where
  "iinit = kseq (initlock ItableLock ''itable'') (kfor [0..<NINODE] (\<lambda>i. initsleeplock (InodeSleep i) ''inode''))"

text \<open>The search of \<open>iget\<close>: the entry of the inode, or the first empty entry.\<close>

fun iget_find :: "(nat \<Rightarrow> inode) \<Rightarrow> uint \<Rightarrow> uint \<Rightarrow> nat option \<Rightarrow> nat list \<Rightarrow> bool \<times> nat option" where
  "iget_find tab dev inum empt [] = (False, empt)"
| "iget_find tab dev inum empt (i # is) =
     (if 0 < i_ref (tab i) \<and> i_dev (tab i) = dev \<and> i_inum (tab i) = inum then (True, Some i)
      else iget_find tab dev inum (if empt = None \<and> i_ref (tab i) = 0 then Some i else empt) is)"

definition iget :: "uint \<Rightarrow> uint \<Rightarrow> ('z fsys_scheme, nat) kop" where
  "iget dev inum =
     kseq (acquire ItableLock)
    (kbind (kget (\<lambda>s. iget_find (itable s) dev inum None [0..<NINODE])) (\<lambda>(found, slot).
     case slot of
       None \<Rightarrow> kpanic ''iget: no inodes''
     | Some i \<Rightarrow>
         kseq (set_inode i (\<lambda>q. if found then q\<lparr>i_ref := i_ref q + 1\<rparr>
                                 else q\<lparr>i_dev := dev, i_inum := inum, i_ref := 1, i_valid := False\<rparr>))
        (kseq (release ItableLock) (kret i))))"

definition idup :: "nat \<Rightarrow> ('z fsys_scheme, nat) kop" where
  "idup i =
     kseq (acquire ItableLock)
    (kseq (set_inode i (\<lambda>q. q\<lparr>i_ref := i_ref q + 1\<rparr>)) (kseq (release ItableLock) (kret i)))"

definition blank_dinode :: "ushort \<Rightarrow> dinode" where
  "blank_dinode ty = \<lparr>di_type = ty, di_major = 0, di_minor = 0, di_nlink = 0, di_size = 0, di_addrs = (\<lambda>_. 0)\<rparr>"

fun ialloc_loop :: "uint \<Rightarrow> ushort \<Rightarrow> nat list \<Rightarrow> ('z fsys_scheme, nat option) kop" where
  "ialloc_loop dev ty [] = kseq (printf (ascii ''ialloc: no inodes'' @ [10]) []) (kret None)"
| "ialloc_loop dev ty (inum # is) =
     kbind (kget sb) (\<lambda>sb.
     kbind (bread dev (IBLOCK (of_nat inum) sb)) (\<lambda>bp.
     kbind (buf_data bp) (\<lambda>d.
     if di_type (get_dinode d (inum mod IPB)) = 0
     then kseq (set_data bp (\<lambda>d. put_dinode d (inum mod IPB) (blank_dinode ty)))
         (kseq (log_write bp)
         (kseq (brelse bp)
               (kbind (iget dev (of_nat inum)) (\<lambda>i. kret (Some i)))))
     else kseq (brelse bp) (ialloc_loop dev ty is))))"

definition ialloc :: "uint \<Rightarrow> ushort \<Rightarrow> ('z fsys_scheme, nat option) kop" where
  "ialloc dev ty = kbind (kget (\<lambda>s. unat (sb_ninodes (sb s)))) (\<lambda>n. ialloc_loop dev ty [1..<n])"

definition iupdate :: "nat \<Rightarrow> ('z fsys_scheme, unit) kop" where
  "iupdate i =
     kbind (kget (\<lambda>s. itable s i)) (\<lambda>q.
     kbind (kget sb) (\<lambda>sb.
     kbind (bread (i_dev q) (IBLOCK (i_inum q) sb)) (\<lambda>bp.
     kseq (set_data bp (\<lambda>d. put_dinode d (unat (i_inum q) mod IPB) (i_d q)))
    (kseq (log_write bp) (brelse bp)))))"

definition ilock :: "nat option \<Rightarrow> ('z fsys_scheme, unit) kop" where
  "ilock ip =
     (case ip of
        None \<Rightarrow> kpanic ''ilock''
      | Some i \<Rightarrow>
          kbind (kget (\<lambda>s. i_ref (itable s i))) (\<lambda>r.
          if r < 1 then kpanic ''ilock''
          else kseq (acquiresleep (InodeSleep i))
              (kbind (kget (\<lambda>s. itable s i)) (\<lambda>q.
               kwhen (\<not> i_valid q)
                (kbind (kget sb) (\<lambda>sb.
                 kbind (bread (i_dev q) (IBLOCK (i_inum q) sb)) (\<lambda>bp.
                 kbind (buf_data bp) (\<lambda>d.
                 kseq (set_d i (\<lambda>_. get_dinode d (unat (i_inum q) mod IPB)))
                (kseq (brelse bp)
                (kseq (set_inode i (\<lambda>q. q\<lparr>i_valid := True\<rparr>))
                (kbind (kget (\<lambda>s. di_type (i_d (itable s i)))) (\<lambda>ty.
                 if ty = 0 then kpanic ''ilock: no type'' else kret ()))))))))))))"

definition iunlock :: "nat option \<Rightarrow> ('z fsys_scheme, unit) kop" where
  "iunlock ip =
     (case ip of
        None \<Rightarrow> kpanic ''iunlock''
      | Some i \<Rightarrow>
          kbind (holdingsleep (InodeSleep i)) (\<lambda>h.
          kbind (kget (\<lambda>s. i_ref (itable s i))) (\<lambda>r.
          if \<not> h \<or> r < 1 then kpanic ''iunlock'' else releasesleep (InodeSleep i))))"

section \<open>Contents\<close>

definition set_addr :: "nat \<Rightarrow> nat \<Rightarrow> uint \<Rightarrow> ('z fsys_scheme, unit) kop" where
  "set_addr i k a = set_d i (\<lambda>q. q\<lparr>di_addrs := (di_addrs q)(k := a)\<rparr>)"

definition bmap :: "nat \<Rightarrow> nat \<Rightarrow> ('z fsys_scheme, uint) kop" where
  "bmap i bn =
     kbind (kget (\<lambda>s. itable s i)) (\<lambda>q.
     if bn < NDIRECT
     then let addr = di_addrs (i_d q) bn in
       if addr = 0
       then kbind (balloc (i_dev q)) (\<lambda>addr.
            if addr = 0 then kret 0 else kseq (set_addr i bn addr) (kret addr))
       else kret addr
     else let bn = bn - NDIRECT in
       if bn < NINDIRECT
       then kbind (let addr = di_addrs (i_d q) NDIRECT in
              if addr = 0
              then kbind (balloc (i_dev q)) (\<lambda>addr.
                   if addr = 0 then kret 0 else kseq (set_addr i NDIRECT addr) (kret addr))
              else kret addr) (\<lambda>ind.
            if ind = 0 then kret 0
            else kbind (bread (i_dev q) ind) (\<lambda>bp.
                 kbind (buf_data bp) (\<lambda>d.
                 let addr = get32 d (4 * bn) in
                 if addr = 0
                 then kbind (balloc (i_dev q)) (\<lambda>addr.
                      kseq (kwhen (addr \<noteq> 0) (kseq (set_data bp (\<lambda>d. put32 d (4 * bn) addr)) (log_write bp)))
                     (kseq (brelse bp) (kret addr)))
                 else kseq (brelse bp) (kret addr))))
       else kpanic ''bmap: out of range'')"

definition itrunc :: "nat \<Rightarrow> ('z fsys_scheme, unit) kop" where
  "itrunc i =
     kseq (kfor [0..<NDIRECT] (\<lambda>k.
             kbind (kget (\<lambda>s. itable s i)) (\<lambda>q.
             kwhen (di_addrs (i_d q) k \<noteq> 0)
               (kseq (bfree (i_dev q) (di_addrs (i_d q) k)) (set_addr i k 0)))))
    (kseq (kbind (kget (\<lambda>s. itable s i)) (\<lambda>q.
           let ind = di_addrs (i_d q) NDIRECT in
           kwhen (ind \<noteq> 0)
            (kbind (bread (i_dev q) ind) (\<lambda>bp.
             kseq (kfor [0..<NINDIRECT] (\<lambda>j.
                     kbind (buf_data bp) (\<lambda>d.
                     kwhen (get32 d (4 * j) \<noteq> 0) (bfree (i_dev q) (get32 d (4 * j))))))
            (kseq (brelse bp)
            (kseq (bfree (i_dev q) ind) (set_addr i NDIRECT 0)))))))
    (kseq (set_d i (\<lambda>q. q\<lparr>di_size := 0\<rparr>)) (iupdate i)))"

definition iput :: "nat \<Rightarrow> ('z fsys_scheme, unit) kop" where
  "iput i =
     kseq (acquire ItableLock)
    (kbind (kget (\<lambda>s. itable s i)) (\<lambda>q.
     kseq (kwhen (i_ref q = 1 \<and> i_valid q \<and> di_nlink (i_d q) = 0)
            (kseq (acquiresleep (InodeSleep i))
            (kseq (release ItableLock)
            (kseq (itrunc i)
            (kseq (set_d i (\<lambda>q. q\<lparr>di_type := 0\<rparr>))
            (kseq (iupdate i)
            (kseq (set_inode i (\<lambda>q. q\<lparr>i_valid := False\<rparr>))
            (kseq (releasesleep (InodeSleep i))
                  (acquire ItableLock)))))))))
    (kseq (set_inode i (\<lambda>q. q\<lparr>i_ref := i_ref q - 1\<rparr>)) (release ItableLock))))"

definition iunlockput :: "nat \<Rightarrow> ('z fsys_scheme, unit) kop" where
  "iunlockput i = kseq (iunlock (Some i)) (iput i)"

definition ireclaim_one :: "uint \<Rightarrow> nat \<Rightarrow> ('z fsys_scheme, unit) kop" where
  "ireclaim_one dev inum =
     kbind (kget sb) (\<lambda>sb.
     kbind (bread dev (IBLOCK (of_nat inum) sb)) (\<lambda>bp.
     kbind (buf_data bp) (\<lambda>d.
     let q = get_dinode d (inum mod IPB) in
     kbind (if di_type q \<noteq> 0 \<and> di_nlink q = 0
            then kseq (printf (ascii ''ireclaim: orphaned inode %d'' @ [10]) [VWord (of_nat inum)])
                      (kbind (iget dev (of_nat inum)) (\<lambda>i. kret (Some i)))
            else kret None) (\<lambda>ip.
     kseq (brelse bp)
          (case ip of None \<Rightarrow> kret ()
           | Some i \<Rightarrow>
               kseq begin_op
              (kseq (ilock (Some i))
              (kseq (iunlock (Some i))
              (kseq (iput i) end_op))))))))"

definition ireclaim :: "uint \<Rightarrow> ('z fsys_scheme, unit) kop" where
  "ireclaim dev = kbind (kget (\<lambda>s. unat (sb_ninodes (sb s)))) (\<lambda>n. kfor [1..<n] (ireclaim_one dev))"

definition fsinit :: "uint \<Rightarrow> ('z fsys_scheme, unit) kop" where
  "fsinit dev =
     kseq (readsb dev)
    (kbind (kget sb) (\<lambda>sb.
     if sb_magic sb \<noteq> FSMAGIC then kpanic ''invalid file system''
     else kseq (initlog dev (sb_logstart sb)) (ireclaim dev)))"

text \<open>\<^verbatim>\<open>struct stat\<close>.\<close>

record stat =
  st_dev :: uint
  st_ino :: uint
  st_type :: ushort
  st_nlink :: ushort
  st_size :: uint64

definition stati :: "nat \<Rightarrow> ('z fsys_scheme, stat) kop" where
  "stati i = kget (\<lambda>s. let q = itable s i in
     \<lparr>st_dev = i_dev q, st_ino = i_inum q, st_type = di_type (i_d q), st_nlink = di_nlink (i_d q), st_size = ucast (di_size (i_d q))\<rparr>)"

section \<open>Reading and writing\<close>

text \<open>Where the bytes go to or come from: user memory, the kernel's direct map, or a kernel variable.\<close>

datatype dst = DUser uint64 | DMem uint64 | DBuf

fun copy_to :: "dst \<Rightarrow> nat \<Rightarrow> uchar list \<Rightarrow> ('z proctab_scheme, int) kop" where
  "copy_to (DUser a) k bs = either_copyout True (a + of_nat k) bs"
| "copy_to (DMem a) k bs = either_copyout False (a + of_nat k) bs"
| "copy_to DBuf k bs = kret 0"

datatype src = SUser uint64 | SMem uint64 | SBuf "uchar list"

fun copy_from :: "src \<Rightarrow> nat \<Rightarrow> nat \<Rightarrow> ('z proctab_scheme, int \<times> uchar list) kop" where
  "copy_from (SUser a) k m = either_copyin True (a + of_nat k) m"
| "copy_from (SMem a) k m = either_copyin False (a + of_nat k) m"
| "copy_from (SBuf bs) k m = kret (0, take m (drop k bs))"

definition slice :: "block \<Rightarrow> nat \<Rightarrow> nat \<Rightarrow> uchar list" where
  "slice d o' m = map d [o'..<o' + m]"

definition splice :: "nat \<Rightarrow> uchar list \<Rightarrow> block \<Rightarrow> block" where
  "splice o' bs d = (\<lambda>i. if o' \<le> i \<and> i < o' + length bs then bs ! (i - o') else d i)"

text \<open>
  The loop of \<open>readi\<close>: \<open>tot\<close> of \<open>n\<close> bytes are read, the file offset is \<open>off\<close>. The bytes read so far
  are returned too. Every turn reads at least one byte, so \<open>n + 1\<close> turns are enough.
\<close>

fun readi_loop :: "nat \<Rightarrow> nat \<Rightarrow> dst \<Rightarrow> nat \<Rightarrow> nat \<Rightarrow> nat \<Rightarrow> ('z fsys_scheme, int \<times> uchar list) kop" where
  "readi_loop 0 i dst off tot n = (\<lambda>_. Diverge)"
| "readi_loop (Suc k) i dst off tot n =
     (if tot < n
      then kbind (bmap i (off div BSIZE)) (\<lambda>addr.
           if addr = 0 then kret (int tot, [])
           else kbind (kget (\<lambda>s. i_dev (itable s i))) (\<lambda>dev.
                kbind (bread dev addr) (\<lambda>bp.
                let m = min (n - tot) (BSIZE - off mod BSIZE) in
                kbind (buf_data bp) (\<lambda>d.
                kbind (copy_to dst tot (slice d (off mod BSIZE) m)) (\<lambda>r.
                if r = -1 then kseq (brelse bp) (kret (-1, []))
                else kseq (brelse bp)
                    (kbind (readi_loop k i dst (off + m) (tot + m) n) (\<lambda>(t, bs).
                     kret (t, slice d (off mod BSIZE) m @ bs))))))))
      else kret (int tot, []))"

definition readi :: "nat \<Rightarrow> dst \<Rightarrow> uint \<Rightarrow> uint \<Rightarrow> ('z fsys_scheme, int \<times> uchar list) kop" where
  "readi i dst off n =
     kbind (kget (\<lambda>s. di_size (i_d (itable s i)))) (\<lambda>size.
     if size < off \<or> off + n < off then kret (0, [])
     else let n = (if size < off + n then size - off else n) in
       readi_loop (unat n + 1) i dst (unat off) 0 (unat n))"

text \<open>The loop of \<open>writei\<close> returns the bytes written and the offset reached.\<close>

fun writei_loop :: "nat \<Rightarrow> nat \<Rightarrow> src \<Rightarrow> nat \<Rightarrow> nat \<Rightarrow> nat \<Rightarrow> ('z fsys_scheme, nat \<times> nat) kop" where
  "writei_loop 0 i src off tot n = (\<lambda>_. Diverge)"
| "writei_loop (Suc k) i src off tot n =
     (if tot < n
      then kbind (bmap i (off div BSIZE)) (\<lambda>addr.
           if addr = 0 then kret (tot, off)
           else kbind (kget (\<lambda>s. i_dev (itable s i))) (\<lambda>dev.
                kbind (bread dev addr) (\<lambda>bp.
                let m = min (n - tot) (BSIZE - off mod BSIZE) in
                kbind (copy_from src tot m) (\<lambda>(r, bs).
                kseq (set_data bp (splice (off mod BSIZE) bs))
               (if r = -1 then kseq (brelse bp) (kret (tot, off))
                else kseq (log_write bp)
                    (kseq (brelse bp) (writei_loop k i src (off + m) (tot + m) n)))))))
      else kret (tot, off))"

definition writei :: "nat \<Rightarrow> src \<Rightarrow> uint \<Rightarrow> uint \<Rightarrow> ('z fsys_scheme, int) kop" where
  "writei i src off n =
     kbind (kget (\<lambda>s. di_size (i_d (itable s i)))) (\<lambda>size.
     if size < off \<or> off + n < off then kret (-1)
     else if MAXFILE * BSIZE < unat (off + n) then kret (-1)
     else kbind (writei_loop (unat n + 1) i src (unat off) 0 (unat n)) (\<lambda>(tot, off).
          kbind (kget (\<lambda>s. di_size (i_d (itable s i)))) (\<lambda>size.
          kseq (kwhen (unat size < off) (set_d i (\<lambda>q. q\<lparr>di_size := of_nat off\<rparr>)))
         (kseq (iupdate i) (kret (int tot))))))"

section \<open>Directories\<close>

text \<open>A string as an array of characters.\<close>

definition str_of :: "uchar list \<Rightarrow> cstr" where
  "str_of xs i = (if i < length xs then xs ! i else 0)"

definition namecmp :: "cstr \<Rightarrow> cstr \<Rightarrow> int" where
  "namecmp s t = strncmp s t DIRSIZ"

text \<open>A directory entry: the inode number in two bytes and the name in 14.\<close>

definition de_inum :: "uchar list \<Rightarrow> ushort" where
  "de_inum bs = get16 (str_of bs) 0"

definition de_name :: "uchar list \<Rightarrow> cstr" where
  "de_name bs = (\<lambda>i. str_of bs (i + 2))"

definition put_dirent :: "uint \<Rightarrow> uchar list \<Rightarrow> uchar list" where
  "put_dirent inum name =
     map (\<lambda>i. if i < 2 then put16 (\<lambda>_. 0) 0 (ucast inum) i
               else strncpy (\<lambda>_. 0) (str_of name) (int DIRSIZ) (i - 2)) [0..<16]"

fun dirlookup_loop :: "nat list \<Rightarrow> nat \<Rightarrow> uchar list \<Rightarrow> ('z fsys_scheme, (nat \<times> nat) option) kop" where
  "dirlookup_loop [] dp name = kret None"
| "dirlookup_loop (off # offs) dp name =
     kbind (readi dp DBuf (of_nat off) 16) (\<lambda>(r, de).
     if r \<noteq> 16 then kpanic ''dirlookup read''
     else if de_inum de = 0 then dirlookup_loop offs dp name
     else if namecmp (str_of name) (de_name de) = 0
     then kbind (kget (\<lambda>s. i_dev (itable s dp))) (\<lambda>dev.
          kbind (iget dev (ucast (de_inum de))) (\<lambda>i. kret (Some (i, off))))
     else dirlookup_loop offs dp name)"

definition dir_offsets :: "nat \<Rightarrow> nat list" where
  "dir_offsets sz = filter (\<lambda>o'. o' < sz) (map (\<lambda>k. 16 * k) [0..<sz div 16 + 1])"

definition dirlookup :: "nat \<Rightarrow> uchar list \<Rightarrow> ('z fsys_scheme, (nat \<times> nat) option) kop" where
  "dirlookup dp name =
     kbind (kget (\<lambda>s. i_d (itable s dp))) (\<lambda>q.
     if di_type q \<noteq> T_DIR then kpanic ''dirlookup not DIR''
     else dirlookup_loop (dir_offsets (unat (di_size q))) dp name)"

text \<open>The offset of the first empty entry, or the end of the directory.\<close>

fun dirlink_find :: "nat list \<Rightarrow> nat \<Rightarrow> nat \<Rightarrow> ('z fsys_scheme, nat) kop" where
  "dirlink_find [] dp off = kret off"
| "dirlink_find (o' # os) dp off =
     kbind (readi dp DBuf (of_nat o') 16) (\<lambda>(r, de).
     if r \<noteq> 16 then kpanic ''dirlink read''
     else if de_inum de = 0 then kret o' else dirlink_find os dp (o' + 16))"

definition dirlink :: "nat \<Rightarrow> uchar list \<Rightarrow> uint \<Rightarrow> ('z fsys_scheme, int) kop" where
  "dirlink dp name inum =
     kbind (dirlookup dp name) (\<lambda>found.
     case found of
       Some (i, _) \<Rightarrow> kseq (iput i) (kret (-1))
     | None \<Rightarrow>
         kbind (kget (\<lambda>s. unat (di_size (i_d (itable s dp))))) (\<lambda>size.
         kbind (dirlink_find (dir_offsets size) dp 0) (\<lambda>off.
         kbind (writei dp (SBuf (put_dirent inum name)) (of_nat off) 16) (\<lambda>r.
         if r \<noteq> 16 then kret (-1) else kret 0))))"

section \<open>Paths\<close>

definition slash :: uchar where "slash = 47"

text \<open>The next element of a path, of which at most 14 characters are kept, and the rest.\<close>

definition skipelem :: "uchar list \<Rightarrow> (uchar list \<times> uchar list) option" where
  "skipelem path =
     (let path = dropWhile (\<lambda>c. c = slash) path in
      if path = [] then None
      else let e = takeWhile (\<lambda>c. c \<noteq> slash) path; r = dropWhile (\<lambda>c. c \<noteq> slash) path
           in Some (if DIRSIZ \<le> length e then take DIRSIZ e else e, dropWhile (\<lambda>c. c = slash) r))"

text \<open>The loop of \<open>namex\<close>; each turn takes an element off the path, so the length of the path plus one is enough fuel.\<close>

fun namex_loop :: "nat \<Rightarrow> nat \<Rightarrow> uchar list \<Rightarrow> bool \<Rightarrow> uchar list \<Rightarrow> ('z fsys_scheme, (nat \<times> uchar list) option) kop" where
  "namex_loop 0 i path nip name = (\<lambda>_. Diverge)"
| "namex_loop (Suc k) i path nip name =
     (case skipelem path of
        None \<Rightarrow> if nip then kseq (iput i) (kret None) else kret (Some (i, name))
      | Some (name, path) \<Rightarrow>
          kseq (ilock (Some i))
         (kbind (kget (\<lambda>s. di_type (i_d (itable s i)))) (\<lambda>ty.
          if ty \<noteq> T_DIR then kseq (iunlockput i) (kret None)
          else if nip \<and> path = [] then kseq (iunlock (Some i)) (kret (Some (i, name)))
          else kbind (dirlookup i name) (\<lambda>nxt.
               case nxt of
                 None \<Rightarrow> kseq (iunlockput i) (kret None)
               | Some (j, _) \<Rightarrow> kseq (iunlockput i) (namex_loop k j path nip name)))))"

definition namex :: "uchar list \<Rightarrow> bool \<Rightarrow> ('z fsys_scheme, (nat \<times> uchar list) option) kop" where
  "namex path nip =
     kbind (if path \<noteq> [] \<and> hd path = slash then iget ROOTDEV ROOTINO
            else kbind myproc (\<lambda>p. case p of None \<Rightarrow> kpanic ''kerneltrap''
                 | Some p \<Rightarrow> kbind (kget (\<lambda>s. p_cwd (ptab s p))) (\<lambda>c.
                     case c of None \<Rightarrow> kpanic ''kerneltrap'' | Some c \<Rightarrow> idup c))) (\<lambda>i.
     namex_loop (length path + 1) i path nip [])"

definition namei :: "uchar list \<Rightarrow> ('z fsys_scheme, nat option) kop" where
  "namei path = kbind (namex path False) (\<lambda>r. kret (map_option fst r))"

definition nameiparent :: "uchar list \<Rightarrow> ('z fsys_scheme, (nat \<times> uchar list) option) kop" where
  "nameiparent path = namex path True"

end
