(* ===== verification/File.thy ===== *)
theory File
  imports Fs
begin

text \<open>
  \<^verbatim>\<open>kernel/file.c\<close> and \<^verbatim>\<open>kernel/pipe.c\<close>: open files and pipes. A file is its index in \<open>ftable\<close>. A
  pipe is named by the address of the page that holds it; the pages of live pipes are kept as typed
  objects in \<open>pipes\<close>. \<open>junk\<close> is what an uninitialised kernel stack holds, which \<open>filestat\<close> copies out in
  the padding of \<^verbatim>\<open>struct stat\<close>.
\<close>

section \<open>State\<close>

datatype filetype = FD_NONE | FD_PIPE | FD_INODE | FD_DEVICE

record file_t =
  f_type :: filetype
  f_ref :: int
  f_readable :: bool
  f_writable :: bool
  f_pipe :: uint64
  f_ip :: "nat option"
  f_off :: uint
  f_major :: ushort

definition PIPESIZE :: nat where "PIPESIZE = 512"

record pipe =
  pi_data :: "nat \<Rightarrow> uchar"
  pi_nread :: uint
  pi_nwrite :: uint
  pi_readopen :: bool
  pi_writeopen :: bool

record files = fsys +
  ftable :: "nat \<Rightarrow> file_t"
  pipes :: "uint64 \<Rightarrow> pipe"
  junk :: "uchar list"

definition upd_file :: "nat \<Rightarrow> (file_t \<Rightarrow> file_t) \<Rightarrow> 'z files_scheme \<Rightarrow> 'z files_scheme" where
  "upd_file f g s = s\<lparr>ftable := (ftable s)(f := g (ftable s f))\<rparr>"

definition set_file :: "nat \<Rightarrow> (file_t \<Rightarrow> file_t) \<Rightarrow> ('z files_scheme, unit) kop" where
  "set_file f g = kmod (upd_file f g)"

definition upd_pipe :: "uint64 \<Rightarrow> (pipe \<Rightarrow> pipe) \<Rightarrow> 'z files_scheme \<Rightarrow> 'z files_scheme" where
  "upd_pipe p g s = s\<lparr>pipes := (pipes s)(p := g (pipes s p))\<rparr>"

definition set_pipe :: "uint64 \<Rightarrow> (pipe \<Rightarrow> pipe) \<Rightarrow> ('z files_scheme, unit) kop" where
  "set_pipe p g = kmod (upd_pipe p g)"

section \<open>Pipes\<close>

definition pipeclose :: "uint64 \<Rightarrow> bool \<Rightarrow> ('z files_scheme, unit) kop" where
  "pipeclose p writable =
     kseq (acquire (PipeLock p))
    (kseq (if writable
           then kseq (set_pipe p (\<lambda>q. q\<lparr>pi_writeopen := False\<rparr>)) (wakeup (PipeNread p))
           else kseq (set_pipe p (\<lambda>q. q\<lparr>pi_readopen := False\<rparr>)) (wakeup (PipeNwrite p)))
    (kbind (kget (\<lambda>s. pipes s p)) (\<lambda>q.
     if \<not> pi_readopen q \<and> \<not> pi_writeopen q
     then kseq (release (PipeLock p)) (kfree p)
     else release (PipeLock p))))"

text \<open>
  The loop of \<open>pipewrite\<close>, with \<open>i\<close> bytes written and the given number still to write. A writer that
  finds the pipe full wakes the readers and sleeps.
\<close>

fun pipewrite_loop :: "nat \<Rightarrow> uint64 \<Rightarrow> uint64 \<Rightarrow> nat \<Rightarrow> nat \<Rightarrow> ('z files_scheme, int) kop" where
  "pipewrite_loop pr p addr i 0 =
     kseq (wakeup (PipeNread p)) (kseq (release (PipeLock p)) (kret (int i)))"
| "pipewrite_loop pr p addr i (Suc m) =
     kbind (kget (\<lambda>s. pi_readopen (pipes s p))) (\<lambda>ro.
     kbind (if \<not> ro then kret True else kbind (killed pr) (\<lambda>k. kret (k \<noteq> 0))) (\<lambda>stop.
     if stop then kseq (release (PipeLock p)) (kret (-1))
     else kbind (kget (\<lambda>s. pipes s p)) (\<lambda>q.
          if pi_nwrite q = pi_nread q + of_nat PIPESIZE
          then kseq (wakeup (PipeNread p)) (kseq (sleep (PipeNwrite p) (PipeLock p)) (kret 0))
          else kbind (kget (\<lambda>s. p_pagetable (ptab s pr))) (\<lambda>pt.
               kbind (copyin pt (addr + of_nat i) 1) (\<lambda>(r, bs).
               if r = -1 then kseq (wakeup (PipeNread p)) (kseq (release (PipeLock p)) (kret (int i)))
               else kseq (set_pipe p (\<lambda>q. q\<lparr>pi_data := (pi_data q)(unat (pi_nwrite q) mod PIPESIZE := hd bs),
                                           pi_nwrite := pi_nwrite q + 1\<rparr>))
                         (pipewrite_loop pr p addr (i + 1) m))))))"

definition pipewrite :: "uint64 \<Rightarrow> uint64 \<Rightarrow> int \<Rightarrow> ('z files_scheme, int) kop" where
  "pipewrite p addr n =
     kbind myproc (\<lambda>pr. case pr of None \<Rightarrow> kpanic ''kerneltrap''
     | Some pr \<Rightarrow> kseq (acquire (PipeLock p)) (pipewrite_loop pr p addr 0 (nat n)))"

definition pipewrite_resume :: "nat \<Rightarrow> uint64 \<Rightarrow> uint64 \<Rightarrow> nat \<Rightarrow> nat \<Rightarrow> bool \<Rightarrow> ('z files_scheme, int) kop" where
  "pipewrite_resume pr p addr i m ena = kseq (sleep_resume (PipeLock p) ena) (pipewrite_loop pr p addr i m)"

text \<open>\<open>piperead\<close>: the copying loop, and before it the wait for data or for the last writer to close.\<close>

fun piperead_copy :: "nat \<Rightarrow> uint64 \<Rightarrow> uint64 \<Rightarrow> nat \<Rightarrow> nat \<Rightarrow> ('z files_scheme, int) kop" where
  "piperead_copy pr p addr i 0 = kret (int i)"
| "piperead_copy pr p addr i (Suc m) =
     kbind (kget (\<lambda>s. pipes s p)) (\<lambda>q.
     if pi_nread q = pi_nwrite q then kret (int i)
     else let ch = pi_data q (unat (pi_nread q) mod PIPESIZE) in
       kseq (set_pipe p (\<lambda>q. q\<lparr>pi_nread := pi_nread q + 1\<rparr>))
      (kbind (kget (\<lambda>s. p_pagetable (ptab s pr))) (\<lambda>pt.
       kbind (copyout pt (addr + of_nat i) [ch]) (\<lambda>r.
       if r = -1 then kret (int i) else piperead_copy pr p addr (i + 1) m))))"

definition piperead_loop :: "nat \<Rightarrow> uint64 \<Rightarrow> uint64 \<Rightarrow> int \<Rightarrow> ('z files_scheme, int) kop" where
  "piperead_loop pr p addr n =
     kbind (kget (\<lambda>s. pipes s p)) (\<lambda>q.
     if pi_nread q = pi_nwrite q \<and> pi_writeopen q
     then kbind (killed pr) (\<lambda>k.
          if k \<noteq> 0 then kseq (release (PipeLock p)) (kret (-1))
          else kseq (sleep (PipeNread p) (PipeLock p)) (kret 0))
     else kbind (piperead_copy pr p addr 0 (nat n)) (\<lambda>i.
          kseq (wakeup (PipeNwrite p)) (kseq (release (PipeLock p)) (kret i))))"

definition piperead :: "uint64 \<Rightarrow> uint64 \<Rightarrow> int \<Rightarrow> ('z files_scheme, int) kop" where
  "piperead p addr n =
     kbind myproc (\<lambda>pr. case pr of None \<Rightarrow> kpanic ''kerneltrap''
     | Some pr \<Rightarrow> kseq (acquire (PipeLock p)) (piperead_loop pr p addr n))"

definition piperead_resume :: "nat \<Rightarrow> uint64 \<Rightarrow> uint64 \<Rightarrow> int \<Rightarrow> bool \<Rightarrow> ('z files_scheme, int) kop" where
  "piperead_resume pr p addr n ena = kseq (sleep_resume (PipeLock p) ena) (piperead_loop pr p addr n)"

section \<open>Files\<close>

definition fileinit :: "('z files_scheme, unit) kop" where
  "fileinit = initlock FtableLock ''ftable''"

definition filealloc :: "('z files_scheme, nat option) kop" where
  "filealloc =
     kseq (acquire FtableLock)
    (kbind (kget (\<lambda>s. List.find (\<lambda>f. f_ref (ftable s f) = 0) [0..<NFILE])) (\<lambda>found.
     case found of
       Some f \<Rightarrow> kseq (set_file f (\<lambda>q. q\<lparr>f_ref := 1\<rparr>)) (kseq (release FtableLock) (kret (Some f)))
     | None \<Rightarrow> kseq (release FtableLock) (kret None)))"

definition filedup :: "nat \<Rightarrow> ('z files_scheme, nat) kop" where
  "filedup f =
     kseq (acquire FtableLock)
    (kbind (kget (\<lambda>s. f_ref (ftable s f))) (\<lambda>r.
     if r < 1 then kpanic ''filedup''
     else kseq (set_file f (\<lambda>q. q\<lparr>f_ref := f_ref q + 1\<rparr>)) (kseq (release FtableLock) (kret f))))"

text \<open>A null inode pointer cannot be put: using it traps in the kernel.\<close>

definition iput_opt :: "nat option \<Rightarrow> ('z fsys_scheme, unit) kop" where
  "iput_opt ip = (case ip of None \<Rightarrow> kpanic ''kerneltrap'' | Some i \<Rightarrow> iput i)"

definition fileclose :: "nat \<Rightarrow> ('z files_scheme, unit) kop" where
  "fileclose f =
     kseq (acquire FtableLock)
    (kbind (kget (\<lambda>s. f_ref (ftable s f))) (\<lambda>r.
     if r < 1 then kpanic ''fileclose''
     else kseq (set_file f (\<lambda>q. q\<lparr>f_ref := f_ref q - 1\<rparr>))
         (if 0 < r - 1 then release FtableLock
          else kbind (kget (\<lambda>s. ftable s f)) (\<lambda>ff.
               kseq (set_file f (\<lambda>q. q\<lparr>f_ref := 0, f_type := FD_NONE\<rparr>))
              (kseq (release FtableLock)
              (case f_type ff of
                 FD_PIPE \<Rightarrow> pipeclose (f_pipe ff) (f_writable ff)
               | FD_NONE \<Rightarrow> kret ()
               | _ \<Rightarrow> kseq begin_op (kseq (iput_opt (f_ip ff)) end_op)))))))"

definition pipealloc_bad :: "uint64 \<Rightarrow> nat option \<Rightarrow> nat option \<Rightarrow> ('z files_scheme, (nat \<times> nat) option) kop" where
  "pipealloc_bad p f0 f1 =
     kseq (kwhen (p \<noteq> 0) (kfree p))
    (kseq (case f0 of None \<Rightarrow> kret () | Some f \<Rightarrow> fileclose f)
    (kseq (case f1 of None \<Rightarrow> kret () | Some f \<Rightarrow> fileclose f) (kret None)))"

definition pipealloc :: "('z files_scheme, (nat \<times> nat) option) kop" where
  "pipealloc =
     kbind filealloc (\<lambda>f0.
     case f0 of
       None \<Rightarrow> pipealloc_bad 0 None None
     | Some r \<Rightarrow>
         kbind filealloc (\<lambda>f1.
         case f1 of
           None \<Rightarrow> pipealloc_bad 0 f0 None
         | Some w \<Rightarrow>
             kbind kalloc (\<lambda>p.
             if p = 0 then pipealloc_bad 0 f0 f1
             else kseq (set_pipe p (\<lambda>q. q\<lparr>pi_readopen := True, pi_writeopen := True, pi_nwrite := 0, pi_nread := 0\<rparr>))
                 (kseq (initlock (PipeLock p) ''pipe'')
                 (kseq (set_file r (\<lambda>q. q\<lparr>f_type := FD_PIPE, f_readable := True, f_writable := False, f_pipe := p\<rparr>))
                 (kseq (set_file w (\<lambda>q. q\<lparr>f_type := FD_PIPE, f_readable := False, f_writable := True, f_pipe := p\<rparr>))
                       (kret (Some (r, w)))))))))"

text \<open>The 24 bytes of \<^verbatim>\<open>struct stat\<close>, four of them padding.\<close>

definition stat_bytes :: "stat \<Rightarrow> uchar list \<Rightarrow> uchar list" where
  "stat_bytes st pad =
     map (put64 (put16 (put16 (put32 (put32 (str_of (replicate 12 0 @ take 4 pad)) 0 (st_dev st)) 4 (st_ino st))
       8 (st_type st)) 10 (st_nlink st)) 16 (st_size st)) [0..<24]"

definition filestat :: "nat \<Rightarrow> uint64 \<Rightarrow> ('z files_scheme, int) kop" where
  "filestat f addr =
     kbind myproc (\<lambda>p.
     kbind (kget (\<lambda>s. ftable s f)) (\<lambda>q.
     if f_type q = FD_INODE \<or> f_type q = FD_DEVICE
     then kseq (ilock (f_ip q))
         (kbind (case f_ip q of None \<Rightarrow> kpanic ''kerneltrap'' | Some i \<Rightarrow> stati i) (\<lambda>st.
          kseq (iunlock (f_ip q))
         (case p of None \<Rightarrow> kpanic ''kerneltrap''
          | Some p \<Rightarrow>
              kbind (kget (\<lambda>s. (p_pagetable (ptab s p), junk s))) (\<lambda>(pt, pad).
              kbind (copyout pt addr (stat_bytes st pad)) (\<lambda>r.
              if r < 0 then kret (-1) else kret 0)))))
     else kret (-1)))"

text \<open>A call through \<open>devsw\<close>.\<close>

fun dev_call :: "devfn \<Rightarrow> bool \<Rightarrow> uint64 \<Rightarrow> int \<Rightarrow> ('z console_scheme, int) kop" where
  "dev_call CONSOLEREAD user addr n = consoleread user addr n"
| "dev_call CONSOLEWRITE user addr n = consolewrite user addr n"

definition dev_index :: "ushort \<Rightarrow> nat option" where
  "dev_index m = (if sint m < 0 \<or> int NDEV \<le> sint m then None else Some (unat m))"

definition fileread :: "nat \<Rightarrow> uint64 \<Rightarrow> int \<Rightarrow> ('z files_scheme, int) kop" where
  "fileread f addr n =
     kbind (kget (\<lambda>s. ftable s f)) (\<lambda>q.
     if \<not> f_readable q then kret (-1)
     else case f_type q of
       FD_PIPE \<Rightarrow> piperead (f_pipe q) addr n
     | FD_DEVICE \<Rightarrow>
         (case dev_index (f_major q) of None \<Rightarrow> kret (-1)
          | Some m \<Rightarrow>
              kbind (kget (\<lambda>s. dev_read (devsw s m))) (\<lambda>fn.
              case fn of None \<Rightarrow> kret (-1) | Some fn \<Rightarrow> dev_call fn True addr n))
     | FD_INODE \<Rightarrow>
         kseq (ilock (f_ip q))
        (case f_ip q of None \<Rightarrow> kpanic ''kerneltrap''
         | Some i \<Rightarrow>
             kbind (kget (\<lambda>s. f_off (ftable s f))) (\<lambda>off.
             kbind (readi i (DUser addr) off (word_of_int n)) (\<lambda>(r, _).
             kseq (kwhen (0 < r) (set_file f (\<lambda>q. q\<lparr>f_off := f_off q + word_of_int r\<rparr>)))
            (kseq (iunlock (f_ip q)) (kret r)))))
     | FD_NONE \<Rightarrow> kpanic ''fileread'')"

definition filewrite_max :: int where
  "filewrite_max = ((int MAXOPBLOCKS - 1 - 1 - 2) div 2) * int BSIZE"

text \<open>Each turn writes at least one byte or stops, so \<open>n + 1\<close> turns are enough.\<close>

fun filewrite_loop :: "nat \<Rightarrow> nat \<Rightarrow> uint64 \<Rightarrow> int \<Rightarrow> int \<Rightarrow> ('z files_scheme, int) kop" where
  "filewrite_loop 0 f addr i n = (\<lambda>_. Diverge)"
| "filewrite_loop (Suc k) f addr i n =
     (if i < n
      then let n1 = min (n - i) filewrite_max in
        kseq begin_op
       (kbind (kget (\<lambda>s. f_ip (ftable s f))) (\<lambda>fip.
        kseq (ilock fip)
       (case fip of None \<Rightarrow> kpanic ''kerneltrap''
        | Some ip \<Rightarrow>
            kbind (kget (\<lambda>s. f_off (ftable s f))) (\<lambda>off.
            kbind (writei ip (SUser (addr + word_of_int i)) off (word_of_int n1)) (\<lambda>r.
            kseq (kwhen (0 < r) (set_file f (\<lambda>q. q\<lparr>f_off := f_off q + word_of_int r\<rparr>)))
           (kseq (iunlock fip)
           (kseq end_op
                 (if r \<noteq> n1 then kret (if i = n then n else -1)
                  else filewrite_loop k f addr (i + r) n))))))))
      else kret (if i = n then n else -1))"

definition filewrite :: "nat \<Rightarrow> uint64 \<Rightarrow> int \<Rightarrow> ('z files_scheme, int) kop" where
  "filewrite f addr n =
     kbind (kget (\<lambda>s. ftable s f)) (\<lambda>q.
     if \<not> f_writable q then kret (-1)
     else case f_type q of
       FD_PIPE \<Rightarrow> pipewrite (f_pipe q) addr n
     | FD_DEVICE \<Rightarrow>
         (case dev_index (f_major q) of None \<Rightarrow> kret (-1)
          | Some m \<Rightarrow>
              kbind (kget (\<lambda>s. dev_write (devsw s m))) (\<lambda>fn.
              case fn of None \<Rightarrow> kret (-1) | Some fn \<Rightarrow> dev_call fn True addr n))
     | FD_INODE \<Rightarrow> filewrite_loop (nat n + 1) f addr 0 n
     | FD_NONE \<Rightarrow> kpanic ''filewrite'')"

end
