(* ===== verification/Procfs.thy ===== *)
theory Procfs
  imports File
begin

text \<open>
  The part of \<^verbatim>\<open>kernel/proc.c\<close> that uses files and user memory: \<open>userinit\<close>, \<open>kfork\<close>, \<open>kexit\<close> and
  \<open>kwait\<close>, and the trap frame of \<^verbatim>\<open>kernel/proc.h\<close>. The trap frame of a process is a page of physical
  memory; its fields are read and written at their offsets.
\<close>

section \<open>Trap frames\<close>

datatype tfield =
    Kernel_satp | Kernel_sp | Kernel_trap | Epc | Kernel_hartid
  | RA | SP | GP | TP | T0 | T1 | T2 | S0 | S1
  | A0 | A1 | A2 | A3 | A4 | A5 | A6 | A7
  | S2 | S3 | S4 | S5 | S6 | S7 | S8 | S9 | S10 | S11 | T3 | T4 | T5 | T6

fun tf_offset :: "tfield \<Rightarrow> uint64" where
  "tf_offset Kernel_satp = 0" | "tf_offset Kernel_sp = 8" | "tf_offset Kernel_trap = 16"
| "tf_offset Epc = 24" | "tf_offset Kernel_hartid = 32" | "tf_offset RA = 40" | "tf_offset SP = 48"
| "tf_offset GP = 56" | "tf_offset TP = 64" | "tf_offset T0 = 72" | "tf_offset T1 = 80"
| "tf_offset T2 = 88" | "tf_offset S0 = 96" | "tf_offset S1 = 104" | "tf_offset A0 = 112"
| "tf_offset A1 = 120" | "tf_offset A2 = 128" | "tf_offset A3 = 136" | "tf_offset A4 = 144"
| "tf_offset A5 = 152" | "tf_offset A6 = 160" | "tf_offset A7 = 168" | "tf_offset S2 = 176"
| "tf_offset S3 = 184" | "tf_offset S4 = 192" | "tf_offset S5 = 200" | "tf_offset S6 = 208"
| "tf_offset S7 = 216" | "tf_offset S8 = 224" | "tf_offset S9 = 232" | "tf_offset S10 = 240"
| "tf_offset S11 = 248" | "tf_offset T3 = 256" | "tf_offset T4 = 264" | "tf_offset T5 = 272"
| "tf_offset T6 = 280"

definition tf_size :: nat where "tf_size = 288"

definition tf_val :: "'z proctab_scheme \<Rightarrow> nat \<Rightarrow> tfield \<Rightarrow> uint64" where
  "tf_val s p r = read64 (pmem s) (p_trapframe (ptab s p) + tf_offset r)"

definition get_tf :: "nat \<Rightarrow> tfield \<Rightarrow> ('z proctab_scheme, uint64) kop" where
  "get_tf p r = kget (\<lambda>s. tf_val s p r)"

definition set_tf :: "nat \<Rightarrow> tfield \<Rightarrow> uint64 \<Rightarrow> ('z proctab_scheme, unit) kop" where
  "set_tf p r v = kmod (\<lambda>s. s\<lparr>pmem := write64 (pmem s) (p_trapframe (ptab s p) + tf_offset r) v\<rparr>)"

section \<open>Processes\<close>

definition userinit :: "('z files_scheme, unit) kop" where
  "userinit =
     kbind allocproc (\<lambda>p.
     kseq (kmod (\<lambda>s. s\<lparr>initproc := p\<rparr>))
    (kbind (namei [slash]) (\<lambda>ip.
     case p of None \<Rightarrow> kpanic ''kerneltrap''
     | Some p \<Rightarrow>
         kseq (set_proc p (\<lambda>q. q\<lparr>p_cwd := ip\<rparr>))
        (kseq (set_proc p (\<lambda>q. q\<lparr>p_state := RUNNABLE\<rparr>)) (release (ProcLock p))))))"

text \<open>Copying the open files of a parent.\<close>

definition dup_fd :: "nat \<Rightarrow> nat \<Rightarrow> nat \<Rightarrow> ('z files_scheme, unit) kop" where
  "dup_fd p np i =
     kbind (kget (\<lambda>s. p_ofile (ptab s p) i)) (\<lambda>f.
     case f of None \<Rightarrow> kret ()
     | Some f \<Rightarrow> kbind (filedup f) (\<lambda>f. set_proc np (\<lambda>q. q\<lparr>p_ofile := (p_ofile q)(i := Some f)\<rparr>)))"

definition kfork :: "('z files_scheme, int) kop" where
  "kfork =
     with_myproc (\<lambda>p.
     kbind allocproc (\<lambda>found.
     case found of None \<Rightarrow> kret (-1)
     | Some np \<Rightarrow>
         kbind (kget (\<lambda>s. (ptab s p, p_pagetable (ptab s np)))) (\<lambda>(q, npt).
         kbind (uvmcopy (p_pagetable q) npt (p_sz q)) (\<lambda>r.
         if r < 0 then kseq (freeproc np) (kseq (release (ProcLock np)) (kret (-1)))
         else kseq (set_proc np (\<lambda>n. n\<lparr>p_sz := p_sz q\<rparr>))
             (kseq (kmod (\<lambda>s. s\<lparr>pmem := poke (pmem s) (p_trapframe (ptab s np))
                                (peek (pmem s) (p_trapframe (ptab s p)) tf_size)\<rparr>))
             (kseq (set_tf np A0 0)
             (kseq (kfor [0..<NOFILE] (dup_fd p np))
             (kbind (kget (\<lambda>s. p_cwd (ptab s p))) (\<lambda>cwd.
              case cwd of None \<Rightarrow> kpanic ''kerneltrap''
              | Some cwd \<Rightarrow>
                  kbind (idup cwd) (\<lambda>cwd.
                  kseq (set_proc np (\<lambda>n. n\<lparr>p_cwd := Some cwd\<rparr>))
                 (kseq (set_proc np (\<lambda>n. n\<lparr>p_name := safestrcpy (p_name n) (p_name q) 16\<rparr>))
                 (kseq (set_proc np (\<lambda>n. n\<lparr>p_mask := p_mask q\<rparr>))
                 (kseq (set_proc np (\<lambda>n. n\<lparr>p_allowed_path := safestrcpy (p_allowed_path n) (p_allowed_path q) (int MAXPATH)\<rparr>))
                 (kbind (kget (\<lambda>s. p_pid (ptab s np))) (\<lambda>pid.
                  kseq (release (ProcLock np))
                 (kseq (acquire WaitLock)
                 (kseq (set_proc np (\<lambda>n. n\<lparr>p_parent := Some p\<rparr>))
                 (kseq (release WaitLock)
                 (kseq (acquire (ProcLock np))
                 (kseq (set_proc np (\<lambda>n. n\<lparr>p_state := RUNNABLE\<rparr>))
                 (kseq (release (ProcLock np)) (kret pid))))))))))))))))))))))"

definition close_fd :: "nat \<Rightarrow> nat \<Rightarrow> ('z files_scheme, unit) kop" where
  "close_fd p fd =
     kbind (kget (\<lambda>s. p_ofile (ptab s p) fd)) (\<lambda>f.
     case f of None \<Rightarrow> kret ()
     | Some f \<Rightarrow> kseq (fileclose f) (set_proc p (\<lambda>q. q\<lparr>p_ofile := (p_ofile q)(fd := None)\<rparr>)))"

text \<open>\<open>kexit\<close> never returns: it ends in the scheduler.\<close>

definition kexit :: "int \<Rightarrow> ('z files_scheme, unit) kop" where
  "kexit status =
     kbind myproc (\<lambda>me.
     kbind (kget initproc) (\<lambda>ini.
     if me = ini then kpanic ''init exiting''
     else case me of None \<Rightarrow> kpanic ''kerneltrap''
     | Some p \<Rightarrow>
         kseq (kfor [0..<NOFILE] (close_fd p))
        (kseq begin_op
        (kbind (kget (\<lambda>s. p_cwd (ptab s p))) (\<lambda>cwd.
         kseq (iput_opt cwd)
        (kseq end_op
        (kseq (set_proc p (\<lambda>q. q\<lparr>p_cwd := None\<rparr>))
        (kseq (acquire WaitLock)
        (kseq (reparent p)
        (kbind (kget (\<lambda>s. p_parent (ptab s p))) (\<lambda>par.
         kseq (wakeup_proc par)
        (kseq (acquire (ProcLock p))
        (kseq (set_proc p (\<lambda>q. q\<lparr>p_xstate := status\<rparr>))
        (kseq (set_proc p (\<lambda>q. q\<lparr>p_state := ZOMBIE\<rparr>))
        (kseq (release WaitLock)
        (kseq sched (kpanic ''zombie exit'')))))))))))))))))"

definition int32_bytes :: "int \<Rightarrow> uchar list" where
  "int32_bytes n = map (put32 (\<lambda>_. 0) 0 (word_of_int n)) [0..<4]"

text \<open>The scan of \<open>kwait\<close>: \<open>Inl r\<close> returns \<open>r\<close>, with the locks released; \<open>Inr\<close> tells if there are children.\<close>

fun kwait_scan :: "nat list \<Rightarrow> nat \<Rightarrow> uint64 \<Rightarrow> bool \<Rightarrow> ('z proctab_scheme, int + bool) kop" where
  "kwait_scan [] p addr havekids = kret (Inr havekids)"
| "kwait_scan (pp # pps) p addr havekids =
     kbind (kget (\<lambda>s. p_parent (ptab s pp))) (\<lambda>par.
     if par \<noteq> Some p then kwait_scan pps p addr havekids
     else kseq (acquire (ProcLock pp))
         (kbind (kget (\<lambda>s. ptab s pp)) (\<lambda>c.
          if p_state c = ZOMBIE
          then kbind (if addr \<noteq> 0
                      then kbind (kget (\<lambda>s. p_pagetable (ptab s p))) (\<lambda>pt. copyout pt addr (int32_bytes (p_xstate c)))
                      else kret 0) (\<lambda>r.
               if r < 0 then kseq (release (ProcLock pp)) (kseq (release WaitLock) (kret (Inl (-1))))
               else kseq (freeproc pp)
                   (kseq (release (ProcLock pp)) (kseq (release WaitLock) (kret (Inl (p_pid c))))))
          else kseq (release (ProcLock pp)) (kwait_scan pps p addr True))))"

definition kwait_loop :: "nat \<Rightarrow> uint64 \<Rightarrow> ('z proctab_scheme, int) kop" where
  "kwait_loop p addr =
     kbind (kwait_scan [0..<NPROC] p addr False) (\<lambda>res.
     case res of Inl r \<Rightarrow> kret r
     | Inr havekids \<Rightarrow>
         kbind (if \<not> havekids then kret True else kbind (killed p) (\<lambda>k. kret (k \<noteq> 0))) (\<lambda>stop.
         if stop then kseq (release WaitLock) (kret (-1))
         else kseq (sleep (ProcChan p) WaitLock) (kret 0)))"

definition kwait :: "uint64 \<Rightarrow> ('z proctab_scheme, int) kop" where
  "kwait addr = with_myproc (\<lambda>p. kseq (acquire WaitLock) (kwait_loop p addr))"

definition kwait_resume :: "uint64 \<Rightarrow> bool \<Rightarrow> ('z proctab_scheme, int) kop" where
  "kwait_resume addr ena = with_myproc (\<lambda>p. kseq (sleep_resume WaitLock ena) (kwait_loop p addr))"

end
