(* ===== verification/Sysargs.thy ===== *)
theory Sysargs
  imports Procfs
begin

text \<open>
  The first half of \<^verbatim>\<open>kernel/syscall.c\<close>: fetching the arguments of a system call from the trap frame
  and from user memory. A string argument is returned as the result of \<open>fetchstr\<close> with the bytes
  copied in; \<open>text_of\<close> is the string they hold.
\<close>

definition text_of :: "uchar list \<Rightarrow> uchar list" where
  "text_of bs = takeWhile (\<lambda>c. c \<noteq> 0) bs"

definition fetchaddr :: "uint64 \<Rightarrow> ('z proctab_scheme, int \<times> uint64) kop" where
  "fetchaddr addr =
     with_myproc (\<lambda>p.
     kbind (kget (\<lambda>s. ptab s p)) (\<lambda>q.
     if p_sz q \<le> addr \<or> p_sz q < addr + 8 then kret (-1, 0)
     else kbind (copyin (p_pagetable q) addr 8) (\<lambda>(r, bs).
          if r \<noteq> 0 then kret (-1, 0) else kret (0, get64 (str_of bs) 0))))"

definition fetchstr :: "uint64 \<Rightarrow> nat \<Rightarrow> ('z proctab_scheme, int \<times> uchar list) kop" where
  "fetchstr addr mx =
     with_myproc (\<lambda>p.
     kbind (kget (\<lambda>s. p_pagetable (ptab s p))) (\<lambda>pt.
     kbind (copyinstr pt addr mx) (\<lambda>(r, bs).
     if r < 0 then kret (-1, bs) else kret (int (length (text_of bs)), bs))))"

definition argraw :: "nat \<Rightarrow> ('z proctab_scheme, uint64) kop" where
  "argraw n =
     with_myproc (\<lambda>p.
     if n = 0 then get_tf p A0 else if n = 1 then get_tf p A1 else if n = 2 then get_tf p A2
     else if n = 3 then get_tf p A3 else if n = 4 then get_tf p A4 else if n = 5 then get_tf p A5
     else kpanic ''argraw'')"

definition argint :: "nat \<Rightarrow> ('z proctab_scheme, int) kop" where
  "argint n = kbind (argraw n) (\<lambda>x. kret (sint (ucast x :: uint)))"

definition argaddr :: "nat \<Rightarrow> ('z proctab_scheme, uint64) kop" where
  "argaddr n = argraw n"

definition argstr :: "nat \<Rightarrow> nat \<Rightarrow> ('z proctab_scheme, int \<times> uchar list) kop" where
  "argstr n mx = kbind (argaddr n) (\<lambda>addr. fetchstr addr mx)"

end
