(* ===== verification/Exec.thy ===== *)
theory Exec
  imports Sysargs
begin

text \<open>
  \<^verbatim>\<open>kernel/exec.c\<close>: loading a program from an ELF file into a new page table, with its stack and its
  arguments. The path and the arguments are strings without the final NUL.
\<close>

section \<open>ELF headers\<close>

definition ELF_MAGIC :: uint where "ELF_MAGIC = 0x464C457F"
definition ELF_PROG_LOAD :: uint where "ELF_PROG_LOAD = 1"

record elfhdr =
  e_magic :: uint
  e_elf :: "uchar list"
  e_type :: ushort
  e_machine :: ushort
  e_version :: uint
  e_entry :: uint64
  e_phoff :: uint64
  e_shoff :: uint64
  e_flags :: uint
  e_ehsize :: ushort
  e_phentsize :: ushort
  e_phnum :: ushort
  e_shentsize :: ushort
  e_shnum :: ushort
  e_shstrndx :: ushort

definition get_elfhdr :: "uchar list \<Rightarrow> elfhdr" where
  "get_elfhdr bs = (let d = str_of bs in
     \<lparr>e_magic = get32 d 0, e_elf = map d [4..<16], e_type = get16 d 16, e_machine = get16 d 18,
      e_version = get32 d 20, e_entry = get64 d 24, e_phoff = get64 d 32, e_shoff = get64 d 40,
      e_flags = get32 d 48, e_ehsize = get16 d 52, e_phentsize = get16 d 54, e_phnum = get16 d 56,
      e_shentsize = get16 d 58, e_shnum = get16 d 60, e_shstrndx = get16 d 62\<rparr>)"

record proghdr =
  ph_type :: uint
  ph_flags :: uint
  ph_off :: uint64
  ph_vaddr :: uint64
  ph_paddr :: uint64
  ph_filesz :: uint64
  ph_memsz :: uint64
  ph_align :: uint64

definition get_proghdr :: "uchar list \<Rightarrow> proghdr" where
  "get_proghdr bs = (let d = str_of bs in
     \<lparr>ph_type = get32 d 0, ph_flags = get32 d 4, ph_off = get64 d 8, ph_vaddr = get64 d 16,
      ph_paddr = get64 d 24, ph_filesz = get64 d 32, ph_memsz = get64 d 40, ph_align = get64 d 48\<rparr>)"

section \<open>Operations\<close>

definition flags2perm :: "uint \<Rightarrow> uint64" where
  "flags2perm flags =
     (let perm = (if flags AND 1 \<noteq> 0 then PTE_X else 0)
      in if flags AND 2 \<noteq> 0 then perm OR PTE_W else perm)"

text \<open>The loop of \<open>loadseg\<close> has a turn per page; it runs out of fuel only if \<open>i\<close> wraps around.\<close>

fun loadseg_loop :: "nat \<Rightarrow> uint64 \<Rightarrow> uint64 \<Rightarrow> nat \<Rightarrow> uint \<Rightarrow> uint \<Rightarrow> uint \<Rightarrow> ('z fsys_scheme, int) kop" where
  "loadseg_loop 0 pt va ip offset sz i = (\<lambda>_. Diverge)"
| "loadseg_loop (Suc k) pt va ip offset sz i =
     (if i < sz
      then kbind (walkaddr pt (va + ucast i)) (\<lambda>pa.
           if pa = 0 then kpanic ''loadseg: address should exist''
           else let n = (if sz - i < ucast PGSIZE then sz - i else ucast PGSIZE) in
             kbind (readi ip (DMem pa) (offset + i) n) (\<lambda>(r, _).
             if word_of_int r \<noteq> n then kret (-1)
             else loadseg_loop k pt va ip offset sz (i + ucast PGSIZE)))
      else kret 0)"

definition loadseg :: "uint64 \<Rightarrow> uint64 \<Rightarrow> nat \<Rightarrow> uint \<Rightarrow> uint \<Rightarrow> ('z fsys_scheme, int) kop" where
  "loadseg pt va ip offset sz = loadseg_loop (unat sz div 4096 + 2) pt va ip offset sz 0"

text \<open>The loop over the program headers returns whether it succeeded, and the size so far.\<close>

fun load_segments :: "nat \<Rightarrow> uint64 \<Rightarrow> nat \<Rightarrow> uint \<Rightarrow> uint64 \<Rightarrow> ('z fsys_scheme, bool \<times> uint64) kop" where
  "load_segments 0 pt ip off sz = kret (True, sz)"
| "load_segments (Suc k) pt ip off sz =
     kbind (readi ip DBuf off 56) (\<lambda>(r, bs).
     if r \<noteq> 56 then kret (False, sz)
     else let ph = get_proghdr bs in
       if ph_type ph \<noteq> ELF_PROG_LOAD then load_segments k pt ip (off + 56) sz
       else if ph_memsz ph < ph_filesz ph then kret (False, sz)
       else if ph_vaddr ph + ph_memsz ph < ph_vaddr ph then kret (False, sz)
       else if ph_vaddr ph mod PGSIZE \<noteq> 0 then kret (False, sz)
       else kbind (uvmalloc pt sz (ph_vaddr ph + ph_memsz ph) (flags2perm (ph_flags ph))) (\<lambda>sz1.
            if sz1 = 0 then kret (False, sz)
            else kbind (loadseg pt (ph_vaddr ph) ip (ucast (ph_off ph)) (ucast (ph_filesz ph))) (\<lambda>r.
                 if r < 0 then kret (False, sz1) else load_segments k pt ip (off + 56) sz1)))"

definition kexec_bad :: "uint64 \<Rightarrow> uint64 \<Rightarrow> nat option \<Rightarrow> ('z fsys_scheme, int) kop" where
  "kexec_bad pt sz ip =
     kseq (kwhen (pt \<noteq> 0) (proc_freepagetable pt sz))
    (case ip of None \<Rightarrow> kret (-1)
     | Some i \<Rightarrow> kseq (iunlockput i) (kseq end_op (kret (-1))))"

text \<open>Copying the argument strings: the stack pointer and the addresses, or \<open>None\<close> for an error.\<close>

fun push_args :: "uint64 \<Rightarrow> uint64 \<Rightarrow> nat \<Rightarrow> uint64 \<Rightarrow> uint64 list \<Rightarrow> uchar list list
    \<Rightarrow> ('z proctab_scheme, (uint64 \<times> uint64 list) option) kop" where
  "push_args pt stackbase argc sp ustack [] = kret (Some (sp, ustack))"
| "push_args pt stackbase argc sp ustack (a # argv) =
     (if MAXARG \<le> argc then kret None
      else let sp = sp - (of_nat (length a) + 1); sp = sp - sp mod 16 in
        if sp < stackbase then kret None
        else kbind (copyout pt sp (a @ [0])) (\<lambda>r.
             if r < 0 then kret None
             else push_args pt stackbase (argc + 1) sp (ustack @ [sp]) argv))"

definition word_bytes :: "uint64 \<Rightarrow> uchar list" where
  "word_bytes w = map (put64 (\<lambda>_. 0) 0 w) [0..<8]"

fun last_elem :: "uchar list \<Rightarrow> uchar list \<Rightarrow> uchar list" where
  "last_elem lst [] = lst"
| "last_elem lst (c # s) = last_elem (if c = slash then s else lst) s"

text \<open>The second half of \<open>kexec\<close>, once the file is loaded and put.\<close>

definition kexec_commit :: "nat \<Rightarrow> uchar list \<Rightarrow> elfhdr \<Rightarrow> uint64 \<Rightarrow> uint64 \<Rightarrow> uint64 \<Rightarrow> uint64 \<Rightarrow> nat
    \<Rightarrow> ('z proctab_scheme, int) kop" where
  "kexec_commit p path elf pt sz oldsz sp argc =
     kseq (set_tf p A1 sp)
    (kseq (set_proc p (\<lambda>q. q\<lparr>p_name := safestrcpy (p_name q) (str_of (last_elem path path)) 16\<rparr>))
    (kbind (kget (\<lambda>s. p_pagetable (ptab s p))) (\<lambda>oldpt.
     kseq (set_proc p (\<lambda>q. q\<lparr>p_pagetable := pt\<rparr>))
    (kseq (set_proc p (\<lambda>q. q\<lparr>p_sz := sz\<rparr>))
    (kseq (set_tf p Epc (e_entry elf))
    (kseq (set_tf p SP sp)
    (kseq (proc_freepagetable oldpt oldsz) (kret (int argc)))))))))"

definition kexec_stack :: "uchar list \<Rightarrow> uchar list list \<Rightarrow> elfhdr \<Rightarrow> uint64 \<Rightarrow> uint64 \<Rightarrow> ('z fsys_scheme, int) kop" where
  "kexec_stack path argv elf pt sz =
     with_myproc (\<lambda>p.
     kbind (kget (\<lambda>s. p_sz (ptab s p))) (\<lambda>oldsz.
     let sz = PGROUNDUP sz in
     kbind (uvmalloc pt sz (sz + (USERSTACK + 1) * PGSIZE) PTE_W) (\<lambda>sz1.
     if sz1 = 0 then kexec_bad pt sz None
     else kseq (uvmclear pt (sz1 - (USERSTACK + 1) * PGSIZE))
         (let stackbase = sz1 - USERSTACK * PGSIZE in
          kbind (push_args pt stackbase 0 sz1 [] argv) (\<lambda>res.
          case res of None \<Rightarrow> kexec_bad pt sz1 None
          | Some (sp, ustack) \<Rightarrow>
              let argc = length ustack;
                  sp = sp - (of_nat argc + 1) * 8;
                  sp = sp - sp mod 16 in
              if sp < stackbase then kexec_bad pt sz1 None
              else kbind (copyout pt sp (concat (map word_bytes (ustack @ [0])))) (\<lambda>r.
                   if r < 0 then kexec_bad pt sz1 None
                   else kexec_commit p path elf pt sz1 oldsz sp argc))))))"

definition kexec :: "uchar list \<Rightarrow> uchar list list \<Rightarrow> ('z fsys_scheme, int) kop" where
  "kexec path argv =
     kbind myproc (\<lambda>me.
     kseq begin_op
    (kbind (namei path) (\<lambda>ip.
     case ip of None \<Rightarrow> kseq end_op (kret (-1))
     | Some i \<Rightarrow>
         kseq (ilock (Some i))
        (kbind (readi i DBuf 0 64) (\<lambda>(r, bs).
         if r \<noteq> 64 then kexec_bad 0 0 (Some i)
         else let elf = get_elfhdr bs in
           if e_magic elf \<noteq> ELF_MAGIC then kexec_bad 0 0 (Some i)
           else case me of None \<Rightarrow> kpanic ''kerneltrap''
           | Some p \<Rightarrow>
               kbind (proc_pagetable p) (\<lambda>pt.
               if pt = 0 then kexec_bad 0 0 (Some i)
               else kbind (load_segments (unat (e_phnum elf)) pt i (ucast (e_phoff elf)) 0) (\<lambda>(ok, sz).
                    if \<not> ok then kexec_bad pt sz (Some i)
                    else kseq (iunlockput i) (kseq end_op (kexec_stack path argv elf pt sz)))))))))"

end
