(* ===== verification/Sysfile.thy ===== *)
theory Sysfile
  imports Exec
begin

text \<open>
  \<^verbatim>\<open>kernel/sysfile.c\<close>: the system calls on files. Each returns the 64-bit value that goes to the
  caller's \<^verbatim>\<open>a0\<close>; \<open>fail\<close> is -1.
\<close>

definition O_RDONLY :: int where "O_RDONLY = 0"
definition O_WRONLY :: int where "O_WRONLY = 1"
definition O_RDWR :: int where "O_RDWR = 2"
definition O_CREATE :: int where "O_CREATE = 0x200"
definition O_TRUNC :: int where "O_TRUNC = 0x400"

abbreviation fail :: "('s, uint64) kop" where
  "fail \<equiv> kret (-1)"

section \<open>Descriptors\<close>

definition argfd :: "nat \<Rightarrow> ('z proctab_scheme, (nat \<times> nat) option) kop" where
  "argfd n =
     kbind (argint n) (\<lambda>fd.
     if fd < 0 \<or> int NOFILE \<le> fd then kret None
     else with_myproc (\<lambda>p. kget (\<lambda>s. map_option (\<lambda>f. (nat fd, f)) (p_ofile (ptab s p) (nat fd)))))"

definition set_ofile :: "nat \<Rightarrow> nat \<Rightarrow> nat option \<Rightarrow> ('z proctab_scheme, unit) kop" where
  "set_ofile p fd f = set_proc p (\<lambda>q. q\<lparr>p_ofile := (p_ofile q)(fd := f)\<rparr>)"

definition fdalloc :: "nat \<Rightarrow> ('z proctab_scheme, int) kop" where
  "fdalloc f =
     with_myproc (\<lambda>p.
     kbind (kget (\<lambda>s. List.find (\<lambda>fd. p_ofile (ptab s p) fd = None) [0..<NOFILE])) (\<lambda>found.
     case found of None \<Rightarrow> kret (-1)
     | Some fd \<Rightarrow> kseq (set_ofile p fd (Some f)) (kret (int fd))))"

definition sys_dup :: "('z files_scheme, uint64) kop" where
  "sys_dup =
     kbind (argfd 0) (\<lambda>a.
     case a of None \<Rightarrow> fail
     | Some (_, f) \<Rightarrow>
         kbind (fdalloc f) (\<lambda>fd.
         if fd < 0 then fail else kseq (filedup f) (kret (word_of_int fd))))"

definition sys_read :: "('z files_scheme, uint64) kop" where
  "sys_read =
     kbind (argaddr 1) (\<lambda>p.
     kbind (argint 2) (\<lambda>n.
     kbind (argfd 0) (\<lambda>a.
     case a of None \<Rightarrow> fail
     | Some (_, f) \<Rightarrow> kbind (fileread f p n) (\<lambda>r. kret (word_of_int r)))))"

definition sys_write :: "('z files_scheme, uint64) kop" where
  "sys_write =
     kbind (argaddr 1) (\<lambda>p.
     kbind (argint 2) (\<lambda>n.
     kbind (argfd 0) (\<lambda>a.
     case a of None \<Rightarrow> fail
     | Some (_, f) \<Rightarrow> kbind (filewrite f p n) (\<lambda>r. kret (word_of_int r)))))"

definition sys_close :: "('z files_scheme, uint64) kop" where
  "sys_close =
     kbind (argfd 0) (\<lambda>a.
     case a of None \<Rightarrow> fail
     | Some (fd, f) \<Rightarrow> kseq (with_myproc (\<lambda>p. set_ofile p fd None)) (kseq (fileclose f) (kret 0)))"

definition sys_fstat :: "('z files_scheme, uint64) kop" where
  "sys_fstat =
     kbind (argaddr 1) (\<lambda>st.
     kbind (argfd 0) (\<lambda>a.
     case a of None \<Rightarrow> fail
     | Some (_, f) \<Rightarrow> kbind (filestat f st) (\<lambda>r. kret (word_of_int r))))"

section \<open>Links\<close>

definition bump_nlink :: "nat \<Rightarrow> ushort \<Rightarrow> ('z fsys_scheme, unit) kop" where
  "bump_nlink i d = kseq (set_d i (\<lambda>q. q\<lparr>di_nlink := di_nlink q + d\<rparr>)) (iupdate i)"

definition sys_link_bad :: "nat \<Rightarrow> ('z fsys_scheme, uint64) kop" where
  "sys_link_bad i =
     kseq (ilock (Some i))
    (kseq (bump_nlink i (-1)) (kseq (iunlockput i) (kseq end_op fail)))"

definition sys_link :: "('z fsys_scheme, uint64) kop" where
  "sys_link =
     kbind (argstr 0 MAXPATH) (\<lambda>(r0, old).
     if r0 < 0 then fail
     else kbind (argstr 1 MAXPATH) (\<lambda>(r1, new).
     if r1 < 0 then fail
     else kseq begin_op
         (kbind (namei (text_of old)) (\<lambda>ip.
          case ip of None \<Rightarrow> kseq end_op fail
          | Some i \<Rightarrow>
              kseq (ilock (Some i))
             (kbind (kget (\<lambda>s. di_type (i_d (itable s i)))) (\<lambda>ty.
              if ty = T_DIR then kseq (iunlockput i) (kseq end_op fail)
              else kseq (bump_nlink i 1)
                  (kseq (iunlock (Some i))
                  (kbind (nameiparent (text_of new)) (\<lambda>par.
                   case par of None \<Rightarrow> sys_link_bad i
                   | Some (dp, name) \<Rightarrow>
                       kseq (ilock (Some dp))
                      (kbind (kget (\<lambda>s. (i_dev (itable s dp), i_dev (itable s i), i_inum (itable s i)))) (\<lambda>(ddev, dev, inum).
                       kbind (if ddev \<noteq> dev then kret (-1) else dirlink dp name inum) (\<lambda>r.
                       if r < 0 then kseq (iunlockput dp) (sys_link_bad i)
                       else kseq (iunlockput dp)
                           (kseq (iput i)
                           (kseq end_op (kret 0)))))))))))))))"

fun isdirempty_loop :: "nat list \<Rightarrow> nat \<Rightarrow> ('z fsys_scheme, bool) kop" where
  "isdirempty_loop [] dp = kret True"
| "isdirempty_loop (off # offs) dp =
     kbind (readi dp DBuf (of_nat off) 16) (\<lambda>(r, de).
     if r \<noteq> 16 then kpanic ''isdirempty: readi''
     else if de_inum de \<noteq> 0 then kret False
     else isdirempty_loop offs dp)"

definition isdirempty :: "nat \<Rightarrow> ('z fsys_scheme, bool) kop" where
  "isdirempty dp =
     kbind (kget (\<lambda>s. unat (di_size (i_d (itable s dp))))) (\<lambda>sz.
     isdirempty_loop (filter (\<lambda>o'. 2 * 16 \<le> o') (dir_offsets sz)) dp)"

definition sys_unlink_bad :: "nat \<Rightarrow> ('z fsys_scheme, uint64) kop" where
  "sys_unlink_bad dp = kseq (iunlockput dp) (kseq end_op fail)"

definition sys_unlink :: "('z fsys_scheme, uint64) kop" where
  "sys_unlink =
     kbind (argstr 0 MAXPATH) (\<lambda>(r0, path).
     if r0 < 0 then fail
     else kseq begin_op
         (kbind (nameiparent (text_of path)) (\<lambda>par.
          case par of None \<Rightarrow> kseq end_op fail
          | Some (dp, name) \<Rightarrow>
              kseq (ilock (Some dp))
             (if namecmp (str_of name) (str_of (ascii ''.'')) = 0 \<or> namecmp (str_of name) (str_of (ascii ''..'')) = 0
              then sys_unlink_bad dp
              else kbind (dirlookup dp name) (\<lambda>found.
              case found of None \<Rightarrow> sys_unlink_bad dp
              | Some (i, off) \<Rightarrow>
                  kseq (ilock (Some i))
                 (kbind (kget (\<lambda>s. i_d (itable s i))) (\<lambda>q.
                  if sint (di_nlink q) < 1 then kpanic ''unlink: nlink < 1''
                  else kbind (if di_type q = T_DIR then isdirempty i else kret True) (\<lambda>emp.
                  if \<not> emp then kseq (iunlockput i) (sys_unlink_bad dp)
                  else kbind (writei dp (SBuf (replicate 16 0)) (of_nat off) 16) (\<lambda>r.
                       if r \<noteq> 16 then kpanic ''unlink: writei''
                       else kseq (kwhen (di_type q = T_DIR) (bump_nlink dp (-1)))
                           (kseq (iunlockput dp)
                           (kseq (bump_nlink i (-1))
                           (kseq (iunlockput i)
                           (kseq end_op (kret 0))))))))))))))"

section \<open>Creating and opening\<close>

definition create_fail :: "nat \<Rightarrow> nat \<Rightarrow> ('z fsys_scheme, nat option) kop" where
  "create_fail dp i =
     kseq (set_d i (\<lambda>q. q\<lparr>di_nlink := 0\<rparr>))
    (kseq (iupdate i)
    (kseq (iunlockput i)
    (kseq (iunlockput dp) (kret None))))"

definition create :: "uchar list \<Rightarrow> ushort \<Rightarrow> ushort \<Rightarrow> ushort \<Rightarrow> ('z fsys_scheme, nat option) kop" where
  "create path ty major minor =
     kbind (nameiparent path) (\<lambda>par.
     case par of None \<Rightarrow> kret None
     | Some (dp, name) \<Rightarrow>
         kseq (ilock (Some dp))
        (kbind (dirlookup dp name) (\<lambda>found.
         case found of
           Some (i, _) \<Rightarrow>
             kseq (iunlockput dp)
            (kseq (ilock (Some i))
            (kbind (kget (\<lambda>s. di_type (i_d (itable s i)))) (\<lambda>ity.
             if ty = T_FILE \<and> (ity = T_FILE \<or> ity = T_DEVICE) then kret (Some i)
             else kseq (iunlockput i) (kret None))))
         | None \<Rightarrow>
             kbind (kget (\<lambda>s. i_dev (itable s dp))) (\<lambda>dev.
             kbind (ialloc dev ty) (\<lambda>al.
             case al of None \<Rightarrow> kseq (iunlockput dp) (kret None)
             | Some i \<Rightarrow>
                 kseq (ilock (Some i))
                (kseq (set_d i (\<lambda>q. q\<lparr>di_major := major, di_minor := minor, di_nlink := 1\<rparr>))
                (kseq (iupdate i)
                (kbind (kget (\<lambda>s. (i_inum (itable s i), i_inum (itable s dp)))) (\<lambda>(inum, dinum).
                 kbind (if ty = T_DIR
                        then kbind (dirlink i (ascii ''.'') inum) (\<lambda>r.
                             if r < 0 then kret (-1) else dirlink i (ascii ''..'') dinum)
                        else kret 0) (\<lambda>r.
                 if r < 0 then create_fail dp i
                 else kbind (dirlink dp name inum) (\<lambda>r.
                 if r < 0 then create_fail dp i
                 else kseq (kwhen (ty = T_DIR) (bump_nlink dp 1))
                     (kseq (iunlockput dp) (kret (Some i))))))))))))))"

text \<open>The first half of \<open>sys_open\<close>: the locked inode, or \<open>None\<close> after an error.\<close>

definition open_inode :: "uchar list \<Rightarrow> int \<Rightarrow> ('z fsys_scheme, nat option) kop" where
  "open_inode path omode =
     (if omode AND O_CREATE \<noteq> 0
      then kbind (create path T_FILE 0 0) (\<lambda>ip.
           case ip of None \<Rightarrow> kseq end_op (kret None) | Some i \<Rightarrow> kret (Some i))
      else kbind (namei path) (\<lambda>ip.
           case ip of None \<Rightarrow> kseq end_op (kret None)
           | Some i \<Rightarrow>
               kseq (ilock (Some i))
              (kbind (kget (\<lambda>s. di_type (i_d (itable s i)))) (\<lambda>ty.
               if ty = T_DIR \<and> omode \<noteq> O_RDONLY
               then kseq (iunlockput i) (kseq end_op (kret None))
               else kret (Some i)))))"

definition open_file :: "nat \<Rightarrow> nat \<Rightarrow> int \<Rightarrow> int \<Rightarrow> ('z files_scheme, uint64) kop" where
  "open_file i f fd omode =
     kbind (kget (\<lambda>s. i_d (itable s i))) (\<lambda>q.
     kseq (if di_type q = T_DEVICE
           then set_file f (\<lambda>x. x\<lparr>f_type := FD_DEVICE, f_major := di_major q\<rparr>)
           else set_file f (\<lambda>x. x\<lparr>f_type := FD_INODE, f_off := 0\<rparr>))
    (kseq (set_file f (\<lambda>x. x\<lparr>f_ip := Some i, f_readable := (omode AND O_WRONLY = 0),
                              f_writable := (omode AND O_WRONLY \<noteq> 0 \<or> omode AND O_RDWR \<noteq> 0)\<rparr>))
    (kseq (kwhen (omode AND O_TRUNC \<noteq> 0 \<and> di_type q = T_FILE) (itrunc i))
    (kseq (iunlock (Some i))
    (kseq end_op (kret (word_of_int fd)))))))"

definition sys_open :: "('z files_scheme, uint64) kop" where
  "sys_open =
     kbind (argint 1) (\<lambda>omode.
     kbind (argstr 0 MAXPATH) (\<lambda>(n, path).
     if n < 0 then fail
     else kseq begin_op
         (kbind (open_inode (text_of path) omode) (\<lambda>ip.
          case ip of None \<Rightarrow> fail
          | Some i \<Rightarrow>
              kbind (kget (\<lambda>s. i_d (itable s i))) (\<lambda>q.
              if di_type q = T_DEVICE \<and> dev_index (di_major q) = None
              then kseq (iunlockput i) (kseq end_op fail)
              else kbind filealloc (\<lambda>f.
                   case f of None \<Rightarrow> kseq (iunlockput i) (kseq end_op fail)
                   | Some f \<Rightarrow>
                       kbind (fdalloc f) (\<lambda>fd.
                       if fd < 0 then kseq (fileclose f) (kseq (iunlockput i) (kseq end_op fail))
                       else open_file i f fd omode)))))))"

definition sys_mkdir :: "('z fsys_scheme, uint64) kop" where
  "sys_mkdir =
     kseq begin_op
    (kbind (argstr 0 MAXPATH) (\<lambda>(n, path).
     kbind (if n < 0 then kret None else create (text_of path) T_DIR 0 0) (\<lambda>ip.
     case ip of None \<Rightarrow> kseq end_op fail
     | Some i \<Rightarrow> kseq (iunlockput i) (kseq end_op (kret 0)))))"

definition sys_mknod :: "('z fsys_scheme, uint64) kop" where
  "sys_mknod =
     kseq begin_op
    (kbind (argint 1) (\<lambda>major.
     kbind (argint 2) (\<lambda>minor.
     kbind (argstr 0 MAXPATH) (\<lambda>(n, path).
     kbind (if n < 0 then kret None
            else create (text_of path) T_DEVICE (word_of_int major) (word_of_int minor)) (\<lambda>ip.
     case ip of None \<Rightarrow> kseq end_op fail
     | Some i \<Rightarrow> kseq (iunlockput i) (kseq end_op (kret 0)))))))"

definition sys_chdir :: "('z files_scheme, uint64) kop" where
  "sys_chdir =
     with_myproc (\<lambda>p.
     kseq begin_op
    (kbind (argstr 0 MAXPATH) (\<lambda>(n, path).
     kbind (if n < 0 then kret None else namei (text_of path)) (\<lambda>ip.
     case ip of None \<Rightarrow> kseq end_op fail
     | Some i \<Rightarrow>
         kseq (ilock (Some i))
        (kbind (kget (\<lambda>s. di_type (i_d (itable s i)))) (\<lambda>ty.
         if ty \<noteq> T_DIR then kseq (iunlockput i) (kseq end_op fail)
         else kseq (iunlock (Some i))
             (kbind (kget (\<lambda>s. p_cwd (ptab s p))) (\<lambda>cwd.
              kseq (iput_opt cwd)
             (kseq end_op
             (kseq (set_proc p (\<lambda>q. q\<lparr>p_cwd := Some i\<rparr>)) (kret 0)))))))))))"

section \<open>Programs and pipes\<close>

text \<open>
  Fetching the arguments of \<open>sys_exec\<close>: the pages allocated, and whether it succeeded. There are
  at most \<^verbatim>\<open>MAXARG\<close> turns.
\<close>

fun fetch_args :: "nat \<Rightarrow> nat \<Rightarrow> uint64 \<Rightarrow> uint64 list \<Rightarrow> ('z proctab_scheme, bool \<times> uint64 list) kop" where
  "fetch_args 0 i uargv pages = kret (False, pages)"
| "fetch_args (Suc k) i uargv pages =
     kbind (fetchaddr (uargv + 8 * of_nat i)) (\<lambda>(r, uarg).
     if r < 0 then kret (False, pages)
     else if uarg = 0 then kret (True, pages)
     else kbind kalloc (\<lambda>pa.
          if pa = 0 then kret (False, pages)
          else kbind (fetchstr uarg (unat PGSIZE)) (\<lambda>(r, bs).
               kseq (kmod (\<lambda>s. s\<lparr>pmem := poke (pmem s) pa bs\<rparr>))
              (if r < 0 then kret (False, pages @ [pa])
               else fetch_args k (i + 1) uargv (pages @ [pa])))))"

definition sys_exec :: "('z files_scheme, uint64) kop" where
  "sys_exec =
     kbind (argaddr 1) (\<lambda>uargv.
     kbind (argstr 0 MAXPATH) (\<lambda>(n, path).
     if n < 0 then fail
     else kbind (fetch_args MAXARG 0 uargv []) (\<lambda>(ok, pages).
          kbind (if ok
                 then kbind (kget (\<lambda>s. map (\<lambda>pa. text_of (peek (pmem s) pa (unat PGSIZE))) pages)) (\<lambda>argv.
                      kexec (text_of path) argv)
                 else kret (-1)) (\<lambda>ret.
          kseq (kfor pages kfree) (kret (word_of_int ret))))))"

definition sys_pipe_bad :: "nat \<Rightarrow> nat \<Rightarrow> ('z files_scheme, uint64) kop" where
  "sys_pipe_bad fr fw = kseq (fileclose fr) (kseq (fileclose fw) fail)"

definition sys_pipe :: "('z files_scheme, uint64) kop" where
  "sys_pipe =
     with_myproc (\<lambda>p.
     kbind (argaddr 0) (\<lambda>fdarray.
     kbind pipealloc (\<lambda>al.
     case al of None \<Rightarrow> fail
     | Some (fr, fw) \<Rightarrow>
         kbind (fdalloc fr) (\<lambda>fd0.
         if fd0 < 0 then sys_pipe_bad fr fw
         else kbind (fdalloc fw) (\<lambda>fd1.
         if fd1 < 0 then kseq (set_ofile p (nat fd0) None) (sys_pipe_bad fr fw)
         else kbind (kget (\<lambda>s. p_pagetable (ptab s p))) (\<lambda>pt.
              kbind (kbind (copyout pt fdarray (int32_bytes fd0)) (\<lambda>r.
                     if r < 0 then kret r else copyout pt (fdarray + 4) (int32_bytes fd1))) (\<lambda>r.
              if r < 0
              then kseq (set_ofile p (nat fd0) None)
                  (kseq (set_ofile p (nat fd1) None) (sys_pipe_bad fr fw))
              else kret 0)))))))"

end
