(* ===== verification/Sysproc.thy ===== *)
theory Sysproc
  imports Sysfile
begin

text \<open>
  \<^verbatim>\<open>kernel/sysproc.c\<close>: the system calls on processes, and the second half of \<^verbatim>\<open>kernel/syscall.c\<close>: the
  dispatch of a system call, with the filter that \<open>sys_interpose\<close> sets up.
\<close>

section \<open>State\<close>

record clocked = files +
  ticks :: uint

definition SBRK_EAGER :: int where "SBRK_EAGER = 1"
definition SBRK_LAZY :: int where "SBRK_LAZY = 2"

section \<open>System calls on processes\<close>

definition sys_exit :: "('z files_scheme, uint64) kop" where
  "sys_exit = kbind (argint 0) (\<lambda>n. kseq (kexit n) (kret 0))"

definition sys_getpid :: "('z proctab_scheme, uint64) kop" where
  "sys_getpid = with_myproc (\<lambda>p. kget (\<lambda>s. word_of_int (p_pid (ptab s p))))"

definition sys_fork :: "('z files_scheme, uint64) kop" where
  "sys_fork = kbind kfork (\<lambda>r. kret (word_of_int r))"

definition sys_wait :: "('z proctab_scheme, uint64) kop" where
  "sys_wait = kbind (argaddr 0) (\<lambda>p. kbind (kwait p) (\<lambda>r. kret (word_of_int r)))"

definition sys_sbrk :: "('z proctab_scheme, uint64) kop" where
  "sys_sbrk =
     kbind (argint 0) (\<lambda>n.
     kbind (argint 1) (\<lambda>t.
     with_myproc (\<lambda>p.
     kbind (kget (\<lambda>s. p_sz (ptab s p))) (\<lambda>addr.
     if t = SBRK_EAGER \<or> n < 0
     then kbind (growproc n) (\<lambda>r. if r < 0 then fail else kret addr)
     else if addr + word_of_int n < addr then fail
     else kseq (set_proc p (\<lambda>q. q\<lparr>p_sz := p_sz q + word_of_int n\<rparr>)) (kret addr)))))"

text \<open>The loop of \<open>sys_pause\<close>: \<open>ticks - ticks0 < n\<close> compares unsigned words.\<close>

definition sys_pause_loop :: "uint \<Rightarrow> uint \<Rightarrow> ('z clocked_scheme, uint64) kop" where
  "sys_pause_loop ticks0 n =
     kbind (kget ticks) (\<lambda>now.
     if now - ticks0 < n
     then with_myproc (\<lambda>p.
          kbind (killed p) (\<lambda>k.
          if k \<noteq> 0 then kseq (release TicksLock) fail
          else kseq (sleep TicksChan TicksLock) (kret 0)))
     else kseq (release TicksLock) (kret 0))"

definition sys_pause :: "('z clocked_scheme, uint64) kop" where
  "sys_pause =
     kbind (argint 0) (\<lambda>n.
     let n = (if n < 0 then 0 else n) in
     kseq (acquire TicksLock)
    (kbind (kget ticks) (\<lambda>ticks0. sys_pause_loop ticks0 (word_of_int n))))"

definition sys_pause_resume :: "uint \<Rightarrow> uint \<Rightarrow> bool \<Rightarrow> ('z clocked_scheme, uint64) kop" where
  "sys_pause_resume ticks0 n ena = kseq (sleep_resume TicksLock ena) (sys_pause_loop ticks0 n)"

definition sys_kill :: "('z proctab_scheme, uint64) kop" where
  "sys_kill = kbind (argint 0) (\<lambda>pid. kbind (kkill pid) (\<lambda>r. kret (word_of_int r)))"

definition sys_uptime :: "('z clocked_scheme, uint64) kop" where
  "sys_uptime =
     kseq (acquire TicksLock)
    (kbind (kget ticks) (\<lambda>x. kseq (release TicksLock) (kret (ucast x))))"

definition sys_interpose :: "('z proctab_scheme, uint64) kop" where
  "sys_interpose =
     with_myproc (\<lambda>p.
     kbind (argint 0) (\<lambda>m.
     kbind (argstr 1 MAXPATH) (\<lambda>(n, path).
     if n < 0 then fail
     else kseq (set_proc p (\<lambda>q. q\<lparr>p_mask := word_of_int m\<rparr>))
         (kseq (set_proc p (\<lambda>q. q\<lparr>p_allowed_path := safestrcpy (p_allowed_path q) (str_of (text_of path)) (int MAXPATH)\<rparr>))
               (kret 0)))))"

section \<open>Dispatch\<close>

definition SYS_fork :: int where "SYS_fork = 1"
definition SYS_exit :: int where "SYS_exit = 2"
definition SYS_wait :: int where "SYS_wait = 3"
definition SYS_pipe :: int where "SYS_pipe = 4"
definition SYS_read :: int where "SYS_read = 5"
definition SYS_kill :: int where "SYS_kill = 6"
definition SYS_exec :: int where "SYS_exec = 7"
definition SYS_fstat :: int where "SYS_fstat = 8"
definition SYS_chdir :: int where "SYS_chdir = 9"
definition SYS_dup :: int where "SYS_dup = 10"
definition SYS_getpid :: int where "SYS_getpid = 11"
definition SYS_sbrk :: int where "SYS_sbrk = 12"
definition SYS_pause :: int where "SYS_pause = 13"
definition SYS_uptime :: int where "SYS_uptime = 14"
definition SYS_open :: int where "SYS_open = 15"
definition SYS_write :: int where "SYS_write = 16"
definition SYS_mknod :: int where "SYS_mknod = 17"
definition SYS_unlink :: int where "SYS_unlink = 18"
definition SYS_link :: int where "SYS_link = 19"
definition SYS_mkdir :: int where "SYS_mkdir = 20"
definition SYS_close :: int where "SYS_close = 21"
definition SYS_interpose :: int where "SYS_interpose = 22"

lemmas sys_numbers = SYS_fork_def SYS_exit_def SYS_wait_def SYS_pipe_def SYS_read_def SYS_kill_def
  SYS_exec_def SYS_fstat_def SYS_chdir_def SYS_dup_def SYS_getpid_def SYS_sbrk_def SYS_pause_def
  SYS_uptime_def SYS_open_def SYS_write_def SYS_mknod_def SYS_unlink_def SYS_link_def SYS_mkdir_def
  SYS_close_def SYS_interpose_def

text \<open>The table \<^verbatim>\<open>syscalls\<close>: the handler of a number, if it has one.\<close>

definition syscalls :: "int \<Rightarrow> ('z clocked_scheme, uint64) kop option" where
  "syscalls num =
     (if num = SYS_fork then Some sys_fork
      else if num = SYS_exit then Some sys_exit
      else if num = SYS_wait then Some sys_wait
      else if num = SYS_pipe then Some sys_pipe
      else if num = SYS_read then Some sys_read
      else if num = SYS_kill then Some sys_kill
      else if num = SYS_exec then Some sys_exec
      else if num = SYS_fstat then Some sys_fstat
      else if num = SYS_chdir then Some sys_chdir
      else if num = SYS_dup then Some sys_dup
      else if num = SYS_getpid then Some sys_getpid
      else if num = SYS_sbrk then Some sys_sbrk
      else if num = SYS_pause then Some sys_pause
      else if num = SYS_uptime then Some sys_uptime
      else if num = SYS_open then Some sys_open
      else if num = SYS_write then Some sys_write
      else if num = SYS_mknod then Some sys_mknod
      else if num = SYS_unlink then Some sys_unlink
      else if num = SYS_link then Some sys_link
      else if num = SYS_mkdir then Some sys_mkdir
      else if num = SYS_close then Some sys_close
      else if num = SYS_interpose then Some sys_interpose
      else None)"

definition refuse :: "nat \<Rightarrow> uchar list \<Rightarrow> int \<Rightarrow> ('z console_scheme, unit) kop" where
  "refuse p msg num =
     kbind (kget (\<lambda>s. ptab s p)) (\<lambda>q.
     kseq (printf msg [VWord (word_of_int (p_pid q)), VStr (Some (cstr_list (p_name q) 16)), VWord (word_of_int num)])
          (set_tf p A0 (-1)))"

definition blocked_msg :: "uchar list" where
  "blocked_msg = ascii ''%d %s: syscall %d blocked by interpose'' @ [10]"

definition unknown_msg :: "uchar list" where
  "unknown_msg = ascii ''%d %s: unknown syscall %d'' @ [10]"

definition syscall :: "('z clocked_scheme, unit) kop" where
  "syscall =
     with_myproc (\<lambda>p.
     kbind (get_tf p A7) (\<lambda>a7.
     let num = sint (ucast a7 :: uint) in
     case syscalls num of
       None \<Rightarrow> refuse p unknown_msg num
     | Some f \<Rightarrow>
         kbind (kget (\<lambda>s. ptab s p)) (\<lambda>q.
         if num \<noteq> SYS_interpose \<and> p_mask q AND push_bit (nat num) 1 \<noteq> 0
         then if (num = SYS_open \<or> num = SYS_exec) \<and> p_allowed_path q 0 \<noteq> 0
              then kbind (argstr 0 MAXPATH) (\<lambda>(n, path).
                   if 0 \<le> n \<and> strncmp (str_of (text_of path)) (p_allowed_path q) MAXPATH = 0
                   then kbind f (set_tf p A0)
                   else refuse p blocked_msg num)
              else refuse p blocked_msg num
         else kbind f (set_tf p A0))))"

end
