(* ===== verification/Virtio.thy ===== *)
theory Virtio
  imports Sysproc
begin

text \<open>
  \<^verbatim>\<open>kernel/virtio_disk.c\<close>: the driver of the disk. The three queue pages are kept as typed tables; a
  descriptor's address names the kernel object it points to. The device itself is not part of the
  kernel: \<open>vdev\<close> gives the value of a register after a sequence of register writes, and \<open>vwrites\<close> is the
  sequence of writes so far.
\<close>

section \<open>State\<close>

definition NUM :: nat where "NUM = 8"

datatype vaddr = VNull | VReq nat | VData nat | VStatus nat

record virtq_desc =
  vd_addr :: vaddr
  vd_len :: uint
  vd_flags :: ushort
  vd_next :: ushort

record virtio_blk_req =
  vq_type :: uint
  vq_reserved :: uint
  vq_sector :: uint64

record vinfo =
  vi_b :: "nat option"
  vi_status :: uchar

record vdisk = clocked +
  vdesc_page :: uint64
  vavail_page :: uint64
  vused_page :: uint64
  vdesc :: "nat \<Rightarrow> virtq_desc"
  vavail_idx :: ushort
  vavail_ring :: "nat \<Rightarrow> ushort"
  vused_idx :: ushort
  vused_ring :: "nat \<Rightarrow> uint"
  vfree :: "nat \<Rightarrow> bool"
  vseen_idx :: ushort
  vinfo :: "nat \<Rightarrow> vinfo"
  vops :: "nat \<Rightarrow> virtio_blk_req"
  vdev :: "(uint64 \<times> uint) list \<Rightarrow> uint64 \<Rightarrow> uint"
  vwrites :: "(uint64 \<times> uint) list"

section \<open>Registers\<close>

definition VIRTIO_MMIO_MAGIC_VALUE :: uint64 where "VIRTIO_MMIO_MAGIC_VALUE = 0x000"
definition VIRTIO_MMIO_VERSION :: uint64 where "VIRTIO_MMIO_VERSION = 0x004"
definition VIRTIO_MMIO_DEVICE_ID :: uint64 where "VIRTIO_MMIO_DEVICE_ID = 0x008"
definition VIRTIO_MMIO_VENDOR_ID :: uint64 where "VIRTIO_MMIO_VENDOR_ID = 0x00c"
definition VIRTIO_MMIO_DEVICE_FEATURES :: uint64 where "VIRTIO_MMIO_DEVICE_FEATURES = 0x010"
definition VIRTIO_MMIO_DRIVER_FEATURES :: uint64 where "VIRTIO_MMIO_DRIVER_FEATURES = 0x020"
definition VIRTIO_MMIO_QUEUE_SEL :: uint64 where "VIRTIO_MMIO_QUEUE_SEL = 0x030"
definition VIRTIO_MMIO_QUEUE_NUM_MAX :: uint64 where "VIRTIO_MMIO_QUEUE_NUM_MAX = 0x034"
definition VIRTIO_MMIO_QUEUE_NUM :: uint64 where "VIRTIO_MMIO_QUEUE_NUM = 0x038"
definition VIRTIO_MMIO_QUEUE_READY :: uint64 where "VIRTIO_MMIO_QUEUE_READY = 0x044"
definition VIRTIO_MMIO_QUEUE_NOTIFY :: uint64 where "VIRTIO_MMIO_QUEUE_NOTIFY = 0x050"
definition VIRTIO_MMIO_INTERRUPT_STATUS :: uint64 where "VIRTIO_MMIO_INTERRUPT_STATUS = 0x060"
definition VIRTIO_MMIO_INTERRUPT_ACK :: uint64 where "VIRTIO_MMIO_INTERRUPT_ACK = 0x064"
definition VIRTIO_MMIO_STATUS :: uint64 where "VIRTIO_MMIO_STATUS = 0x070"
definition VIRTIO_MMIO_QUEUE_DESC_LOW :: uint64 where "VIRTIO_MMIO_QUEUE_DESC_LOW = 0x080"
definition VIRTIO_MMIO_QUEUE_DESC_HIGH :: uint64 where "VIRTIO_MMIO_QUEUE_DESC_HIGH = 0x084"
definition VIRTIO_MMIO_DRIVER_DESC_LOW :: uint64 where "VIRTIO_MMIO_DRIVER_DESC_LOW = 0x090"
definition VIRTIO_MMIO_DRIVER_DESC_HIGH :: uint64 where "VIRTIO_MMIO_DRIVER_DESC_HIGH = 0x094"
definition VIRTIO_MMIO_DEVICE_DESC_LOW :: uint64 where "VIRTIO_MMIO_DEVICE_DESC_LOW = 0x0a0"
definition VIRTIO_MMIO_DEVICE_DESC_HIGH :: uint64 where "VIRTIO_MMIO_DEVICE_DESC_HIGH = 0x0a4"

definition VIRTIO_CONFIG_S_ACKNOWLEDGE :: uint where "VIRTIO_CONFIG_S_ACKNOWLEDGE = 1"
definition VIRTIO_CONFIG_S_DRIVER :: uint where "VIRTIO_CONFIG_S_DRIVER = 2"
definition VIRTIO_CONFIG_S_DRIVER_OK :: uint where "VIRTIO_CONFIG_S_DRIVER_OK = 4"
definition VIRTIO_CONFIG_S_FEATURES_OK :: uint where "VIRTIO_CONFIG_S_FEATURES_OK = 8"

definition VRING_DESC_F_NEXT :: ushort where "VRING_DESC_F_NEXT = 1"
definition VRING_DESC_F_WRITE :: ushort where "VRING_DESC_F_WRITE = 2"
definition VIRTIO_BLK_T_IN :: uint where "VIRTIO_BLK_T_IN = 0"
definition VIRTIO_BLK_T_OUT :: uint where "VIRTIO_BLK_T_OUT = 1"

text \<open>The feature bits the driver turns off: RO, SCSI, CONFIG_WCE, MQ, ANY_LAYOUT, EVENT_IDX, INDIRECT_DESC.\<close>

definition refused_features :: "nat list" where
  "refused_features = [5, 7, 11, 12, 27, 29, 28]"

definition vread :: "uint64 \<Rightarrow> ('z vdisk_scheme, uint) kop" where
  "vread r = kget (\<lambda>s. vdev s (vwrites s) (VIRTIO0 + r))"

definition vwrite :: "uint64 \<Rightarrow> uint \<Rightarrow> ('z vdisk_scheme, unit) kop" where
  "vwrite r v = kmod (\<lambda>s. s\<lparr>vwrites := vwrites s @ [(VIRTIO0 + r, v)]\<rparr>)"

section \<open>Initialisation\<close>

definition high32 :: "uint64 \<Rightarrow> uint" where
  "high32 a = ucast (drop_bit 32 a)"

text \<open>The part of \<open>virtio_disk_init\<close> up to the queue, which returns the status bits set.\<close>

definition virtio_negotiate :: "('z vdisk_scheme, uint) kop" where
  "virtio_negotiate =
     kbind (vread VIRTIO_MMIO_MAGIC_VALUE) (\<lambda>magic.
     kbind (vread VIRTIO_MMIO_VERSION) (\<lambda>version.
     kbind (vread VIRTIO_MMIO_DEVICE_ID) (\<lambda>dev.
     kbind (vread VIRTIO_MMIO_VENDOR_ID) (\<lambda>vendor.
     if magic \<noteq> 0x74726976 \<or> version \<noteq> 2 \<or> dev \<noteq> 2 \<or> vendor \<noteq> 0x554d4551
     then kpanic ''could not find virtio disk''
     else kseq (vwrite VIRTIO_MMIO_STATUS 0)
         (let st1 = VIRTIO_CONFIG_S_ACKNOWLEDGE; st2 = st1 OR VIRTIO_CONFIG_S_DRIVER;
              st3 = st2 OR VIRTIO_CONFIG_S_FEATURES_OK in
          kseq (vwrite VIRTIO_MMIO_STATUS st1)
         (kseq (vwrite VIRTIO_MMIO_STATUS st2)
         (kbind (vread VIRTIO_MMIO_DEVICE_FEATURES) (\<lambda>features.
          kseq (vwrite VIRTIO_MMIO_DRIVER_FEATURES (foldl (\<lambda>f b. f AND NOT (push_bit b 1)) features refused_features))
         (kseq (vwrite VIRTIO_MMIO_STATUS st3)
         (kbind (vread VIRTIO_MMIO_STATUS) (\<lambda>status.
          if status AND VIRTIO_CONFIG_S_FEATURES_OK = 0 then kpanic ''virtio disk FEATURES_OK unset''
          else kret status)))))))))))"

definition virtio_zero_page :: "uint64 \<Rightarrow> ('z kmem_scheme, unit) kop" where
  "virtio_zero_page pa = set_pmem (\<lambda>m. memset m pa 0 4096)"

definition blank_desc :: virtq_desc where
  "blank_desc = \<lparr>vd_addr = VNull, vd_len = 0, vd_flags = 0, vd_next = 0\<rparr>"

definition virtio_queue_pages :: "('z vdisk_scheme, unit) kop" where
  "virtio_queue_pages =
     kbind kalloc (\<lambda>d.
     kbind kalloc (\<lambda>a.
     kbind kalloc (\<lambda>u.
     kseq (kmod (\<lambda>s. s\<lparr>vdesc_page := d, vavail_page := a, vused_page := u\<rparr>))
    (if d = 0 \<or> a = 0 \<or> u = 0 then kpanic ''virtio disk kalloc''
     else kseq (virtio_zero_page d)
         (kseq (virtio_zero_page a)
         (kseq (virtio_zero_page u)
         (kseq (kmod (\<lambda>s. s\<lparr>vdesc := (\<lambda>_. blank_desc), vavail_idx := 0, vavail_ring := (\<lambda>_. 0),
                             vused_idx := 0, vused_ring := (\<lambda>_. 0)\<rparr>))
         (kseq (vwrite VIRTIO_MMIO_QUEUE_NUM (of_nat NUM))
         (kseq (vwrite VIRTIO_MMIO_QUEUE_DESC_LOW (ucast d))
         (kseq (vwrite VIRTIO_MMIO_QUEUE_DESC_HIGH (high32 d))
         (kseq (vwrite VIRTIO_MMIO_DRIVER_DESC_LOW (ucast a))
         (kseq (vwrite VIRTIO_MMIO_DRIVER_DESC_HIGH (high32 a))
         (kseq (vwrite VIRTIO_MMIO_DEVICE_DESC_LOW (ucast u))
               (vwrite VIRTIO_MMIO_DEVICE_DESC_HIGH (high32 u)))))))))))))))"

definition virtio_disk_init :: "('z vdisk_scheme, unit) kop" where
  "virtio_disk_init =
     kseq (initlock VdiskLock ''virtio_disk'')
    (kbind virtio_negotiate (\<lambda>status.
     kseq (vwrite VIRTIO_MMIO_QUEUE_SEL 0)
    (kbind (vread VIRTIO_MMIO_QUEUE_READY) (\<lambda>rdy.
     if rdy \<noteq> 0 then kpanic ''virtio disk should not be ready''
     else kbind (vread VIRTIO_MMIO_QUEUE_NUM_MAX) (\<lambda>mx.
          if mx = 0 then kpanic ''virtio disk has no queue 0''
          else if mx < of_nat NUM then kpanic ''virtio disk max queue too short''
          else kseq virtio_queue_pages
              (kseq (vwrite VIRTIO_MMIO_QUEUE_READY 1)
              (kseq (kfor [0..<NUM] (\<lambda>i. kmod (\<lambda>s. s\<lparr>vfree := (vfree s)(i := True)\<rparr>)))
                    (vwrite VIRTIO_MMIO_STATUS (status OR VIRTIO_CONFIG_S_DRIVER_OK)))))))))"

section \<open>Descriptors\<close>

definition alloc_desc :: "('z vdisk_scheme, nat option) kop" where
  "alloc_desc =
     kbind (kget (\<lambda>s. List.find (vfree s) [0..<NUM])) (\<lambda>found.
     case found of None \<Rightarrow> kret None
     | Some i \<Rightarrow> kseq (kmod (\<lambda>s. s\<lparr>vfree := (vfree s)(i := False)\<rparr>)) (kret (Some i)))"

definition set_vdesc :: "nat \<Rightarrow> virtq_desc \<Rightarrow> ('z vdisk_scheme, unit) kop" where
  "set_vdesc i d = kmod (\<lambda>s. s\<lparr>vdesc := (vdesc s)(i := d)\<rparr>)"

definition free_desc :: "nat \<Rightarrow> ('z vdisk_scheme, unit) kop" where
  "free_desc i =
     (if NUM \<le> i then kpanic ''free_desc 1''
      else kbind (kget (\<lambda>s. vfree s i)) (\<lambda>fr.
           if fr then kpanic ''free_desc 2''
           else kseq (set_vdesc i blank_desc)
               (kseq (kmod (\<lambda>s. s\<lparr>vfree := (vfree s)(i := True)\<rparr>)) (wakeup DiskFree))))"

text \<open>
  A chain of descriptors visits no descriptor twice, because freeing a free one panics; so \<^verbatim>\<open>NUM\<close>
  turns and one more are enough.
\<close>

fun free_vchain :: "nat \<Rightarrow> nat \<Rightarrow> ('z vdisk_scheme, unit) kop" where
  "free_vchain 0 i = (\<lambda>_. Diverge)"
| "free_vchain (Suc k) i =
     kbind (kget (\<lambda>s. vdesc s i)) (\<lambda>d.
     kseq (free_desc i)
          (if vd_flags d AND VRING_DESC_F_NEXT \<noteq> 0 then free_vchain k (unat (vd_next d)) else kret ()))"

fun alloc3_loop :: "nat \<Rightarrow> nat list \<Rightarrow> ('z vdisk_scheme, nat list option) kop" where
  "alloc3_loop 0 idx = kret (Some idx)"
| "alloc3_loop (Suc k) idx =
     kbind alloc_desc (\<lambda>d.
     case d of None \<Rightarrow> kseq (kfor idx free_desc) (kret None)
     | Some i \<Rightarrow> alloc3_loop k (idx @ [i]))"

definition alloc3_desc :: "('z vdisk_scheme, nat list option) kop" where
  "alloc3_desc = alloc3_loop 3 []"

section \<open>Requests\<close>

definition set_vinfo :: "nat \<Rightarrow> (vinfo \<Rightarrow> vinfo) \<Rightarrow> ('z vdisk_scheme, unit) kop" where
  "set_vinfo i f = kmod (\<lambda>s. s\<lparr>vinfo := (vinfo s)(i := f (vinfo s i))\<rparr>)"

text \<open>Formatting the three descriptors and telling the device.\<close>

definition virtio_submit :: "nat \<Rightarrow> bool \<Rightarrow> nat \<Rightarrow> nat \<Rightarrow> nat \<Rightarrow> ('z vdisk_scheme, unit) kop" where
  "virtio_submit b wr i0 i1 i2 =
     kbind (kget (\<lambda>s. b_blockno (bufs s b) * of_nat (BSIZE div 512))) (\<lambda>sector.
     kseq (kmod (\<lambda>s. s\<lparr>vops := (vops s)(i0 :=
             \<lparr>vq_type = (if wr then VIRTIO_BLK_T_OUT else VIRTIO_BLK_T_IN), vq_reserved = 0, vq_sector = ucast sector\<rparr>)\<rparr>))
    (kseq (set_vdesc i0 \<lparr>vd_addr = VReq i0, vd_len = 16, vd_flags = VRING_DESC_F_NEXT, vd_next = of_nat i1\<rparr>)
    (kseq (set_vdesc i1 \<lparr>vd_addr = VData b, vd_len = of_nat BSIZE,
             vd_flags = (if wr then 0 else VRING_DESC_F_WRITE) OR VRING_DESC_F_NEXT, vd_next = of_nat i2\<rparr>)
    (kseq (set_vinfo i0 (\<lambda>x. x\<lparr>vi_status := 0xff\<rparr>))
    (kseq (set_vdesc i2 \<lparr>vd_addr = VStatus i0, vd_len = 1, vd_flags = VRING_DESC_F_WRITE, vd_next = 0\<rparr>)
    (kseq (set_buf b (\<lambda>q. q\<lparr>b_disk := True\<rparr>))
    (kseq (set_vinfo i0 (\<lambda>x. x\<lparr>vi_b := Some b\<rparr>))
    (kseq (kmod (\<lambda>s. s\<lparr>vavail_ring := (vavail_ring s)(unat (vavail_idx s) mod NUM := of_nat i0)\<rparr>))
    (kseq (kmod (\<lambda>s. s\<lparr>vavail_idx := vavail_idx s + 1\<rparr>))
          (vwrite VIRTIO_MMIO_QUEUE_NOTIFY 0))))))))))"

definition virtio_wait :: "nat \<Rightarrow> nat \<Rightarrow> ('z vdisk_scheme, unit) kop" where
  "virtio_wait b i0 =
     kbind (kget (\<lambda>s. b_disk (bufs s b))) (\<lambda>busy.
     if busy then sleep (BufChan b) VdiskLock
     else kseq (set_vinfo i0 (\<lambda>x. x\<lparr>vi_b := None\<rparr>))
         (kseq (free_vchain (NUM + 1) i0) (release VdiskLock)))"

definition virtio_alloc :: "nat \<Rightarrow> bool \<Rightarrow> ('z vdisk_scheme, unit) kop" where
  "virtio_alloc b wr =
     kbind alloc3_desc (\<lambda>idx.
     case idx of None \<Rightarrow> sleep DiskFree VdiskLock
     | Some idx \<Rightarrow> kseq (virtio_submit b wr (idx ! 0) (idx ! 1) (idx ! 2)) (virtio_wait b (idx ! 0)))"

definition virtio_disk_rw :: "nat \<Rightarrow> bool \<Rightarrow> ('z vdisk_scheme, unit) kop" where
  "virtio_disk_rw b wr = kseq (acquire VdiskLock) (virtio_alloc b wr)"

definition virtio_alloc_resume :: "nat \<Rightarrow> bool \<Rightarrow> bool \<Rightarrow> ('z vdisk_scheme, unit) kop" where
  "virtio_alloc_resume b wr ena = kseq (sleep_resume VdiskLock ena) (virtio_alloc b wr)"

definition virtio_wait_resume :: "nat \<Rightarrow> nat \<Rightarrow> bool \<Rightarrow> ('z vdisk_scheme, unit) kop" where
  "virtio_wait_resume b i0 ena = kseq (sleep_resume VdiskLock ena) (virtio_wait b i0)"

section \<open>Interrupts\<close>

text \<open>The loop of \<open>virtio_disk_intr\<close> handles the given number of used entries.\<close>

fun virtio_intr_loop :: "nat \<Rightarrow> ('z vdisk_scheme, unit) kop" where
  "virtio_intr_loop 0 = kret ()"
| "virtio_intr_loop (Suc k) =
     kbind (kget (\<lambda>s. unat (vused_ring s (unat (vseen_idx s) mod NUM)))) (\<lambda>i.
     kbind (kget (\<lambda>s. vinfo s i)) (\<lambda>x.
     if vi_status x \<noteq> 0 then kpanic ''virtio_disk_intr status''
     else case vi_b x of None \<Rightarrow> kpanic ''kerneltrap''
     | Some b \<Rightarrow>
         kseq (set_buf b (\<lambda>q. q\<lparr>b_disk := False\<rparr>))
        (kseq (wakeup (BufChan b))
        (kseq (kmod (\<lambda>s. s\<lparr>vseen_idx := vseen_idx s + 1\<rparr>)) (virtio_intr_loop k)))))"

definition virtio_disk_intr :: "('z vdisk_scheme, unit) kop" where
  "virtio_disk_intr =
     kseq (acquire VdiskLock)
    (kbind (vread VIRTIO_MMIO_INTERRUPT_STATUS) (\<lambda>st.
     kseq (vwrite VIRTIO_MMIO_INTERRUPT_ACK (st AND 3))
    (kbind (kget (\<lambda>s. unat (vused_idx s - vseen_idx s))) (\<lambda>n.
     kseq (virtio_intr_loop n) (release VdiskLock)))))"

end
