(* ===== verification/Trap.thy ===== *)
theory Trap
  imports Virtio
begin

text \<open>
  \<^verbatim>\<open>kernel/trap.c\<close>, \<^verbatim>\<open>kernel/plic.c\<close>, \<^verbatim>\<open>kernel/main.c\<close>, \<^verbatim>\<open>kernel/start.c\<close> and \<^verbatim>\<open>forkret\<close> of
  \<^verbatim>\<open>kernel/proc.c\<close>: traps from user space and from the kernel, device interrupts and booting, on the
  control registers of \<^verbatim>\<open>kernel/riscv.h\<close>.

  The interrupt-enable bit of \<^verbatim>\<open>sstatus\<close> is the field \<open>sie\<close> of the machine, and \<^verbatim>\<open>satp\<close> is the field
  of that name; the other control registers are \<open>csr\<close>. The hart that executes is \<open>hart\<close>. The values
  the hardware sets (\<^verbatim>\<open>scause\<close>, \<^verbatim>\<open>stval\<close>, \<^verbatim>\<open>time\<close>, the PLIC's claim register) and the addresses the
  linker chooses are read from the state.
\<close>

section \<open>State\<close>

datatype csr =
    Mhartid | Mstatus | Mepc | Sstatus | Sip | Sie | Mie | Sepc | Medeleg | Mideleg | Stvec
  | Stimecmp | Menvcfg | Pmpcfg0 | Pmpaddr0 | Scause | Stval | Mcounteren | Time | Tp

record board = vdisk +
  csr :: "nat \<Rightarrow> csr \<Rightarrow> uint64"
  plic :: "uint64 \<Rightarrow> uint"
  started :: bool
  first :: bool
  ld_kernelvec :: uint64
  ld_uservec :: uint64
  ld_userret :: uint64
  ld_usertrap :: uint64
  ld_main :: uint64

section \<open>Control registers\<close>

definition MSTATUS_MPP_MASK :: uint64 where "MSTATUS_MPP_MASK = push_bit 11 3"
definition MSTATUS_MPP_S :: uint64 where "MSTATUS_MPP_S = push_bit 11 1"
definition SSTATUS_SPP :: uint64 where "SSTATUS_SPP = push_bit 8 1"
definition SSTATUS_SPIE :: uint64 where "SSTATUS_SPIE = push_bit 5 1"
definition SSTATUS_SIE :: uint64 where "SSTATUS_SIE = push_bit 1 1"
definition SIE_SEIE :: uint64 where "SIE_SEIE = push_bit 9 1"
definition SIE_STIE :: uint64 where "SIE_STIE = push_bit 5 1"
definition MIE_STIE :: uint64 where "MIE_STIE = push_bit 5 1"

definition csr_get :: "csr \<Rightarrow> ('z board_scheme, uint64) kop" where
  "csr_get c = kget (\<lambda>s. csr s (hart s) c)"

definition csr_put :: "csr \<Rightarrow> uint64 \<Rightarrow> ('z board_scheme, unit) kop" where
  "csr_put c x = kmod (\<lambda>s. s\<lparr>csr := (csr s)(hart s := (csr s (hart s))(c := x))\<rparr>)"

definition r_mhartid :: "('z board_scheme, uint64) kop" where "r_mhartid = csr_get Mhartid"
definition r_mstatus :: "('z board_scheme, uint64) kop" where "r_mstatus = csr_get Mstatus"
definition w_mstatus :: "uint64 \<Rightarrow> ('z board_scheme, unit) kop" where "w_mstatus = csr_put Mstatus"
definition w_mepc :: "uint64 \<Rightarrow> ('z board_scheme, unit) kop" where "w_mepc = csr_put Mepc"

definition r_sstatus :: "('z board_scheme, uint64) kop" where
  "r_sstatus = kget (\<lambda>s. (csr s (hart s) Sstatus AND NOT SSTATUS_SIE) OR (if intr_get s then SSTATUS_SIE else 0))"

definition w_sstatus :: "uint64 \<Rightarrow> ('z board_scheme, unit) kop" where
  "w_sstatus x = kseq (csr_put Sstatus x) (kmod (if x AND SSTATUS_SIE \<noteq> 0 then intr_on else intr_off))"

definition r_sip :: "('z board_scheme, uint64) kop" where "r_sip = csr_get Sip"
definition w_sip :: "uint64 \<Rightarrow> ('z board_scheme, unit) kop" where "w_sip = csr_put Sip"
definition r_sie :: "('z board_scheme, uint64) kop" where "r_sie = csr_get Sie"
definition w_sie :: "uint64 \<Rightarrow> ('z board_scheme, unit) kop" where "w_sie = csr_put Sie"
definition r_mie :: "('z board_scheme, uint64) kop" where "r_mie = csr_get Mie"
definition w_mie :: "uint64 \<Rightarrow> ('z board_scheme, unit) kop" where "w_mie = csr_put Mie"
definition r_sepc :: "('z board_scheme, uint64) kop" where "r_sepc = csr_get Sepc"
definition w_sepc :: "uint64 \<Rightarrow> ('z board_scheme, unit) kop" where "w_sepc = csr_put Sepc"
definition r_medeleg :: "('z board_scheme, uint64) kop" where "r_medeleg = csr_get Medeleg"
definition w_medeleg :: "uint64 \<Rightarrow> ('z board_scheme, unit) kop" where "w_medeleg = csr_put Medeleg"
definition r_mideleg :: "('z board_scheme, uint64) kop" where "r_mideleg = csr_get Mideleg"
definition w_mideleg :: "uint64 \<Rightarrow> ('z board_scheme, unit) kop" where "w_mideleg = csr_put Mideleg"
definition r_stvec :: "('z board_scheme, uint64) kop" where "r_stvec = csr_get Stvec"
definition w_stvec :: "uint64 \<Rightarrow> ('z board_scheme, unit) kop" where "w_stvec = csr_put Stvec"
definition r_stimecmp :: "('z board_scheme, uint64) kop" where "r_stimecmp = csr_get Stimecmp"
definition w_stimecmp :: "uint64 \<Rightarrow> ('z board_scheme, unit) kop" where "w_stimecmp = csr_put Stimecmp"
definition r_menvcfg :: "('z board_scheme, uint64) kop" where "r_menvcfg = csr_get Menvcfg"
definition w_menvcfg :: "uint64 \<Rightarrow> ('z board_scheme, unit) kop" where "w_menvcfg = csr_put Menvcfg"
definition w_pmpcfg0 :: "uint64 \<Rightarrow> ('z board_scheme, unit) kop" where "w_pmpcfg0 = csr_put Pmpcfg0"
definition w_pmpaddr0 :: "uint64 \<Rightarrow> ('z board_scheme, unit) kop" where "w_pmpaddr0 = csr_put Pmpaddr0"
definition r_scause :: "('z board_scheme, uint64) kop" where "r_scause = csr_get Scause"
definition r_stval :: "('z board_scheme, uint64) kop" where "r_stval = csr_get Stval"
definition w_mcounteren :: "uint64 \<Rightarrow> ('z board_scheme, unit) kop" where "w_mcounteren = csr_put Mcounteren"
definition r_mcounteren :: "('z board_scheme, uint64) kop" where "r_mcounteren = csr_get Mcounteren"
definition r_time :: "('z board_scheme, uint64) kop" where "r_time = csr_get Time"
definition r_tp :: "('z board_scheme, uint64) kop" where "r_tp = csr_get Tp"
definition w_tp :: "uint64 \<Rightarrow> ('z board_scheme, unit) kop" where "w_tp = csr_put Tp"

definition r_satp :: "('z vmem_scheme, uint64) kop" where
  "r_satp = kget (\<lambda>s. satp s (hart s))"

definition w_satp :: "uint64 \<Rightarrow> ('z vmem_scheme, unit) kop" where
  "w_satp x = kmod (\<lambda>s. s\<lparr>satp := (satp s)(hart s := x)\<rparr>)"

section \<open>The interrupt controller\<close>

definition UART0_IRQ :: int where "UART0_IRQ = 10"
definition VIRTIO0_IRQ :: int where "VIRTIO0_IRQ = 1"

definition PLIC_SENABLE :: "nat \<Rightarrow> uint64" where "PLIC_SENABLE h = PLIC + 0x2080 + of_nat h * 0x100"
definition PLIC_SPRIORITY :: "nat \<Rightarrow> uint64" where "PLIC_SPRIORITY h = PLIC + 0x201000 + of_nat h * 0x2000"
definition PLIC_SCLAIM :: "nat \<Rightarrow> uint64" where "PLIC_SCLAIM h = PLIC + 0x201004 + of_nat h * 0x2000"

definition plic_put :: "uint64 \<Rightarrow> uint \<Rightarrow> ('z board_scheme, unit) kop" where
  "plic_put a v = kmod (\<lambda>s. s\<lparr>plic := (plic s)(a := v)\<rparr>)"

definition plicinit :: "('z board_scheme, unit) kop" where
  "plicinit =
     kseq (plic_put (PLIC + word_of_int UART0_IRQ * 4) 1)
          (plic_put (PLIC + word_of_int VIRTIO0_IRQ * 4) 1)"

definition plicinithart :: "('z board_scheme, unit) kop" where
  "plicinithart =
     kbind (kget cpuid) (\<lambda>h.
     kseq (plic_put (PLIC_SENABLE h) (push_bit (nat UART0_IRQ) 1 OR push_bit (nat VIRTIO0_IRQ) 1))
          (plic_put (PLIC_SPRIORITY h) 0))"

definition plic_claim :: "('z board_scheme, int) kop" where
  "plic_claim = kbind (kget cpuid) (\<lambda>h. kget (\<lambda>s. sint (plic s (PLIC_SCLAIM h))))"

definition plic_complete :: "int \<Rightarrow> ('z board_scheme, unit) kop" where
  "plic_complete irq = kbind (kget cpuid) (\<lambda>h. plic_put (PLIC_SCLAIM h) (word_of_int irq))"

section \<open>Interrupts\<close>

definition trapinit :: "('z machine_scheme, unit) kop" where
  "trapinit = initlock TicksLock ''time''"

definition trapinithart :: "('z board_scheme, unit) kop" where
  "trapinithart = kbind (kget ld_kernelvec) w_stvec"

definition clockintr :: "('z board_scheme, unit) kop" where
  "clockintr =
     kbind (kget cpuid) (\<lambda>h.
     kseq (kwhen (h = 0)
            (kseq (acquire TicksLock)
            (kseq (kmod (\<lambda>s. s\<lparr>ticks := ticks s + 1\<rparr>))
            (kseq (wakeup TicksChan) (release TicksLock)))))
          (kbind r_time (\<lambda>t. w_stimecmp (t + 1000000))))"

definition devintr :: "('z board_scheme, int) kop" where
  "devintr =
     kbind r_scause (\<lambda>scause.
     if scause = 0x8000000000000009
     then kbind plic_claim (\<lambda>irq.
          kseq (if irq = UART0_IRQ then uartintr
                else if irq = VIRTIO0_IRQ then virtio_disk_intr
                else kwhen (irq \<noteq> 0) (printf (ascii ''unexpected interrupt irq=%d'' @ [10]) [VWord (word_of_int irq)]))
         (kseq (kwhen (irq \<noteq> 0) (plic_complete irq)) (kret 1)))
     else if scause = 0x8000000000000005 then kseq clockintr (kret 2)
     else kret 0)"

section \<open>Traps\<close>

definition prepare_return :: "('z board_scheme, unit) kop" where
  "prepare_return =
     with_myproc (\<lambda>p.
     kseq (kmod intr_off)
    (kbind (kget (\<lambda>s. TRAMPOLINE + (ld_uservec s - ld_trampoline s))) (\<lambda>vec.
     kseq (w_stvec vec)
    (kbind r_satp (\<lambda>ksatp.
     kseq (set_tf p Kernel_satp ksatp)
    (kbind (kget (\<lambda>s. p_kstack (ptab s p))) (\<lambda>kst.
     kseq (set_tf p Kernel_sp (kst + PGSIZE))
    (kbind (kget ld_usertrap) (\<lambda>ut.
     kseq (set_tf p Kernel_trap ut)
    (kbind r_tp (\<lambda>tp.
     kseq (set_tf p Kernel_hartid tp)
    (kbind r_sstatus (\<lambda>x.
     kseq (w_sstatus ((x AND NOT SSTATUS_SPP) OR SSTATUS_SPIE))
    (kbind (get_tf p Epc) w_sepc))))))))))))))"

text \<open>The end of \<open>usertrap\<close>, which also follows the \<open>yield\<close> of a timer interrupt.\<close>

definition usertrap_end :: "nat \<Rightarrow> ('z board_scheme, uint64) kop" where
  "usertrap_end p = kseq prepare_return (kget (\<lambda>s. MAKE_SATP (p_pagetable (ptab s p))))"

definition usertrap_resume :: "nat \<Rightarrow> bool \<Rightarrow> ('z board_scheme, uint64) kop" where
  "usertrap_resume p ena = kseq (yield_resume ena) (usertrap_end p)"

definition exit_if_killed :: "nat \<Rightarrow> ('z files_scheme, unit) kop" where
  "exit_if_killed p = kbind (killed p) (\<lambda>k. kwhen (k \<noteq> 0) (kexit (-1)))"

definition report_trap :: "nat \<Rightarrow> ('z board_scheme, unit) kop" where
  "report_trap p =
     kbind r_scause (\<lambda>scause.
     kbind r_sepc (\<lambda>sepc.
     kbind r_stval (\<lambda>stval.
     kbind (kget (\<lambda>s. p_pid (ptab s p))) (\<lambda>pid.
     kseq (printf (ascii ''usertrap(): unexpected scause 0x%lx pid=%d'' @ [10]) [VWord scause, VWord (word_of_int pid)])
    (kseq (printf (ascii ''            sepc=0x%lx stval=0x%lx'' @ [10]) [VWord sepc, VWord stval])
          (setkilled p))))))"

text \<open>What the trap was: the result is \<open>which_dev\<close>.\<close>

definition usertrap_cause :: "nat \<Rightarrow> ('z board_scheme, int) kop" where
  "usertrap_cause p =
     kbind r_scause (\<lambda>scause.
     if scause = 8
     then kseq (exit_if_killed p)
         (kbind (get_tf p Epc) (\<lambda>epc.
          kseq (set_tf p Epc (epc + 4))
         (kseq (kmod intr_on) (kseq syscall (kret 0)))))
     else kbind devintr (\<lambda>which.
          if which \<noteq> 0 then kret which
          else if scause = 15 \<or> scause = 13
          then kbind (kget (\<lambda>s. p_pagetable (ptab s p))) (\<lambda>pt.
               kbind r_stval (\<lambda>stval.
               kbind (vmfault pt stval) (\<lambda>pa.
               if pa \<noteq> 0 then kret 0 else kseq (report_trap p) (kret 0))))
          else kseq (report_trap p) (kret 0)))"

definition usertrap :: "('z board_scheme, uint64) kop" where
  "usertrap =
     kbind r_sstatus (\<lambda>x.
     if x AND SSTATUS_SPP \<noteq> 0 then kpanic ''usertrap: not from user mode''
     else kbind (kget ld_kernelvec) (\<lambda>kv.
          kseq (w_stvec kv)
         (with_myproc (\<lambda>p.
          kbind r_sepc (\<lambda>sepc.
          kseq (set_tf p Epc sepc)
         (kbind (usertrap_cause p) (\<lambda>which.
          kseq (exit_if_killed p)
         (kseq (kwhen (which = 2) yield) (usertrap_end p)))))))))"

definition kerneltrap_end :: "uint64 \<Rightarrow> uint64 \<Rightarrow> ('z board_scheme, unit) kop" where
  "kerneltrap_end sepc sstatus = kseq (w_sepc sepc) (w_sstatus sstatus)"

definition kerneltrap :: "('z board_scheme, unit) kop" where
  "kerneltrap =
     kbind r_sepc (\<lambda>sepc.
     kbind r_sstatus (\<lambda>sstatus.
     kbind r_scause (\<lambda>scause.
     if sstatus AND SSTATUS_SPP = 0 then kpanic ''kerneltrap: not from supervisor mode''
     else kbind (kget intr_get) (\<lambda>ena.
     if ena then kpanic ''kerneltrap: interrupts enabled''
     else kbind devintr (\<lambda>which.
          if which = 0
          then kbind r_sepc (\<lambda>pc. kbind r_stval (\<lambda>stval.
               kseq (printf (ascii ''scause=0x%lx sepc=0x%lx stval=0x%lx'' @ [10]) [VWord scause, VWord pc, VWord stval])
                    (kpanic ''kerneltrap'')))
          else kbind (if which = 2 then myproc else kret None) (\<lambda>me.
               kseq (kwhen (me \<noteq> None) yield) (kerneltrap_end sepc sstatus)))))))"

definition kerneltrap_resume :: "uint64 \<Rightarrow> uint64 \<Rightarrow> bool \<Rightarrow> ('z board_scheme, unit) kop" where
  "kerneltrap_resume sepc sstatus ena = kseq (yield_resume ena) (kerneltrap_end sepc sstatus)"

text \<open>
  \<open>forkret\<close>: the first code of a process. It returns the page table and the address in the
  trampoline it jumps to.
\<close>

definition forkret :: "('z board_scheme, uint64 \<times> uint64) kop" where
  "forkret =
     with_myproc (\<lambda>p.
     kseq (release (ProcLock p))
    (kbind (kget first) (\<lambda>fst.
     kseq (kwhen fst
            (kseq (fsinit ROOTDEV)
            (kseq (kmod (\<lambda>s. s\<lparr>first := False\<rparr>))
            (kbind (kexec (ascii ''/init'') [ascii ''/init'']) (\<lambda>r.
             kseq (set_tf p A0 (word_of_int r))
            (kbind (get_tf p A0) (\<lambda>a0. if a0 = -1 then kpanic ''exec'' else kret ())))))))
    (kseq prepare_return
          (kget (\<lambda>s. (MAKE_SATP (p_pagetable (ptab s p)), TRAMPOLINE + (ld_userret s - ld_trampoline s))))))))"

section \<open>Booting\<close>

definition timerinit :: "('z board_scheme, unit) kop" where
  "timerinit =
     kbind r_mie (\<lambda>x. kseq (w_mie (x OR MIE_STIE))
    (kbind r_menvcfg (\<lambda>x. kseq (w_menvcfg (x OR push_bit 63 1))
    (kbind r_mcounteren (\<lambda>x. kseq (w_mcounteren (x OR 2))
    (kbind r_time (\<lambda>t. w_stimecmp (t + 1000000))))))))"

definition start :: "('z board_scheme, unit) kop" where
  "start =
     kbind r_mstatus (\<lambda>x.
     kseq (w_mstatus ((x AND NOT MSTATUS_MPP_MASK) OR MSTATUS_MPP_S))
    (kbind (kget ld_main) (\<lambda>main.
     kseq (w_mepc main)
    (kseq (w_satp 0)
    (kseq (w_medeleg 0xffff)
    (kseq (w_mideleg 0xffff)
    (kbind r_sie (\<lambda>x.
     kseq (w_sie (x OR SIE_SEIE OR SIE_STIE))
    (kseq (w_pmpaddr0 0x3fffffffffffff)
    (kseq (w_pmpcfg0 0xf)
    (kseq timerinit
    (kbind r_mhartid w_tp))))))))))))"

text \<open>
  \<open>main\<close>: the first hart initialises everything, the others wait for it. A hart that finds \<^verbatim>\<open>started\<close>
  zero keeps waiting, which is \<open>Diverge\<close>. Then each hart looks for a process to run.
\<close>

definition main_first :: "('z board_scheme, unit) kop" where
  "main_first =
     kseq consoleinit
    (kseq printfinit
    (kseq (printf [10] [])
    (kseq (printf (ascii ''xv6 kernel is booting'' @ [10]) [])
    (kseq (printf [10] [])
    (kseq kinit
    (kseq kvminit
    (kseq kvminithart
    (kseq procinit
    (kseq trapinit
    (kseq trapinithart
    (kseq plicinit
    (kseq plicinithart
    (kseq binit
    (kseq iinit
    (kseq fileinit
    (kseq virtio_disk_init
    (kseq userinit
          (kmod (\<lambda>s. s\<lparr>started := True\<rparr>)))))))))))))))))))"

definition main_other :: "('z board_scheme, unit) kop" where
  "main_other =
     kbind (kget started) (\<lambda>go.
     if \<not> go then (\<lambda>_. Diverge)
     else kbind (kget cpuid) (\<lambda>h.
          kseq (printf (ascii ''hart %d starting'' @ [10]) [VWord (of_nat h)])
         (kseq kvminithart
         (kseq trapinithart plicinithart))))"

definition main :: "('z board_scheme, nat option) kop" where
  "main = kbind (kget cpuid) (\<lambda>h. kseq (if h = 0 then main_first else main_other) scheduler_enter)"

end
