(* ===== verification/Sample.thy ===== *)
theory Sample
  imports Sysproc Commit
begin

text \<open>
  A concrete machine for the witnesses: hart 0 runs process 3, no lock is held, the buffer cache is
  empty, and the process table and physical memory are as given.
\<close>

definition sample_fsys :: fsys where
  "sample_fsys = logs.extend (sample_logs (\<lambda>_ _. 0))
     \<lparr>sb = \<lparr>sb_magic = FSMAGIC, sb_size = 2000, sb_nblocks = 1953, sb_ninodes = 200, sb_nlog = 30, sb_logstart = 2,
            sb_inodestart = 33, sb_bmapstart = 46\<rparr>,
      itable = (\<lambda>_. \<lparr>i_dev = 0, i_inum = 0, i_ref = 0, i_valid = False, i_d = blank_dinode 0\<rparr>)\<rparr>"

definition blank_file :: file_t where
  "blank_file = \<lparr>f_type = FD_NONE, f_ref = 0, f_readable = False, f_writable = False, f_pipe = 0, f_ip = None, f_off = 0, f_major = 0\<rparr>"

definition sample_clocked :: "(nat \<Rightarrow> proc) \<Rightarrow> mem \<Rightarrow> clocked" where
  "sample_clocked P m =
     files.extend (fsys.extend sample_fsys
       \<lparr>ftable = (\<lambda>_. blank_file),
        pipes = (\<lambda>_. \<lparr>pi_data = (\<lambda>_. 0), pi_nread = 0, pi_nwrite = 0, pi_readopen = True, pi_writeopen = True\<rparr>), junk = []\<rparr>)
       \<lparr>ticks = 0\<rparr>\<lparr>ptab := P, pmem := m\<rparr>"

lemmas sample_defs = sample_clocked_def sample_fsys_def sample_logs_def sample_bcache_def sample_sleepers_def sample_console_def sample_system_def
  proctab.defs console.defs sleepers.defs bcache.defs logs.defs fsys.defs files.defs

lemma sample_clocked_simps [simp]:
  "me (sample_clocked P m) = Some 3" "ptab (sample_clocked P m) = P" "pmem (sample_clocked P m) = m"
  "\<not> panicking (sample_clocked P m)" "\<not> panicked (sample_clocked P m)" "ticks (sample_clocked P m) = 0"
  "ftable (sample_clocked P m) = (\<lambda>_. blank_file)" "uart_out (sample_clocked P m) = []"
  by (simp_all add: sample_defs me_def)

lemma sample_quiet [simp]: "quiet (sample_clocked P m)"
  by (simp add: quiet_def sample_defs me_def cpu_ok_def lock_idle_def cpu_defs)

end
