(* ===== verification/Sandbox.thy ===== *)
theory Sandbox
  imports Sample
begin

text \<open>
  The filter on system calls: what \<open>syscall\<close> does with a call whose bit is set in the mask of the
  process. \<open>permits\<close> is the rule as \<^verbatim>\<open>interpose\<close> sets it up: the call is not masked, or it is
  \<^verbatim>\<open>interpose\<close> itself, or it opens or executes exactly the allowed path.
\<close>

section \<open>Reading user strings changes nothing\<close>

definition reads_only :: "('s, 'a) kop \<Rightarrow> bool" where
  "reads_only m \<longleftrightarrow> (\<forall>s x t. m s = Done x t \<longrightarrow> t = s)"

lemma reads_only_bind: "reads_only m \<Longrightarrow> (\<And>x. reads_only (g x)) \<Longrightarrow> reads_only (kbind m g)"
  unfolding reads_only_def kbind_eq_Done by metis

lemma reads_only_base: "reads_only (kret x)" "reads_only (kget f)" "reads_only (kpanic e)" "reads_only (\<lambda>_. Diverge)"
  by (auto simp: reads_only_def)

lemmas reads_only_intros = reads_only_base reads_only_bind

lemma walk_levels_reads: "reads_only (walk_levels l pt va False)"
  by (induction l arbitrary: pt) (auto simp: Let_def intro!: reads_only_intros)

lemma walkaddr_reads: "reads_only (walkaddr pt va)"
  unfolding walkaddr_def walk_def by (auto intro!: reads_only_intros walk_levels_reads)

lemma copyinstr_reads: "reads_only (copyinstr pt va mx)"
proof -
  have "reads_only (copyinstr_loop k pt va mx)" for k va mx
    by (induction k arbitrary: va mx) (auto simp: Let_def split: prod.split intro!: reads_only_intros walkaddr_reads)
  then show ?thesis unfolding copyinstr_def .
qed

lemma tf_val_relock [simp]: "tf_val (relock s) p r = tf_val s p r"
  by (simp add: tf_val_def)

lemma argstr_reads:
  assumes "me s = Some p" "cpu_ok s" "n \<le> 5" "argstr n mx s = Done x t"
  shows "t = relock s"
proof -
  have "\<exists>r. argraw n s = Done (tf_val s p r) (relock s)"
    using assms(1-3) by (auto simp: argraw_def with_myproc_eval get_tf_def)
  then obtain a where "argraw n s = Done a (relock s)" by blast
  then have "kbind (copyinstr (p_pagetable (ptab s p)) a mx) (\<lambda>(r, bs).
      if r < 0 then kret (-1, bs) else kret (int (length (text_of bs)), bs)) (relock s) = Done x t"
    using assms by (simp add: argstr_def argaddr_def fetchstr_def with_myproc_eval [of _ p])
  then show ?thesis using copyinstr_reads [of "p_pagetable (ptab s p)" a mx]
    by (auto simp: kbind_eq_Done reads_only_def split: if_splits)
qed

section \<open>The filter\<close>

definition masked :: "proc \<Rightarrow> int \<Rightarrow> bool" where
  "masked q num \<longleftrightarrow> num \<noteq> SYS_interpose \<and> p_mask q AND push_bit (nat num) 1 \<noteq> 0"

definition by_path :: "int \<Rightarrow> bool" where
  "by_path num \<longleftrightarrow> num = SYS_open \<or> num = SYS_exec"

text \<open>What a refused call does: a line on the console and -1 in \<^verbatim>\<open>a0\<close>.\<close>

definition refused :: "nat \<Rightarrow> uchar list \<Rightarrow> int \<Rightarrow> 'z console_scheme \<Rightarrow> 'z console_scheme" where
  "refused p msg num s =
     (let q = ptab s p;
          out = format msg [VWord (word_of_int (p_pid q)), VStr (Some (cstr_list (p_name q) 16)), VWord (word_of_int num)]
      in relock ((printed out s)\<lparr>pmem := write64 (pmem s) (p_trapframe q + tf_offset A0) (-1)\<rparr>))"

lemma refuse_eval:
  assumes "quiet s" "\<not> panicking s" "\<not> panicked s"
  shows "refuse p msg num s = Done () (refused p msg num s)"
proof -
  have "ptab (printed cs s) = ptab s" "pmem (printed cs s) = pmem s" for cs by (simp_all add: printed_def)
  then show ?thesis using assms printf_eval [of s] by (simp add: refuse_def refused_def set_tf_def Let_def)
qed

lemma refused_relock [simp]: "refused p msg num (relock s) = refused p msg num s"
proof -
  have "pmem (printed cs s) = pmem s" for cs by (simp add: printed_def)
  then show ?thesis by (simp add: refused_def Let_def)
qed

lemma str_of_holds: "0 \<notin> set xs \<Longrightarrow> holds_str (str_of xs) xs"
  by (simp add: holds_str_def str_of_def)

lemma text_of_no_nul: "0 \<notin> set (text_of bs)"
  by (auto simp: text_of_def dest: set_takeWhileD)

lemma path_matches:
  assumes "holds_str a ys" "length ys < MAXPATH"
  shows "strncmp (str_of (text_of bs)) a MAXPATH = 0 \<longleftrightarrow> text_of bs = ys"
proof -
  have "strncmp (str_of (text_of bs)) a MAXPATH = 0 \<longleftrightarrow> take MAXPATH (text_of bs) = ys"
    using strncmp_same [OF str_of_holds [OF text_of_no_nul] assms(1)] assms(2) by simp
  also have "\<dots> \<longleftrightarrow> text_of bs = ys"
    using assms(2) by (metis length_take min.strict_order_iff min_def not_less take_all_iff)
  finally show ?thesis .
qed

section \<open>Properties\<close>

text \<open>
  C3. The sandbox: a system call whose bit is set in the mask of the process never reaches its handler,
  except \<^verbatim>\<open>interpose\<close> itself, and except \<^verbatim>\<open>open\<close> and \<^verbatim>\<open>exec\<close> of exactly the allowed path; it only
  prints a line and returns -1. Every other call goes to its handler, whose result is returned in \<^verbatim>\<open>a0\<close>.
\<close>

theorem syscall_sandboxed:
  fixes s :: "'z clocked_scheme" and p :: nat
  defines "num \<equiv> sint (ucast (tf_val s p A7) :: uint)"
  assumes "quiet s" "\<not> panicking s" "\<not> panicked s" "me s = Some p" "syscalls num = Some f"
    "holds_str (p_allowed_path (ptab s p)) ys" "length ys < MAXPATH"
  shows "if \<not> masked (ptab s p) num then syscall s = kbind f (set_tf p A0) (relock s)
    else if \<not> by_path num \<or> ys = [] then syscall s = Done () (refused p blocked_msg num s)
    else \<forall>n path t. argstr 0 MAXPATH s = Done (n, path) t \<longrightarrow>
      syscall s = (if 0 \<le> n \<and> text_of path = ys then kbind f (set_tf p A0) (relock s)
                   else Done () (refused p blocked_msg num s))"
proof -
  have cpu: "cpu_ok s" using assms(2) by simp
  have empty: "p_allowed_path (ptab s p) 0 = 0 \<longleftrightarrow> ys = []"
    using assms(7) by (cases ys) (auto simp: holds_str_def)
  have ref: "refuse p blocked_msg num (relock s) = Done () (refused p blocked_msg num s)"
    using refuse_eval [of "relock s"] assms(2-4) by simp
  have run: "syscall s =
     (if masked (ptab s p) num
      then if by_path num \<and> ys \<noteq> []
           then kbind (argstr 0 MAXPATH) (\<lambda>(n, path).
                if 0 \<le> n \<and> strncmp (str_of (text_of path)) (p_allowed_path (ptab s p)) MAXPATH = 0
                then kbind f (set_tf p A0) else refuse p blocked_msg num) (relock s)
           else refuse p blocked_msg num (relock s)
      else kbind f (set_tf p A0) (relock s))"
    using cpu assms(5,6) empty
    by (simp add: syscall_def with_myproc_eval [of _ p] get_tf_def Let_def num_def masked_def by_path_def del: kseq_eval cong: if_cong)
  have arg: "argstr 0 MAXPATH (relock s) = argstr 0 MAXPATH s"
    using cpu assms(5) by (simp add: argstr_def argaddr_def argraw_def with_myproc_eval [of _ p] get_tf_def)
  show ?thesis
    using ref argstr_reads [OF assms(5) cpu, of 0 MAXPATH] path_matches [OF assms(7,8)]
    by (auto simp: run arg kbind_def)
qed

text \<open>Process 3 calls \<^verbatim>\<open>read\<close> (number 5) with bit 5 of its mask set.\<close>

theorem syscall_sandboxed_witness:
  "\<exists>s :: clocked. syscall s = Done () (refused 3 blocked_msg 5 s) \<and> tf_val (refused 3 blocked_msg 5 s) 3 A0 = -1"
proof -
  let ?q = "blank_proc\<lparr>p_state := RUNNING, p_trapframe := 0x80100000, p_mask := 32\<rparr>"
  let ?s = "sample_clocked ((\<lambda>_. blank_proc)(3 := ?q)) (write64 (\<lambda>_. 0) (0x80100000 + 168) 5)"
  have a7: "tf_val ?s 3 A7 = 5" by (simp add: tf_val_def del: add_numeral_left)
  have n: "sint (ucast (tf_val ?s 3 A7) :: uint) = 5" unfolding a7 by simp
  have call: "syscalls (5 :: int) = (Some sys_read :: (clocked, uint64) kop option)" by (simp add: syscalls_def sys_numbers)
  have m: "masked (ptab ?s 3) 5" "\<not> by_path 5" by (simp_all add: masked_def by_path_def sys_numbers)
  have "holds_str (p_allowed_path (ptab ?s 3)) []" by (simp add: holds_str_def blank_proc_def)
  then have "syscall ?s = Done () (refused 3 blocked_msg 5 ?s)"
    using syscall_sandboxed [of ?s 3 sys_read "[]"] m call unfolding n by (simp add: MAXPATH_def)
  moreover have "tf_val (refused 3 blocked_msg 5 ?s) 3 A0 = -1"
    by (simp add: refused_def Let_def tf_val_def printed_def)
  ultimately show ?thesis by blast
qed

end
