(* ===== verification/User.thy ===== *)
theory User
  imports Sysproc
begin

text \<open>
  What the user programs of \<^verbatim>\<open>user/\<close> share: how a program runs, and the library of
  \<^verbatim>\<open>user/ulib.c\<close> and \<^verbatim>\<open>user/printf.c\<close>.

  A program is a process that computes and makes system calls. The stubs that enter the kernel are
  generated assembly, so the calls are a parameter \<open>os\<close> of every program: a record with one
  function per stub of \<^verbatim>\<open>user/user.h\<close>, from the arguments and the world to the
  answer and the world after the call. The two returns of \<^verbatim>\<open>fork\<close> are two runs, in one of which
  the answer is 0. A run returns, exits, is replaced by another program, or uses up the fuel of a loop on input.

  Strings are lists of bytes without the final NUL; reading one at its end gives the NUL (\<open>nth0\<close>).
\<close>

section \<open>Runs of a user program\<close>

datatype ('w, 'a) urun = URet 'a 'w | UExit int 'w | UExec 'w | ULoop

type_synonym ('w, 'a) uop = "'w \<Rightarrow> ('w, 'a) urun"

definition uret :: "'a \<Rightarrow> ('w, 'a) uop" where
  "uret x w = URet x w"

definition uexit :: "int \<Rightarrow> ('w, 'a) uop" where
  "uexit st w = UExit st w"

definition ubind :: "('w, 'a) uop \<Rightarrow> ('a \<Rightarrow> ('w, 'b) uop) \<Rightarrow> ('w, 'b) uop" where
  "ubind m f w = (case m w of URet x v \<Rightarrow> f x v | UExit st v \<Rightarrow> UExit st v | UExec v \<Rightarrow> UExec v | ULoop \<Rightarrow> ULoop)"

definition useq :: "('w, 'a) uop \<Rightarrow> ('w, 'b) uop \<Rightarrow> ('w, 'b) uop" where
  "useq m n = ubind m (\<lambda>_. n)"

text \<open>A system call, as a step of the program.\<close>

definition ucall :: "('w \<Rightarrow> 'a \<times> 'w) \<Rightarrow> ('w, 'a) uop" where
  "ucall f w = (let (x, v) = f w in URet x v)"

text \<open>A system call whose answer is ignored.\<close>

definition udo :: "('w \<Rightarrow> 'a \<times> 'w) \<Rightarrow> ('w, unit) uop" where
  "udo f = useq (ucall f) (uret ())"

definition uwhen :: "bool \<Rightarrow> ('w, unit) uop \<Rightarrow> ('w, unit) uop" where
  "uwhen b m = (if b then m else uret ())"

fun ufor :: "'b list \<Rightarrow> ('b \<Rightarrow> ('w, unit) uop) \<Rightarrow> ('w, unit) uop" where
  "ufor [] f = uret ()"
| "ufor (x # xs) f = useq (f x) (ufor xs f)"

lemma urun_simps [simp]:
  "uret x w = URet x w" "uexit st w = UExit st w"
  "useq m n w = ubind m (\<lambda>_. n) w"
  "uwhen b p w = (if b then p w else URet () w)"
  by (simp_all add: uret_def uexit_def useq_def uwhen_def)

lemma ucall_eval [simp]: "f w = (x, v) \<Longrightarrow> ucall f w = URet x v"
  by (simp add: ucall_def)

lemma udo_eval [simp]: "udo f w = URet () (snd (f w))"
  by (simp add: udo_def ubind_def ucall_def split: prod.splits)

lemma ubind_eval [simp]:
  "m w = URet x v \<Longrightarrow> ubind m f w = f x v"
  "m w = UExit st v \<Longrightarrow> ubind m f w = UExit st v"
  "m w = UExec v \<Longrightarrow> ubind m f w = UExec v"
  "m w = ULoop \<Longrightarrow> ubind m f w = ULoop"
  by (simp_all add: ubind_def)

section \<open>System calls\<close>

text \<open>
  \<open>u_read\<close> gives the returned count and the bytes stored in the buffer, \<open>u_pipe\<close> the result and
  the two descriptors, \<open>u_fstat\<close> the result and the structure it fills in.
\<close>

record 'w os =
  u_fork :: "'w \<Rightarrow> int \<times> 'w"
  u_wait :: "'w \<Rightarrow> int \<times> 'w"
  u_pipe :: "'w \<Rightarrow> (int \<times> int \<times> int) \<times> 'w"
  u_write :: "int \<Rightarrow> uchar list \<Rightarrow> 'w \<Rightarrow> int \<times> 'w"
  u_read :: "int \<Rightarrow> nat \<Rightarrow> 'w \<Rightarrow> (int \<times> uchar list) \<times> 'w"
  u_close :: "int \<Rightarrow> 'w \<Rightarrow> int \<times> 'w"
  u_kill :: "int \<Rightarrow> 'w \<Rightarrow> int \<times> 'w"
  u_exec :: "uchar list \<Rightarrow> uchar list list \<Rightarrow> 'w \<Rightarrow> int \<times> 'w"
  u_open :: "uchar list \<Rightarrow> int \<Rightarrow> 'w \<Rightarrow> int \<times> 'w"
  u_mknod :: "uchar list \<Rightarrow> int \<Rightarrow> int \<Rightarrow> 'w \<Rightarrow> int \<times> 'w"
  u_unlink :: "uchar list \<Rightarrow> 'w \<Rightarrow> int \<times> 'w"
  u_fstat :: "int \<Rightarrow> 'w \<Rightarrow> (int \<times> stat) \<times> 'w"
  u_link :: "uchar list \<Rightarrow> uchar list \<Rightarrow> 'w \<Rightarrow> int \<times> 'w"
  u_mkdir :: "uchar list \<Rightarrow> 'w \<Rightarrow> int \<times> 'w"
  u_chdir :: "uchar list \<Rightarrow> 'w \<Rightarrow> int \<times> 'w"
  u_dup :: "int \<Rightarrow> 'w \<Rightarrow> int \<times> 'w"
  u_sbrk :: "int \<Rightarrow> int \<Rightarrow> 'w \<Rightarrow> uint64 \<times> 'w"
  u_pause :: "int \<Rightarrow> 'w \<Rightarrow> int \<times> 'w"
  u_interpose :: "int \<Rightarrow> uchar list \<Rightarrow> 'w \<Rightarrow> int \<times> 'w"

text \<open>\<^verbatim>\<open>exec\<close> returns only when it fails.\<close>

definition uexec :: "'w os \<Rightarrow> uchar list \<Rightarrow> uchar list list \<Rightarrow> ('w, unit) uop" where
  "uexec os path argv w = (let (r, v) = u_exec os path argv w in if r < 0 then URet () v else UExec v)"

section \<open>The library of ulib.c\<close>

text \<open>\<open>start\<close> calls \<^verbatim>\<open>main\<close> and exits with 0 if it returns.\<close>

definition ustart :: "('w, 'a) uop \<Rightarrow> ('w, unit) uop" where
  "ustart main = useq main (uexit 0)"

text \<open>\<open>strcpy\<close>: the bytes of the source and its NUL, over the destination.\<close>

definition strcpy :: "uchar list \<Rightarrow> uchar list \<Rightarrow> uchar list" where
  "strcpy s t = t @ [0] @ drop (length t + 1) s"

fun strcmp :: "uchar list \<Rightarrow> uchar list \<Rightarrow> int" where
  "strcmp (p # ps) (q # qs) = (if p = q then strcmp ps qs else uint p - uint q)"
| "strcmp p q = uint (nth0 p 0) - uint (nth0 q 0)"

text \<open>\<open>strchr\<close>: the offset of the first occurrence of the byte before the NUL; a search for the NUL itself fails.\<close>

fun strchr :: "uchar list \<Rightarrow> uchar \<Rightarrow> nat option" where
  "strchr [] c = None"
| "strchr (x # xs) c = (if x = 0 then None else if x = c then Some 0 else map_option Suc (strchr xs c))"

text \<open>The loop of \<open>gets\<close>: at most \<open>k\<close> more bytes, ending after a newline or a carriage return.\<close>

fun gets_loop :: "'w os \<Rightarrow> nat \<Rightarrow> ('w, uchar list) uop" where
  "gets_loop os 0 = uret []"
| "gets_loop os (Suc k) =
     ubind (ucall (u_read os 0 1)) (\<lambda>(cc, bs).
     if cc < 1 then uret []
     else let c = nth0 bs 0 in
          if c = 10 \<or> c = 13 then uret [c]
          else ubind (gets_loop os k) (\<lambda>rest. uret (c # rest)))"

definition gets :: "'w os \<Rightarrow> nat \<Rightarrow> ('w, uchar list) uop" where
  "gets os mx = gets_loop os (mx - 1)"

definition ustat :: "'w os \<Rightarrow> uchar list \<Rightarrow> ('w, int \<times> stat option) uop" where
  "ustat os n =
     ubind (ucall (u_open os n O_RDONLY)) (\<lambda>fd.
     if fd < 0 then uret (-1, None)
     else ubind (ucall (u_fstat os fd)) (\<lambda>(r, st).
          useq (udo (u_close os fd)) (uret (r, Some st))))"

text \<open>\<open>atoi\<close> computes in 32 bits.\<close>

fun atoi_loop :: "uint \<Rightarrow> uchar list \<Rightarrow> uint" where
  "atoi_loop n [] = n"
| "atoi_loop n (c # cs) = (if 48 \<le> c \<and> c \<le> 57 then atoi_loop (n * 10 + ucast c - 48) cs else n)"

definition atoi :: "uchar list \<Rightarrow> int" where
  "atoi s = sint (atoi_loop 0 s)"

text \<open>\<open>memset\<close> and \<open>memcmp\<close> have the loops of the kernel's.\<close>

definition u_memset :: "mem \<Rightarrow> uint64 \<Rightarrow> uint \<Rightarrow> uint \<Rightarrow> mem" where
  "u_memset m dst c n = memset_loop m dst (ucast c) 0 (unat n)"

definition u_memcmp :: "cstr \<Rightarrow> cstr \<Rightarrow> uint \<Rightarrow> int" where
  "u_memcmp s1 s2 n = memcmp s1 s2 (unat n)"

text \<open>\<open>memmove\<close> of the library compares the pointers only, and runs backwards unless the source is above.\<close>

definition u_memmove :: "mem \<Rightarrow> uint64 \<Rightarrow> uint64 \<Rightarrow> int \<Rightarrow> mem" where
  "u_memmove m vdst vsrc n =
     (if vsrc > vdst then move_fwd m vdst vsrc (nat n)
      else move_back m (vdst + word_of_int n) (vsrc + word_of_int n) (nat n))"

definition u_memcpy :: "mem \<Rightarrow> uint64 \<Rightarrow> uint64 \<Rightarrow> uint \<Rightarrow> mem" where
  "u_memcpy m dst src n = u_memmove m dst src (sint n)"

definition sbrk :: "'w os \<Rightarrow> int \<Rightarrow> ('w, uint64) uop" where
  "sbrk os n = ucall (u_sbrk os n SBRK_EAGER)"

definition sbrklazy :: "'w os \<Rightarrow> int \<Rightarrow> ('w, uint64) uop" where
  "sbrklazy os n = ucall (u_sbrk os n SBRK_LAZY)"

section \<open>The formatted output of printf.c\<close>

definition putc :: "'w os \<Rightarrow> int \<Rightarrow> uchar \<Rightarrow> ('w, unit) uop" where
  "putc os fd c = udo (u_write os fd [c])"

definition u_digit :: "nat \<Rightarrow> uchar" where
  "u_digit d = ascii ''0123456789ABCDEF'' ! d"

text \<open>The digits of \<open>printint\<close>, last one first. The 64-bit argument is kept in a 32-bit variable.\<close>

function u_digits :: "nat \<Rightarrow> nat \<Rightarrow> uchar list" where
  "u_digits base x =
     (if base < 2 \<or> x div base = 0 then [u_digit (x mod base)]
      else u_digit (x mod base) # u_digits base (x div base))"
  by auto
termination by (relation "measure snd") (auto intro!: div_less_dividend gr0I)

definition u_printint_chars :: "uint64 \<Rightarrow> nat \<Rightarrow> bool \<Rightarrow> uchar list" where
  "u_printint_chars xx base sg =
     (let neg = (sg \<and> sint xx < 0);
          x = ucast (if neg then - xx else xx) :: uint
      in rev (u_digits base (unat x) @ (if neg then ascii ''-'' else [])))"

definition u_printint :: "'w os \<Rightarrow> int \<Rightarrow> uint64 \<Rightarrow> nat \<Rightarrow> bool \<Rightarrow> ('w, unit) uop" where
  "u_printint os fd xx base sg = ufor (u_printint_chars xx base sg) (putc os fd)"

definition u_printptr_chars :: "uint64 \<Rightarrow> uchar list" where
  "u_printptr_chars x = ascii ''0x'' @ map (\<lambda>i. u_digit (unat (drop_bit 60 (push_bit (4 * i) x)))) [0..<16]"

text \<open>What one conversion prints, how many more characters of the format and how many arguments it uses.\<close>

definition u_convert :: "uchar \<Rightarrow> uchar \<Rightarrow> uchar \<Rightarrow> vararg list \<Rightarrow> uchar list \<times> nat \<times> nat" where
  "u_convert c0 c1 c2 ap =
     (let w = arg_word ap in
      if c0 = chr CHR ''d'' then (u_printint_chars (low32 w True) 10 True, 0, 1)
      else if c0 = chr CHR ''l'' \<and> c1 = chr CHR ''d'' then (u_printint_chars w 10 True, 1, 1)
      else if c0 = chr CHR ''l'' \<and> c1 = chr CHR ''l'' \<and> c2 = chr CHR ''d'' then (u_printint_chars w 10 True, 2, 1)
      else if c0 = chr CHR ''u'' then (u_printint_chars (low32 w False) 10 False, 0, 1)
      else if c0 = chr CHR ''l'' \<and> c1 = chr CHR ''u'' then (u_printint_chars w 10 False, 1, 1)
      else if c0 = chr CHR ''l'' \<and> c1 = chr CHR ''l'' \<and> c2 = chr CHR ''u'' then (u_printint_chars w 10 False, 2, 1)
      else if c0 = chr CHR ''x'' then (u_printint_chars (low32 w False) 16 False, 0, 1)
      else if c0 = chr CHR ''l'' \<and> c1 = chr CHR ''x'' then (u_printint_chars w 16 False, 1, 1)
      else if c0 = chr CHR ''l'' \<and> c1 = chr CHR ''l'' \<and> c2 = chr CHR ''x'' then (u_printint_chars w 16 False, 2, 1)
      else if c0 = chr CHR ''p'' then (u_printptr_chars w, 0, 1)
      else if c0 = chr CHR ''c'' then ([ucast w], 0, 1)
      else if c0 = chr CHR ''s'' then (arg_str ap, 0, 1)
      else if c0 = chr CHR ''%'' then ([chr CHR ''%''], 0, 0)
      else ([chr CHR ''%'', c0], 0, 0))"

function vprintf_chars :: "uchar list \<Rightarrow> vararg list \<Rightarrow> uchar list" where
  "vprintf_chars [] ap = []"
| "vprintf_chars (c # cs) ap =
     (if c \<noteq> chr CHR ''%'' then c # vprintf_chars cs ap
      else case cs of
             [] \<Rightarrow> []
           | c0 # cs' \<Rightarrow>
               let c1 = nth0 cs' 0; c2 = (if c1 \<noteq> 0 then nth0 cs' 1 else 0); (out, used, args) = u_convert c0 c1 c2 ap
               in out @ vprintf_chars (drop used cs') (drop args ap))"
  by pat_completeness auto
termination by (relation "measure (length \<circ> fst)") auto

definition fprintf :: "'w os \<Rightarrow> int \<Rightarrow> string \<Rightarrow> vararg list \<Rightarrow> ('w, unit) uop" where
  "fprintf os fd fmt ap = ufor (vprintf_chars (ascii fmt) ap) (putc os fd)"

definition u_printf :: "'w os \<Rightarrow> string \<Rightarrow> vararg list \<Rightarrow> ('w, unit) uop" where
  "u_printf os fmt ap = fprintf os 1 fmt ap"

section \<open>Input and output as streams\<close>

text \<open>
  What the programs rely on when they copy a file: \<open>inp\<close> is what is still to be read from descriptor
  \<open>fd\<close> and \<open>out\<close> what was written to the standard output. A read for at least one byte gives some of
  the remaining input, and none only at its end; a write takes all of its bytes.
\<close>

definition streams :: "'w os \<Rightarrow> int \<Rightarrow> ('w \<Rightarrow> uchar list) \<Rightarrow> ('w \<Rightarrow> uchar list) \<Rightarrow> bool" where
  "streams os fd inp out \<longleftrightarrow>
     (\<forall>n w. 0 < n \<longrightarrow> (\<exists>k v. u_read os fd n w = ((int k, take k (inp w)), v) \<and> k \<le> n \<and> k \<le> length (inp w)
        \<and> (k = 0 \<longrightarrow> inp w = []) \<and> inp v = drop k (inp w) \<and> out v = out w))
   \<and> (\<forall>bs w. \<exists>v. u_write os 1 bs w = (int (length bs), v) \<and> out v = out w @ bs \<and> inp v = inp w)"

lemma streams_read:
  assumes "streams os fd inp out" "0 < n"
  obtains k v where "u_read os fd n w = ((int k, take k (inp w)), v)" "k \<le> n" "k \<le> length (inp w)"
    "k = 0 \<Longrightarrow> inp w = []" "inp v = drop k (inp w)" "out v = out w"
  using assms unfolding streams_def by meson

lemma streams_write:
  assumes "streams os fd inp out"
  obtains v where "u_write os 1 bs w = (int (length bs), v)" "out v = out w @ bs" "inp v = inp w"
  using assms unfolding streams_def by meson

text \<open>A world that is just such a pair of streams; every other call fails in it.\<close>

definition sample_os :: "(uchar list \<times> uchar list) os" where
  "sample_os =
     \<lparr>u_fork = Pair (-1), u_wait = Pair (-1), u_pipe = Pair (-1, 0, 0),
      u_write = (\<lambda>fd bs (i, out). (int (length bs), i, out @ bs)),
      u_read = (\<lambda>fd n (i, out). ((int (length (take n i)), take n i), drop n i, out)),
      u_close = (\<lambda>_. Pair (-1)), u_kill = (\<lambda>_. Pair (-1)), u_exec = (\<lambda>_ _. Pair (-1)), u_open = (\<lambda>_ _. Pair (-1)),
      u_mknod = (\<lambda>_ _ _. Pair (-1)), u_unlink = (\<lambda>_. Pair (-1)),
      u_fstat = (\<lambda>_. Pair (-1, \<lparr>st_dev = 0, st_ino = 0, st_type = 0, st_nlink = 0, st_size = 0\<rparr>)),
      u_link = (\<lambda>_ _. Pair (-1)), u_mkdir = (\<lambda>_. Pair (-1)), u_chdir = (\<lambda>_. Pair (-1)), u_dup = (\<lambda>_. Pair (-1)),
      u_sbrk = (\<lambda>_ _. Pair (-1)), u_pause = (\<lambda>_. Pair (-1)), u_interpose = (\<lambda>_ _. Pair (-1))\<rparr>"

lemma sample_streams: "streams sample_os fd fst snd"
proof -
  have "\<exists>k v. u_read sample_os fd n w = ((int k, take k (fst w)), v) \<and> k \<le> n \<and> k \<le> length (fst w)
      \<and> (k = 0 \<longrightarrow> fst w = []) \<and> fst v = drop k (fst w) \<and> snd v = snd w" if "0 < n" for n w
    using that by (intro exI [of _ "min n (length (fst w))"]) (cases w, auto simp: sample_os_def min_def)
  then show ?thesis by (auto simp: streams_def sample_os_def)
qed

section \<open>Numbers as printed\<close>

declare u_digits.simps [simp del]

lemma u_digit_decimal: "d < 10 \<Longrightarrow> u_digit d = digit_char d"
proof -
  have "\<forall>d \<in> set [0..<10]. u_digit d = digit_char d"
    by (simp add: upt_rec u_digit_def digit_char_def ascii_def)
  then show "d < 10 \<Longrightarrow> u_digit d = digit_char d" by simp
qed

lemma u_digits_decimal: "u_digits 10 x = printint_digits 10 x"
proof (induction x rule: less_induct)
  case (less x)
  show ?case
  proof (cases "x div 10 = 0")
    case True
    then show ?thesis by (subst u_digits.simps, subst printint_digits.simps) (simp add: u_digit_decimal)
  next
    case False
    then have "x div 10 < x" by (cases x) auto
    from less.IH [OF this] False show ?thesis
      by (subst u_digits.simps, subst printint_digits.simps) (simp add: u_digit_decimal)
  qed
qed

lemma decimal_no_sign: "hd (rev (printint_digits 10 n)) \<noteq> chr CHR ''-''"
  using printint_digits_chars [of 10 n] digit_char_all hd_in_set [of "rev (printint_digits 10 n)"] by auto

lemma unat_low_word: "unat (ucast (x :: uint64) :: uint) = unat x mod 2 ^ 32"
  by (simp add: unsigned_ucast_eq take_bit_eq_mod)

text \<open>
  C38. \<^verbatim>\<open>printint\<close> of the user library keeps its 64-bit argument in a 32-bit variable: what the decimal
  conversions print reads back as the argument modulo \<open>2 ^ 32\<close>, with the sign of the argument. So
  \<^verbatim>\<open>%lu\<close> and \<^verbatim>\<open>%ld\<close> are right exactly for magnitudes below \<open>2 ^ 32\<close>.
\<close>

theorem u_printint_low_word:
  "read_num 10 (u_printint_chars xx 10 False) = unat xx mod 2 ^ 32
   \<and> read_int (u_printint_chars xx 10 True) = (if sint xx < 0 then - (- sint xx mod 2 ^ 32) else sint xx mod 2 ^ 32)
   \<and> (read_num 10 (u_printint_chars xx 10 False) = unat xx \<longleftrightarrow> unat xx < 2 ^ 32)"
proof -
  have u: "read_num 10 (u_printint_chars xx 10 False) = unat xx mod 2 ^ 32"
    using read_num_printint [of 10 "unat xx mod 2 ^ 32"]
    by (simp add: u_printint_chars_def u_digits_decimal unat_low_word del: take_bit_eq_mod)
  have "read_int (u_printint_chars xx 10 True) = (if sint xx < 0 then - (- sint xx mod 2 ^ 32) else sint xx mod 2 ^ 32)"
  proof (cases "sint xx < 0")
    case True
    have "int (unat (- xx) mod 2 ^ 32) = - sint xx mod 2 ^ 32"
      using unat_neg_sint (1) [OF True] by (simp add: zmod_int)
    then show ?thesis using True read_num_printint [of 10 "unat (- xx) mod 2 ^ 32"]
      by (simp add: u_printint_chars_def u_digits_decimal unat_low_word read_int_def ascii_def chr_def)
  next
    case False
    have "int (unat xx mod 2 ^ 32) = sint xx mod 2 ^ 32"
      using unat_nonneg_sint [of xx] False by (simp add: zmod_int)
    then show ?thesis using False read_num_printint [of 10 "unat xx mod 2 ^ 32"] decimal_no_sign
      by (simp add: u_printint_chars_def u_digits_decimal unat_low_word read_int_def)
  qed
  moreover have "unat xx mod 2 ^ 32 = unat xx \<longleftrightarrow> unat xx < 2 ^ 32"
    by (metis mod_less mod_less_divisor zero_less_numeral zero_less_power)
  ultimately show ?thesis using u by simp
qed

end
