(* ===== verification/Grep.thy ===== *)
theory Grep
  imports User
begin

text \<open>
  \<^verbatim>\<open>user/grep.c\<close>: the regular expression matcher and the loop that prints the matching
  lines of a file. The matcher is proved equal to the language of the pattern, and the loop to a filter
  on the lines of its input, however the reads cut that input into pieces.
\<close>

section \<open>The matcher\<close>

function matchhere :: "uchar list \<Rightarrow> uchar list \<Rightarrow> bool"
  and matchstar :: "uchar \<Rightarrow> uchar list \<Rightarrow> uchar list \<Rightarrow> bool" where
  "matchhere re line =
     (if nth0 re 0 = 0 then True
      else if nth0 re 1 = chr CHR ''*'' then matchstar (nth0 re 0) (drop 2 re) line
      else if nth0 re 0 = chr CHR ''$'' \<and> nth0 re 1 = 0 then nth0 line 0 = 0
      else if nth0 line 0 \<noteq> 0 \<and> (nth0 re 0 = chr CHR ''.'' \<or> nth0 re 0 = nth0 line 0)
      then matchhere (drop 1 re) (drop 1 line)
      else False)"
| "matchstar c re line =
     (if matchhere re line then True
      else if nth0 line 0 \<noteq> 0 \<and> (nth0 line 0 = c \<or> c = chr CHR ''.'') then matchstar c re (drop 1 line)
      else False)"
  by pat_completeness auto
termination
  by (relation "inv_image (less_than <*lex*> less_than <*lex*> less_than)
        (case_sum (\<lambda>(re, line). (length re, length line, 0)) (\<lambda>(c, re, line). (length re, length line, 1 :: nat)))")
     (auto simp: nth0_def split: if_splits)

text \<open>The loop of \<open>match\<close> tries every suffix of the text, the empty one included.\<close>

fun match_from :: "uchar list \<Rightarrow> uchar list \<Rightarrow> bool" where
  "match_from re [] = matchhere re []"
| "match_from re (c # line) = (matchhere re (c # line) \<or> (c \<noteq> 0 \<and> match_from re line))"

definition match :: "uchar list \<Rightarrow> uchar list \<Rightarrow> bool" where
  "match re line = (if nth0 re 0 = chr CHR ''^'' then matchhere (drop 1 re) line else match_from re line)"

section \<open>The program\<close>

text \<open>
  The inner loop: \<open>p\<close> is what is left of the buffer. A line that matches is written with its newline;
  the result is the incomplete line at the end, which \<^verbatim>\<open>memmove\<close> puts in front.
\<close>

lemma strchr_less: "strchr xs c = Some k \<Longrightarrow> k < length xs"
  by (induction xs arbitrary: k) (auto split: if_splits)

function grep_lines :: "'w os \<Rightarrow> uchar list \<Rightarrow> uchar list \<Rightarrow> ('w, uchar list) uop" where
  "grep_lines os pattern p =
     (case strchr p 10 of
        None \<Rightarrow> uret p
      | Some q \<Rightarrow>
          useq (uwhen (match pattern (take q p)) (udo (u_write os 1 (take (Suc q) p))))
               (grep_lines os pattern (drop (Suc q) p)))"
  by pat_completeness auto
termination
  by (relation "measure (\<lambda>(os, pattern, p). length p)") (auto dest: strchr_less)

text \<open>
  The outer loop, with fuel for the number of reads: \<open>m\<close> is the incomplete line at the start of the
  buffer of 1024 bytes, one of which is kept for the NUL.
\<close>

fun grep_loop :: "nat \<Rightarrow> 'w os \<Rightarrow> uchar list \<Rightarrow> int \<Rightarrow> uchar list \<Rightarrow> ('w, unit) uop" where
  "grep_loop 0 os pattern fd m = (\<lambda>w. ULoop)"
| "grep_loop (Suc fuel) os pattern fd m =
     ubind (ucall (u_read os fd (1024 - length m - 1))) (\<lambda>(n, bs).
     if n > 0
     then ubind (grep_lines os pattern (m @ take (nat n) bs)) (grep_loop fuel os pattern fd)
     else uret ())"

definition grep :: "nat \<Rightarrow> 'w os \<Rightarrow> uchar list \<Rightarrow> int \<Rightarrow> ('w, unit) uop" where
  "grep fuel os pattern fd = grep_loop fuel os pattern fd []"

fun grep_main :: "nat \<Rightarrow> 'w os \<Rightarrow> uchar list list \<Rightarrow> ('w, unit) uop" where
  "grep_main fuel os (prog # pattern # files) =
     (if files = [] then useq (grep fuel os pattern 0) (uexit 0)
      else useq (ufor files (\<lambda>f.
             ubind (ucall (u_open os f O_RDONLY)) (\<lambda>fd.
             if fd < 0 then useq (u_printf os ''grep: cannot open %s\<newline>'' [VStr (Some f)]) (uexit 1)
             else useq (grep fuel os pattern fd) (udo (u_close os fd)))))
           (uexit 0))"
| "grep_main fuel os argv = useq (fprintf os 2 ''usage: grep pattern [file ...]\<newline>'' []) (uexit 1)"

section \<open>The language of a pattern\<close>

datatype item = One uchar | Star uchar

text \<open>A pattern after its optional circumflex: a list of items, and whether a final dollar ties the match to the end.\<close>

fun items :: "uchar list \<Rightarrow> item list \<times> bool" where
  "items [] = ([], False)"
| "items [c] = (if c = chr CHR ''$'' then ([], True) else ([One c], False))"
| "items (c # d # r) =
     (if d = chr CHR ''*'' then map_prod ((#) (Star c)) id (items r)
      else map_prod ((#) (One c)) id (items (d # r)))"

definition fits :: "uchar \<Rightarrow> uchar \<Rightarrow> bool" where
  "fits c x \<longleftrightarrow> c = chr CHR ''.'' \<or> c = x"

fun lang :: "item list \<Rightarrow> uchar list set" where
  "lang [] = {[]}"
| "lang (One c # is) = {x # w | x w. fits c x \<and> w \<in> lang is}"
| "lang (Star c # is) = {u @ w | u w. list_all (fits c) u \<and> w \<in> lang is}"

definition hits :: "uchar list \<Rightarrow> uchar list \<Rightarrow> bool" where
  "hits re line \<longleftrightarrow> (\<exists>a b. line = a @ b \<and> a \<in> lang (fst (items re)) \<and> (snd (items re) \<longrightarrow> b = []))"

lemma hits_Nil [simp]: "hits [] line"
  by (simp add: hits_def)

lemma hits_dollar [simp]: "hits [chr CHR ''$''] line \<longleftrightarrow> line = []"
  by (simp add: hits_def)

lemma hits_One:
  assumes "nth0 r 0 \<noteq> chr CHR ''*''" "\<not> (c = chr CHR ''$'' \<and> r = [])"
  shows "hits (c # r) line \<longleftrightarrow> (\<exists>x t. line = x # t \<and> fits c x \<and> hits r t)"
proof -
  have "items (c # r) = map_prod ((#) (One c)) id (items r)"
    using assms by (cases r) (auto simp: nth0_def)
  moreover have "(\<exists>a b. line = a @ b \<and> (\<exists>x w. a = x # w \<and> fits c x \<and> w \<in> L) \<and> Q b)
      \<longleftrightarrow> (\<exists>x t. line = x # t \<and> fits c x \<and> (\<exists>a b. t = a @ b \<and> a \<in> L \<and> Q b))" for L Q
    by (metis append_Cons)
  ultimately show ?thesis by (simp add: hits_def)
qed

lemma hits_Star:
  "hits (c # chr CHR ''*'' # r) line \<longleftrightarrow> (\<exists>u v. line = u @ v \<and> list_all (fits c) u \<and> hits r v)"
proof -
  have "(\<exists>a b. line = a @ b \<and> (\<exists>u w. a = u @ w \<and> list_all (fits c) u \<and> w \<in> L) \<and> Q b)
      \<longleftrightarrow> (\<exists>u v. line = u @ v \<and> list_all (fits c) u \<and> (\<exists>a b. v = a @ b \<and> a \<in> L \<and> Q b))" for L Q
    by (metis append.assoc)
  then show ?thesis by (simp add: hits_def)
qed

lemma star_step:
  "(\<exists>u v. x # t = u @ v \<and> list_all P u \<and> Q v) \<longleftrightarrow> Q (x # t) \<or> (P x \<and> (\<exists>u v. t = u @ v \<and> list_all P u \<and> Q v))"
proof
  assume "\<exists>u v. x # t = u @ v \<and> list_all P u \<and> Q v"
  then obtain u v where "x # t = u @ v" "list_all P u" "Q v" by blast
  then show "Q (x # t) \<or> (P x \<and> (\<exists>u v. t = u @ v \<and> list_all P u \<and> Q v))" by (cases u) auto
next
  assume "Q (x # t) \<or> (P x \<and> (\<exists>u v. t = u @ v \<and> list_all P u \<and> Q v))"
  then show "\<exists>u v. x # t = u @ v \<and> list_all P u \<and> Q v"
    by (metis append_Cons append_Nil list.pred_inject)
qed

declare matchhere.simps [simp del] matchstar.simps [simp del]

lemma matchhere_hits:
  "0 \<notin> set re \<Longrightarrow> 0 \<notin> set line \<Longrightarrow> matchhere re line = hits re line"
  "0 \<notin> set re \<Longrightarrow> 0 \<notin> set line \<Longrightarrow> matchstar c re line = (\<exists>u v. line = u @ v \<and> list_all (fits c) u \<and> hits re v)"
proof (induction re line and c re line rule: matchhere_matchstar.induct)
  case (1 re line)
  show ?case
  proof (cases re)
    case Nil
    then show ?thesis by (subst matchhere.simps) (simp add: nth0_def)
  next
    case c: (Cons c r)
    then have c0: "c \<noteq> 0" "0 \<notin> set r" using "1.prems" by auto
    show ?thesis
    proof (cases "nth0 r 0 = chr CHR ''*''")
      case True
      then obtain r' where r: "r = chr CHR ''*'' # r'" by (cases r) (auto simp: nth0_def chr_def)
      have "matchstar c r' line = (\<exists>u v. line = u @ v \<and> list_all (fits c) u \<and> hits r' v)"
        using "1.IH"(1) "1.prems" c r c0 by (simp add: nth0_def)
      then show ?thesis using c r c0 by (subst matchhere.simps) (simp add: nth0_def hits_Star)
    next
      case False
      show ?thesis
      proof (cases "c = chr CHR ''$'' \<and> r = []")
        case True
        then have "re = [chr CHR ''$'']" using c by simp
        moreover have "chr CHR ''$'' \<noteq> 0" "chr CHR ''*'' \<noteq> 0" by (simp_all add: chr_def)
        ultimately show ?thesis using "1.prems"(2)
          by (subst matchhere.simps) (cases line, auto simp: nth0_def)
      next
        case d: False
        have n1: "nth0 re 1 \<noteq> chr CHR ''*''" "nth0 re 1 = 0 \<longleftrightarrow> r = []"
          using False c c0 by (cases r; auto simp: nth0_def chr_def)+
        have "matchhere r (drop 1 line) = hits r (drop 1 line)"
          if "nth0 line 0 \<noteq> 0" "c = chr CHR ''.'' \<or> c = nth0 line 0"
        proof -
          have "0 \<notin> set (drop 1 line)" using "1.prems"(2) in_set_dropD by fast
          moreover have "nth0 re 0 = c" "drop 1 re = r" using c by (simp_all add: nth0_def)
          ultimately show ?thesis using "1.IH"(2) c0 d n1 that by simp
        qed
        then show ?thesis using c c0 d n1 "1.prems"(2) hits_One [of r c line] False
          by (subst matchhere.simps) (cases line, auto simp: nth0_def fits_def)
      qed
    qed
  qed
next
  case (2 c re line)
  have h: "matchhere re line = hits re line" using "2.IH"(1) "2.prems" by simp
  show ?case
  proof (cases line)
    case Nil
    then show ?thesis using h by (subst matchstar.simps) (simp add: nth0_def)
  next
    case (Cons x t)
    have "matchstar c re t = (\<exists>u v. t = u @ v \<and> list_all (fits c) u \<and> hits re v)" if "\<not> hits re line" "x = c \<or> c = chr CHR ''.''"
      using "2.IH"(2) "2.prems" h Cons that by (auto simp: nth0_def)
    then show ?thesis using h Cons "2.prems"(2) star_step [of x t "fits c" "hits re"]
      by (subst matchstar.simps) (auto simp: nth0_def fits_def)
  qed
qed

lemma match_from_hits:
  "0 \<notin> set re \<Longrightarrow> 0 \<notin> set line \<Longrightarrow> match_from re line \<longleftrightarrow> (\<exists>a b. line = a @ b \<and> hits re b)"
  by (induction line) (auto simp: matchhere_hits Cons_eq_append_conv)

text \<open>
  C32. The matcher of \<^verbatim>\<open>grep\<close> decides the language of its pattern: it accepts a line exactly
  when some part of the line is in the language of the pattern, at the start of the line if the
  pattern begins with a circumflex and at its end if it ends in a dollar. Its recursion always ends.
\<close>

theorem match_is_language:
  assumes "0 \<notin> set re" "0 \<notin> set line"
  defines "anchored \<equiv> nth0 re 0 = chr CHR ''^''"
  defines "body \<equiv> if anchored then drop 1 re else re"
  shows "match re line \<longleftrightarrow>
    (\<exists>before hit after. line = before @ hit @ after \<and> hit \<in> lang (fst (items body))
       \<and> (anchored \<longrightarrow> before = []) \<and> (snd (items body) \<longrightarrow> after = []))"
proof -
  have "0 \<notin> set body" using assms(1) in_set_dropD [of 0 1 re] by (auto simp: body_def)
  then have "match re line \<longleftrightarrow> (\<exists>a b. line = a @ b \<and> (anchored \<longrightarrow> a = []) \<and> hits body b)"
    using assms(2) match_from_hits [of body line] matchhere_hits(1) [of body line]
    unfolding match_def body_def anchored_def by (cases "nth0 re 0 = chr CHR ''^''") simp_all
  then show ?thesis unfolding hits_def by blast
qed

theorem match_is_language_witness:
  "match (ascii ''^a.*c$'') (ascii ''abbc'') \<and> \<not> match (ascii ''b*x'') (ascii ''abb'')"
proof -
  have l: "ascii ''abbc'' \<in> lang [One (chr CHR ''a''), Star (chr CHR ''.''), One (chr CHR ''c'')]"
    by (simp add: ascii_def chr_def fits_def)
  have x: "lang [Star (chr CHR ''b''), One (chr CHR ''x'')] \<subseteq> {h. chr CHR ''x'' \<in> set h}"
    by (auto simp: fits_def chr_def)
  have "match (ascii ''^a.*c$'') (ascii ''abbc'')"
    using match_is_language [of "ascii ''^a.*c$''" "ascii ''abbc''"] l
    by (simp add: ascii_def chr_def nth0_def)
  moreover have "\<not> match (ascii ''b*x'') (ascii ''abb'')"
    using match_is_language [of "ascii ''b*x''" "ascii ''abb''"] x
    by (auto simp: ascii_def chr_def nth0_def fits_def append_eq_Cons_conv Cons_eq_append_conv)
  ultimately show ?thesis by blast
qed

section \<open>The lines of the input\<close>

text \<open>The complete lines of a text without their newlines, and the incomplete line at its end.\<close>

fun lines_of :: "uchar list \<Rightarrow> uchar list list \<times> uchar list" where
  "lines_of [] = ([], [])"
| "lines_of (x # xs) =
     (case lines_of xs of (ls, r) \<Rightarrow>
        if x = 10 then ([] # ls, r)
        else case ls of [] \<Rightarrow> ([], x # r) | l # ls' \<Rightarrow> ((x # l) # ls', r))"

definition select :: "uchar list \<Rightarrow> uchar list list \<Rightarrow> uchar list" where
  "select pattern ls = concat (map (\<lambda>l. l @ [10]) (filter (match pattern) ls))"

lemma lines_of_line: "10 \<notin> set l \<Longrightarrow> lines_of (l @ 10 # xs) = (l # fst (lines_of xs), snd (lines_of xs))"
  by (induction l) (auto split: prod.splits)

lemma lines_of_rest: "10 \<notin> set l \<Longrightarrow> lines_of l = ([], l)"
  by (induction l) auto

lemma rest_no_newline: "10 \<notin> set (snd (lines_of xs))"
  by (induction xs) (auto split: prod.splits list.splits)

lemma newline_cut:
  assumes "0 \<notin> set p"
  shows "(strchr p 10 = None \<and> 10 \<notin> set p) \<or>
    (\<exists>q. strchr p 10 = Some q \<and> p = take q p @ 10 # drop (Suc q) p \<and> 10 \<notin> set (take q p))"
  using assms by (induction p) (auto split: if_splits)

lemma lines_of_append:
  "lines_of (a @ b) = (fst (lines_of a) @ fst (lines_of (snd (lines_of a) @ b)), snd (lines_of (snd (lines_of a) @ b)))"
proof (induction "length a" arbitrary: a rule: less_induct)
  case less
  show ?case
  proof (cases "10 \<in> set a")
    case True
    then obtain l r where a: "a = l @ 10 # r" "10 \<notin> set l" by (metis split_list_first)
    have "lines_of (r @ b) = (fst (lines_of r) @ fst (lines_of (snd (lines_of r) @ b)), snd (lines_of (snd (lines_of r) @ b)))"
      by (rule less) (simp add: a)
    with a show ?thesis by (simp add: lines_of_line)
  qed (simp add: lines_of_rest)
qed

lemma pending_short:
  assumes "10 \<notin> set m" "\<forall>l \<in> set (fst (lines_of (m @ b))). length l < k" "length (snd (lines_of (m @ b))) < k"
  shows "length m < k"
proof (cases "10 \<in> set b")
  case True
  then obtain l r where b: "b = l @ 10 # r" "10 \<notin> set l" by (metis split_list_first)
  then have "m @ l \<in> set (fst (lines_of (m @ b)))" using assms(1) lines_of_line [of "m @ l" r] by simp
  with assms(2) show ?thesis by fastforce
next
  case False
  then have "lines_of (m @ b) = ([], m @ b)" using assms(1) by (intro lines_of_rest) simp
  with assms(3) show ?thesis by simp
qed

declare grep_lines.simps [simp del]

lemma grep_lines_selects:
  assumes "streams os fd inp out" "0 \<notin> set p"
  shows "\<exists>v. grep_lines os pattern p w = URet (snd (lines_of p)) v
    \<and> out v = out w @ select pattern (fst (lines_of p)) \<and> inp v = inp w"
  using assms(2)
proof (induction "length p" arbitrary: p w rule: less_induct)
  case less
  show ?case
  proof (cases "strchr p 10")
    case None
    then have "10 \<notin> set p" using newline_cut [OF less.prems] by simp
    then show ?thesis using None by (subst grep_lines.simps) (simp add: lines_of_rest select_def)
  next
    case (Some q)
    then have p: "p = take q p @ 10 # drop (Suc q) p" "10 \<notin> set (take q p)"
      using newline_cut [OF less.prems] by auto
    then have l: "lines_of p = (take q p # fst (lines_of (drop (Suc q) p)), snd (lines_of (drop (Suc q) p)))"
      using lines_of_line by metis
    obtain v where v: "u_write os 1 (take (Suc q) p) w = (int (length (take (Suc q) p)), v)"
      "out v = out w @ take (Suc q) p" "inp v = inp w" using streams_write [OF assms(1)] .
    have q: "q < length p" using Some by (rule strchr_less)
    have nl: "p ! q = 10" using p(1) q by (metis length_take min.absorb4 nth_append_length)
    have "0 \<notin> set (drop (Suc q) p)" using less.prems in_set_dropD by fast
    then have "\<exists>u. grep_lines os pattern (drop (Suc q) p) w' = URet (snd (lines_of (drop (Suc q) p))) u
      \<and> out u = out w' @ select pattern (fst (lines_of (drop (Suc q) p))) \<and> inp u = inp w'" for w'
      using less.hyps [of "drop (Suc q) p"] q by simp
    from this [of w] this [of v] show ?thesis
      using Some v nl l q by (subst grep_lines.simps) (auto simp: select_def ubind_def take_Suc_conv_app_nth)
  qed
qed

lemma grep_loop_selects:
  assumes "streams os fd inp out"
  shows "length (inp w) < fuel \<Longrightarrow> 0 \<notin> set (m @ inp w) \<Longrightarrow> 10 \<notin> set m
    \<Longrightarrow> \<forall>l \<in> set (fst (lines_of (m @ inp w))). length l < 1023 \<Longrightarrow> length (snd (lines_of (m @ inp w))) < 1023
    \<Longrightarrow> \<exists>v. grep_loop fuel os pattern fd m w = URet () v \<and> inp v = []
          \<and> out v = out w @ select pattern (fst (lines_of (m @ inp w)))"
proof (induction fuel arbitrary: m w)
  case (Suc fuel)
  have room: "0 < 1024 - length m - 1" using pending_short [OF Suc.prems(3-5)] by simp
  obtain k v where r: "u_read os fd (1024 - length m - 1) w = ((int k, take k (inp w)), v)" "k \<le> length (inp w)"
    "k = 0 \<Longrightarrow> inp w = []" "inp v = drop k (inp w)" "out v = out w"
    using streams_read [OF assms room] by metis
  show ?case
  proof (cases "k = 0")
    case True
    then show ?thesis using r Suc.prems(3) by (simp add: lines_of_rest select_def)
  next
    case False
    let ?p = "m @ take k (inp w)"
    have split: "lines_of (m @ inp w) = (fst (lines_of ?p) @ fst (lines_of (snd (lines_of ?p) @ inp v)), snd (lines_of (snd (lines_of ?p) @ inp v)))"
      using lines_of_append [of ?p "inp v"] r(4) by simp
    have z: "0 \<notin> set ?p" using Suc.prems(2) in_set_takeD by fastforce
    obtain u where u: "grep_lines os pattern ?p v = URet (snd (lines_of ?p)) u"
      "out u = out v @ select pattern (fst (lines_of ?p))" "inp u = inp v"
      using grep_lines_selects [OF assms z] by blast
    have "set (snd (lines_of xs)) \<subseteq> set xs" for xs
      by (induction xs) (auto split: prod.splits list.splits if_splits)
    then have "0 \<notin> set (snd (lines_of ?p) @ inp u)"
      using z Suc.prems(2) u(3) r(4) in_set_dropD by fastforce
    moreover have "length (inp u) < fuel" using False r(2,4) u(3) Suc.prems(1) by simp
    ultimately obtain t where "grep_loop fuel os pattern fd (snd (lines_of ?p)) u = URet () t" "inp t = []"
      "out t = out u @ select pattern (fst (lines_of (snd (lines_of ?p) @ inp u)))"
      using Suc.IH [of u "snd (lines_of ?p)"] Suc.prems(4,5) split u(3) rest_no_newline by auto
    then show ?thesis using False r u split by (auto simp: select_def)
  qed
qed simp

text \<open>
  C33. \<^verbatim>\<open>grep\<close> prints the matching lines: when every line of the input fits in its buffer, the loop
  ends, consumes the whole input, and writes exactly the complete lines the matcher accepts, in order
  and with their newlines, however the reads cut the input into pieces. One read per byte and one at
  the end of the input are enough.
\<close>

theorem grep_prints_matches:
  assumes "streams os fd inp out" "0 \<notin> set (inp w)" "length (inp w) < fuel"
    "\<forall>l \<in> set (fst (lines_of (inp w))). length l < 1023" "length (snd (lines_of (inp w))) < 1023"
  shows "\<exists>v. grep fuel os pattern fd w = URet () v \<and> inp v = []
    \<and> out v = out w @ concat (map (\<lambda>l. l @ [10]) (filter (match pattern) (fst (lines_of (inp w)))))"
  using grep_loop_selects [OF assms(1), of w fuel "[]" pattern] assms(2-5) by (simp add: grep_def select_def)

theorem grep_prints_matches_witness:
  "\<exists>v. grep 20 sample_os (ascii ''^b'') 0 (ascii ''ab\<newline>bc\<newline>b'', []) = URet () v \<and> snd v = ascii ''bc\<newline>''"
proof -
  have "match (ascii ''^b'') (ascii ''bc'')" "\<not> match (ascii ''^b'') (ascii ''ab'')"
    by (simp_all add: match_def matchhere.simps nth0_def ascii_def chr_def)
  then show ?thesis
    using grep_prints_matches [OF sample_streams [of 0], of "(ascii ''ab\<newline>bc\<newline>b'', [])" 20 "ascii ''^b''"]
    by (simp add: ascii_def)
qed

end
