(* ===== verification/Tools.thy ===== *)
theory Tools
  imports Grep
begin

text \<open>
  The small programs of \<^verbatim>\<open>user/\<close>: \<^verbatim>\<open>cat\<close>, \<^verbatim>\<open>wc\<close>, \<^verbatim>\<open>echo\<close>, \<^verbatim>\<open>kill\<close>, \<^verbatim>\<open>ln\<close>, \<^verbatim>\<open>mkdir\<close>, \<^verbatim>\<open>rm\<close>, \<^verbatim>\<open>sleep\<close>,
  \<^verbatim>\<open>sandbox\<close>, \<^verbatim>\<open>zombie\<close>, \<^verbatim>\<open>secret\<close>, \<^verbatim>\<open>dorphan\<close>, \<^verbatim>\<open>forphan\<close>, \<^verbatim>\<open>init\<close> and \<^verbatim>\<open>sixfive\<close>. A loop that reads until the
  end of its input, or waits for ever, has fuel. \<^verbatim>\<open>cat\<close> is proved to copy its input and \<^verbatim>\<open>wc\<close> to count what
  the definitions of line and word say, for any division of the input into reads.
\<close>

section \<open>cat\<close>

fun cat_loop :: "nat \<Rightarrow> 'w os \<Rightarrow> int \<Rightarrow> ('w, unit) uop" where
  "cat_loop 0 os fd = (\<lambda>w. ULoop)"
| "cat_loop (Suc fuel) os fd =
     ubind (ucall (u_read os fd 512)) (\<lambda>(n, bs).
     if n > 0
     then ubind (ucall (u_write os 1 (take (nat n) bs))) (\<lambda>r.
          if r \<noteq> n then useq (fprintf os 2 ''cat: write error\<newline>'' []) (uexit 1)
          else cat_loop fuel os fd)
     else if n < 0 then useq (fprintf os 2 ''cat: read error\<newline>'' []) (uexit 1)
     else uret ())"

definition cat_main :: "nat \<Rightarrow> 'w os \<Rightarrow> uchar list list \<Rightarrow> ('w, unit) uop" where
  "cat_main fuel os argv =
     (if length argv \<le> 1 then useq (cat_loop fuel os 0) (uexit 0)
      else useq (ufor (tl argv) (\<lambda>f.
             ubind (ucall (u_open os f O_RDONLY)) (\<lambda>fd.
             if fd < 0 then useq (fprintf os 2 ''cat: cannot open %s\<newline>'' [VStr (Some f)]) (uexit 1)
             else useq (cat_loop fuel os fd) (udo (u_close os fd)))))
           (uexit 0))"

section \<open>wc\<close>

record counts =
  wc_l :: uint
  wc_w :: uint
  wc_c :: uint
  inword :: bool

definition wc_byte :: "counts \<Rightarrow> uchar \<Rightarrow> counts" where
  "wc_byte k b =
     (let k = k\<lparr>wc_c := wc_c k + 1\<rparr>;
          k = (if b = 10 then k\<lparr>wc_l := wc_l k + 1\<rparr> else k)
      in if strchr (ascii '' '' @ [13, 9, 10, 11]) b \<noteq> None then k\<lparr>inword := False\<rparr>
         else if \<not> inword k then k\<lparr>wc_w := wc_w k + 1, inword := True\<rparr>
         else k)"

fun wc_loop :: "nat \<Rightarrow> 'w os \<Rightarrow> int \<Rightarrow> counts \<Rightarrow> ('w, int \<times> counts) uop" where
  "wc_loop 0 os fd k = (\<lambda>w. ULoop)"
| "wc_loop (Suc fuel) os fd k =
     ubind (ucall (u_read os fd 512)) (\<lambda>(n, bs).
     if n > 0 then wc_loop fuel os fd (foldl wc_byte k (take (nat n) bs)) else uret (n, k))"

definition wc :: "nat \<Rightarrow> 'w os \<Rightarrow> int \<Rightarrow> uchar list \<Rightarrow> ('w, unit) uop" where
  "wc fuel os fd name =
     ubind (wc_loop fuel os fd \<lparr>wc_l = 0, wc_w = 0, wc_c = 0, inword = False\<rparr>) (\<lambda>(n, k).
     if n < 0 then useq (u_printf os ''wc: read error\<newline>'' []) (uexit 1)
     else u_printf os ''%d %d %d %s\<newline>'' [VWord (ucast (wc_l k)), VWord (ucast (wc_w k)), VWord (ucast (wc_c k)), VStr (Some name)])"

definition wc_main :: "nat \<Rightarrow> 'w os \<Rightarrow> uchar list list \<Rightarrow> ('w, unit) uop" where
  "wc_main fuel os argv =
     (if length argv \<le> 1 then useq (wc fuel os 0 []) (uexit 0)
      else useq (ufor (tl argv) (\<lambda>f.
             ubind (ucall (u_open os f O_RDONLY)) (\<lambda>fd.
             if fd < 0 then useq (u_printf os ''wc: cannot open %s\<newline>'' [VStr (Some f)]) (uexit 1)
             else useq (wc fuel os fd f) (udo (u_close os fd)))))
           (uexit 0))"

section \<open>Programs without input\<close>

fun echo_args :: "'w os \<Rightarrow> uchar list list \<Rightarrow> ('w, unit) uop" where
  "echo_args os [] = uret ()"
| "echo_args os (a # as) =
     useq (udo (u_write os 1 a))
    (useq (udo (u_write os 1 (if as \<noteq> [] then ascii '' '' else [10])))
          (echo_args os as))"

definition echo_main :: "'w os \<Rightarrow> uchar list list \<Rightarrow> ('w, unit) uop" where
  "echo_main os argv = useq (echo_args os (tl argv)) (uexit 0)"

definition kill_main :: "'w os \<Rightarrow> uchar list list \<Rightarrow> ('w, unit) uop" where
  "kill_main os argv =
     (if length argv < 2 then useq (fprintf os 2 ''usage: kill pid...\<newline>'' []) (uexit 1)
      else useq (ufor (tl argv) (\<lambda>a. udo (u_kill os (atoi a)))) (uexit 0))"

definition ln_main :: "'w os \<Rightarrow> uchar list list \<Rightarrow> ('w, unit) uop" where
  "ln_main os argv =
     (if length argv \<noteq> 3 then useq (fprintf os 2 ''Usage: ln old new\<newline>'' []) (uexit 1)
      else ubind (ucall (u_link os (argv ! 1) (argv ! 2))) (\<lambda>r.
           useq (uwhen (r < 0) (fprintf os 2 ''link %s %s: failed\<newline>'' [VStr (Some (argv ! 1)), VStr (Some (argv ! 2))]))
                (uexit 0)))"

text \<open>\<open>mkdir\<close> and \<open>rm\<close> stop at the first argument that fails.\<close>

fun mkdir_args :: "'w os \<Rightarrow> uchar list list \<Rightarrow> ('w, unit) uop" where
  "mkdir_args os [] = uret ()"
| "mkdir_args os (a # as) =
     ubind (ucall (u_mkdir os a)) (\<lambda>r.
     if r < 0 then fprintf os 2 ''mkdir: %s failed to create\<newline>'' [VStr (Some a)] else mkdir_args os as)"

definition mkdir_main :: "'w os \<Rightarrow> uchar list list \<Rightarrow> ('w, unit) uop" where
  "mkdir_main os argv =
     (if length argv < 2 then useq (fprintf os 2 ''Usage: mkdir files...\<newline>'' []) (uexit 1)
      else useq (mkdir_args os (tl argv)) (uexit 0))"

fun rm_args :: "'w os \<Rightarrow> uchar list list \<Rightarrow> ('w, unit) uop" where
  "rm_args os [] = uret ()"
| "rm_args os (a # as) =
     ubind (ucall (u_unlink os a)) (\<lambda>r.
     if r < 0 then fprintf os 2 ''rm: %s failed to delete\<newline>'' [VStr (Some a)] else rm_args os as)"

definition rm_main :: "'w os \<Rightarrow> uchar list list \<Rightarrow> ('w, unit) uop" where
  "rm_main os argv =
     (if length argv < 2 then useq (fprintf os 2 ''Usage: rm files...\<newline>'' []) (uexit 1)
      else useq (rm_args os (tl argv)) (uexit 0))"

text \<open>\<open>my_atoi\<close> of \<^verbatim>\<open>sleep.c\<close> takes a minus sign (character 45) and computes in 32 bits.\<close>

definition my_atoi :: "uchar list \<Rightarrow> int" where
  "my_atoi s =
     (if nth0 s 0 = 45 then sint (atoi_loop 0 (drop 1 s) * (- 1)) else sint (atoi_loop 0 s * 1))"

definition sleep_main :: "'w os \<Rightarrow> uchar list list \<Rightarrow> ('w, unit) uop" where
  "sleep_main os argv =
     (if length argv \<noteq> 2 then useq (fprintf os 2 ''Usage: sleep <ticks>\<newline>'' []) (uexit 1)
      else let ticks = my_atoi (argv ! 1) in
           if ticks < 0 then useq (fprintf os 2 ''sleep: ticks must be non-negative\<newline>'' []) (uexit 1)
           else useq (udo (u_pause os ticks)) (uexit 0))"

definition sandbox_main :: "'w os \<Rightarrow> uchar list list \<Rightarrow> ('w, unit) uop" where
  "sandbox_main os argv =
     (if length argv < 4 then useq (fprintf os 2 ''usage: sandbox mask path command args...\<newline>'' []) (uexit 1)
      else useq (udo (u_interpose os (atoi (argv ! 1)) (argv ! 2)))
          (useq (uexec os (argv ! 3) (drop 3 argv))
          (useq (fprintf os 2 ''sandbox: exec failed\<newline>'' []) (uexit 1))))"

definition zombie_main :: "'w os \<Rightarrow> ('w, unit) uop" where
  "zombie_main os = ubind (ucall (u_fork os)) (\<lambda>pid. useq (uwhen (pid > 0) (udo (u_pause os 5))) (uexit 0))"

text \<open>\<open>secret\<close> also copies its argument into a local array, which it leaves on its stack.\<close>

definition secret_main :: "'w os \<Rightarrow> uchar list list \<Rightarrow> ('w, unit) uop" where
  "secret_main os argv =
     (if length argv < 2 then useq (u_printf os ''Usage: secret <secret>\<newline>'' []) (uexit 1)
      else useq (u_printf os ''Secret stored, exiting...\<newline>'' []) (uexit 0))"

text \<open>\<open>dorphan\<close> and \<open>forphan\<close> end in an endless loop of pauses.\<close>

fun pause_forever :: "nat \<Rightarrow> 'w os \<Rightarrow> ('w, unit) uop" where
  "pause_forever 0 os = (\<lambda>w. ULoop)"
| "pause_forever (Suc fuel) os = useq (udo (u_pause os 1000)) (pause_forever fuel os)"

definition dorphan_main :: "nat \<Rightarrow> 'w os \<Rightarrow> uchar list list \<Rightarrow> ('w, unit) uop" where
  "dorphan_main fuel os argv =
     (let s = VStr (Some (hd argv)) in
      ubind (ucall (u_mkdir os (ascii ''dd''))) (\<lambda>r.
      if r \<noteq> 0 then useq (u_printf os ''%s: mkdir dd failed\<newline>'' [s]) (uexit 1)
      else ubind (ucall (u_chdir os (ascii ''dd''))) (\<lambda>r.
      if r \<noteq> 0 then useq (u_printf os ''%s: chdir dd failed\<newline>'' [s]) (uexit 1)
      else ubind (ucall (u_unlink os (ascii ''../dd''))) (\<lambda>r.
      if r < 0 then useq (u_printf os ''%s: unlink failed\<newline>'' [s]) (uexit 1)
      else useq (u_printf os ''wait for kill and reclaim\<newline>'' []) (pause_forever fuel os)))))"

definition forphan_main :: "nat \<Rightarrow> 'w os \<Rightarrow> uchar list list \<Rightarrow> ('w, unit) uop" where
  "forphan_main fuel os argv =
     (let s = VStr (Some (hd argv)); ff = ascii ''file0'' in
      ubind (ucall (u_open os ff (O_CREATE OR O_WRONLY))) (\<lambda>fd.
      if fd < 0 then useq (u_printf os ''%s: open failed\<newline>'' [s]) (uexit 1)
      else ubind (ucall (u_fstat os fd)) (\<lambda>(r, st).
      if r < 0 then useq (fprintf os 2 ''%s: cannot stat %s\<newline>'' [s, VStr (Some (ascii ''ff''))]) (uexit 1)
      else ubind (ucall (u_unlink os ff)) (\<lambda>r.
      if r < 0 then useq (u_printf os ''%s: unlink failed\<newline>'' [s]) (uexit 1)
      else ubind (ucall (u_open os ff O_RDONLY)) (\<lambda>r.
      if r \<noteq> -1 then useq (u_printf os ''%s: open successed\<newline>'' [s]) (uexit 1)
      else useq (u_printf os ''wait for kill and reclaim %d\<newline>'' [VWord (ucast (st_ino st))]) (pause_forever fuel os))))))"

section \<open>init\<close>

fun init_wait :: "nat \<Rightarrow> 'w os \<Rightarrow> int \<Rightarrow> ('w, unit) uop" where
  "init_wait 0 os pid = (\<lambda>w. ULoop)"
| "init_wait (Suc fuel) os pid =
     ubind (ucall (u_wait os)) (\<lambda>wpid.
     if wpid = pid then uret ()
     else if wpid < 0 then useq (u_printf os ''init: wait returned an error\<newline>'' []) (uexit 1)
     else init_wait fuel os pid)"

fun init_loop :: "nat \<Rightarrow> 'w os \<Rightarrow> ('w, unit) uop" where
  "init_loop 0 os = (\<lambda>w. ULoop)"
| "init_loop (Suc fuel) os =
     useq (u_printf os ''init: starting sh\<newline>'' [])
    (ubind (ucall (u_fork os)) (\<lambda>pid.
     if pid < 0 then useq (u_printf os ''init: fork failed\<newline>'' []) (uexit 1)
     else if pid = 0
     then useq (uexec os (ascii ''sh'') [ascii ''sh''])
         (useq (u_printf os ''init: exec sh failed\<newline>'' []) (uexit 1))
     else useq (init_wait fuel os pid) (init_loop fuel os)))"

definition init_main :: "nat \<Rightarrow> 'w os \<Rightarrow> ('w, unit) uop" where
  "init_main fuel os =
     ubind (ucall (u_open os (ascii ''console'') O_RDWR)) (\<lambda>fd.
     useq (uwhen (fd < 0)
             (useq (udo (u_mknod os (ascii ''console'') (int CONSOLE) 0)) (udo (u_open os (ascii ''console'') O_RDWR))))
    (useq (udo (u_dup os 0))
    (useq (udo (u_dup os 0))
          (init_loop fuel os))))"

section \<open>sixfive\<close>

definition is_separator :: "uchar \<Rightarrow> bool" where
  "is_separator c = (strchr (ascii '' -'' @ [13, 9, 10] @ ascii ''.,'') c \<noteq> None)"

text \<open>The remainder of C has the sign of the dividend; only whether it is zero matters here.\<close>

definition is_multiple_of_5_or_6 :: "uint \<Rightarrow> bool" where
  "is_multiple_of_5_or_6 num = (sint num mod 5 = 0 \<or> sint num mod 6 = 0)"

definition sixfive_print :: "'w os \<Rightarrow> uint \<Rightarrow> ('w, unit) uop" where
  "sixfive_print os num = uwhen (is_multiple_of_5_or_6 num) (u_printf os ''%d\<newline>'' [VWord (ucast num)])"

fun sixfive_loop :: "nat \<Rightarrow> 'w os \<Rightarrow> int \<Rightarrow> uint \<Rightarrow> bool \<Rightarrow> ('w, unit) uop" where
  "sixfive_loop 0 os fd num in_number = (\<lambda>w. ULoop)"
| "sixfive_loop (Suc fuel) os fd num in_number =
     ubind (ucall (u_read os fd 1)) (\<lambda>(n, bs).
     if n > 0
     then let c = nth0 bs 0 in
          if 48 \<le> c \<and> c \<le> 57 then sixfive_loop fuel os fd (num * 10 + (ucast c - 48)) True
          else if is_separator c \<and> in_number then useq (sixfive_print os num) (sixfive_loop fuel os fd 0 False)
          else sixfive_loop fuel os fd num in_number
     else uwhen in_number (sixfive_print os num))"

definition sixfive_main :: "nat \<Rightarrow> 'w os \<Rightarrow> uchar list list \<Rightarrow> ('w, unit) uop" where
  "sixfive_main fuel os argv =
     (if length argv < 2 then useq (fprintf os 2 ''Usage: sixfive <files...>\<newline>'' []) (uexit 1)
      else useq (ufor (tl argv) (\<lambda>f.
             ubind (ucall (u_open os f O_RDONLY)) (\<lambda>fd.
             if fd < 0 then fprintf os 2 ''sixfive: cannot open %s\<newline>'' [VStr (Some f)]
             else useq (sixfive_loop fuel os fd 0 False) (udo (u_close os fd)))))
           (uexit 0))"

section \<open>Copying\<close>

lemma cat_loop_copies:
  assumes "streams os fd inp out"
  shows "length (inp w) < fuel \<Longrightarrow> \<exists>v. cat_loop fuel os fd w = URet () v \<and> out v = out w @ inp w \<and> inp v = []"
proof (induction fuel arbitrary: w)
  case (Suc fuel)
  obtain k v where r: "u_read os fd 512 w = ((int k, take k (inp w)), v)" "k \<le> length (inp w)"
    "k = 0 \<Longrightarrow> inp w = []" "inp v = drop k (inp w)" "out v = out w"
    using streams_read [OF assms, of 512] by (metis zero_less_numeral)
  show ?case
  proof (cases "k = 0")
    case False
    obtain u where u: "u_write os 1 (take k (inp w)) v = (int (length (take k (inp w))), u)"
      "out u = out v @ take k (inp w)" "inp u = inp v" using streams_write [OF assms] .
    have "\<exists>t. cat_loop fuel os fd u = URet () t \<and> out t = out u @ inp u \<and> inp t = []"
      using Suc.IH [of u] Suc.prems False r u by simp
    then show ?thesis using False r u by (auto simp: min_def)
  qed (use r in simp)
qed simp

text \<open>
  C34. \<^verbatim>\<open>cat\<close> copies: on readable input and writable output the loop ends, and what it has written is
  the whole input, byte for byte and in order.
\<close>

theorem cat_copies:
  assumes "streams os fd inp out" "length (inp w) < fuel"
  shows "\<exists>v. cat_loop fuel os fd w = URet () v \<and> out v = out w @ inp w \<and> inp v = []"
  by (rule cat_loop_copies [OF assms])

theorem cat_copies_witness:
  "\<exists>v. cat_loop 5 sample_os 3 ([65, 0, 66], [7]) = URet () v \<and> snd v = [7, 65, 0, 66] \<and> fst v = []"
  using cat_copies [OF sample_streams, of "([65, 0, 66], [7])" 5 3] by simp

section \<open>Counting\<close>

definition blank :: "uchar \<Rightarrow> bool" where
  "blank b \<longleftrightarrow> b \<in> {32, 13, 9, 10, 11}"

text \<open>The positions at which a word starts: a byte that is not blank, after a blank or at the start.\<close>

definition word_starts :: "uchar list \<Rightarrow> nat set" where
  "word_starts bs = {i. i < length bs \<and> \<not> blank (bs ! i) \<and> (i = 0 \<or> blank (bs ! (i - 1)))}"

definition counts_of :: "uchar list \<Rightarrow> counts" where
  "counts_of bs =
     \<lparr>wc_l = of_nat (count_list bs 10), wc_w = of_nat (card (word_starts bs)), wc_c = of_nat (length bs),
      inword = (bs \<noteq> [] \<and> \<not> blank (last bs))\<rparr>"

lemma strchr_blank: "(strchr (ascii '' '' @ [13, 9, 10, 11]) b \<noteq> None) = blank b"
  by (auto simp: ascii_def blank_def)

lemma word_starts_snoc:
  "word_starts (bs @ [b]) =
     (if \<not> blank b \<and> (bs = [] \<or> blank (last bs)) then insert (length bs) (word_starts bs) else word_starts bs)"
  by (cases "bs = []") (auto simp: word_starts_def nth_append last_conv_nth less_Suc_eq split: if_splits)

lemma finite_word_starts [simp]: "finite (word_starts bs)" "length bs \<notin> word_starts bs"
  by (simp_all add: word_starts_def)

lemma wc_byte_counts: "wc_byte (counts_of bs) b = counts_of (bs @ [b])"
proof -
  have "count_list (bs @ [b]) 10 = count_list bs 10 + (if b = 10 then 1 else 0)"
    by (induction bs) auto
  then show ?thesis
    unfolding wc_byte_def strchr_blank by (auto simp: counts_of_def word_starts_snoc Let_def)
qed

lemma wc_fold_counts: "foldl wc_byte (counts_of as) bs = counts_of (as @ bs)"
  by (induction bs arbitrary: as) (simp_all add: wc_byte_counts)

lemma wc_loop_counts:
  assumes "streams os fd inp out"
  shows "length (inp w) < fuel
    \<Longrightarrow> \<exists>v. wc_loop fuel os fd (counts_of as) w = URet (0, counts_of (as @ inp w)) v \<and> out v = out w \<and> inp v = []"
proof (induction fuel arbitrary: w as)
  case (Suc fuel)
  obtain k v where r: "u_read os fd 512 w = ((int k, take k (inp w)), v)" "k \<le> length (inp w)"
    "k = 0 \<Longrightarrow> inp w = []" "inp v = drop k (inp w)" "out v = out w"
    using streams_read [OF assms, of 512] by (metis zero_less_numeral)
  show ?case
  proof (cases "k = 0")
    case False
    have "\<exists>t. wc_loop fuel os fd (counts_of (as @ take k (inp w))) v = URet (0, counts_of ((as @ take k (inp w)) @ inp v)) t
        \<and> out t = out v \<and> inp t = []"
      by (rule Suc.IH) (use Suc.prems False r in simp)
    then show ?thesis using False r by (simp add: wc_fold_counts)
  qed (use r in simp)
qed simp

text \<open>
  C35. \<^verbatim>\<open>wc\<close> counts: its loop ends at the end of the input with the number of newlines, of positions
  where a word starts, and of bytes, each modulo \<open>2 ^ 32\<close>; words are not split by the borders of the reads.
\<close>

theorem wc_counts_input:
  assumes "streams os fd inp out" "length (inp w) < fuel"
  shows "\<exists>v k. wc_loop fuel os fd \<lparr>wc_l = 0, wc_w = 0, wc_c = 0, inword = False\<rparr> w = URet (0, k) v \<and> inp v = []
    \<and> unat (wc_l k) = count_list (inp w) 10 mod 2 ^ 32 \<and> unat (wc_c k) = length (inp w) mod 2 ^ 32
    \<and> unat (wc_w k) = card (word_starts (inp w)) mod 2 ^ 32"
proof -
  have "counts_of [] = \<lparr>wc_l = 0, wc_w = 0, wc_c = 0, inword = False\<rparr>" by (simp add: counts_of_def word_starts_def)
  then obtain v where "wc_loop fuel os fd \<lparr>wc_l = 0, wc_w = 0, wc_c = 0, inword = False\<rparr> w = URet (0, counts_of (inp w)) v" "inp v = []"
    using wc_loop_counts [OF assms, of "[]"] by auto
  then show ?thesis by (auto simp: counts_of_def unat_of_nat take_bit_eq_mod)
qed

theorem wc_counts_input_witness:
  "\<exists>v k. wc_loop 20 sample_os 0 \<lparr>wc_l = 0, wc_w = 0, wc_c = 0, inword = False\<rparr> (ascii '' ab c\<newline>d'', []) = URet (0, k) v
     \<and> unat (wc_l k) = 1 \<and> unat (wc_c k) = 7 \<and> unat (wc_w k) = 3"
proof -
  let ?P = "\<lambda>bs i. \<not> blank (bs ! i) \<and> (i = 0 \<or> blank (bs ! (i - 1)))"
  have "filter (?P (ascii '' ab c\<newline>d'')) [0..<length (ascii '' ab c\<newline>d'')] = [1, 4, 6]" by code_simp
  moreover have "word_starts bs = set (filter (?P bs) [0..<length bs])" for bs by (auto simp: word_starts_def)
  ultimately have "word_starts (ascii '' ab c\<newline>d'') = set [1, 4, 6]" by (simp only:)
  then have "card (word_starts (ascii '' ab c\<newline>d'')) = 3" by simp
  moreover have "count_list (ascii '' ab c\<newline>d'') 10 = 1" "length (ascii '' ab c\<newline>d'') = 7" by (simp_all add: ascii_def)
  ultimately show ?thesis
    using wc_counts_input [OF sample_streams, of "(ascii '' ab c\<newline>d'', [])" 20 0] by simp blast
qed

end
