(* ===== verification/Practice.thy ===== *)
theory Practice
  imports Grep "HOL-Library.Multiset" "HOL-Library.List_Lexorder"
begin

text \<open>
  The exercises of \<^verbatim>\<open>c-practice\<close>: the line sorter of \<^verbatim>\<open>pointer5-6.c\<close> and the binary search of
  \<^verbatim>\<open>pointer6-4.c\<close>. The array of pointers is a list of strings, indices are integers as in the source,
  and standard input is the list of the bytes still to be read. \<^verbatim>\<open>malloc\<close> of the host is a
  parameter that says whether a request succeeds.
\<close>

section \<open>The line sorter\<close>

definition MAXLINES :: nat where "MAXLINES = 5000"
definition MAXLEN :: nat where "MAXLEN = 1000"

definition swap :: "'a list \<Rightarrow> int \<Rightarrow> int \<Rightarrow> 'a list" where
  "swap v i j = v[nat i := v ! nat j, nat j := v ! nat i]"

text \<open>The loop over \<open>i\<close>: everything smaller than the pivot at \<open>left\<close> goes in front.\<close>

fun qsort_step :: "int \<Rightarrow> uchar list list \<times> int \<Rightarrow> int \<Rightarrow> uchar list list \<times> int" where
  "qsort_step left (v, lst) i =
     (if strcmp (v ! nat i) (v ! nat left) < 0 then (swap v (lst + 1) i, lst + 1) else (v, lst))"

definition qsort_loop :: "uchar list list \<Rightarrow> int \<Rightarrow> int \<Rightarrow> uchar list list \<times> int" where
  "qsort_loop v left right = foldl (qsort_step left) (v, left) [left + 1..right]"

lemma qsort_steps_last:
  "snd (foldl (qsort_step left) (v, lst) is) \<in> {lst..lst + int (length is)}"
proof (induction "is" arbitrary: v lst)
  case (Cons i "is")
  show ?case using Cons [of v lst] Cons [of "swap v (lst + 1) i" "lst + 1"] by auto
qed simp

lemma qsort_loop_last:
  "left < right \<Longrightarrow> left \<le> snd (qsort_loop v left right) \<and> snd (qsort_loop v left right) \<le> right"
  using qsort_steps_last [of left v left "[left + 1..right]"] by (simp add: qsort_loop_def)

function qsort :: "uchar list list \<Rightarrow> int \<Rightarrow> int \<Rightarrow> uchar list list" where
  "qsort v left right =
     (if left \<ge> right then v
      else let r = qsort_loop (swap v left ((left + right) div 2)) left right;
               v1 = swap (fst r) left (snd r)
           in qsort (qsort v1 left (snd r - 1)) (snd r + 1) right)"
  by pat_completeness auto
termination
proof (relation "measure (\<lambda>(v, left, right). nat (right - left + 1))", goal_cases)
  case (2 v left right r v1)
  then show ?case using qsort_loop_last [of left right "swap v left ((left + right) div 2)"] by auto
next
  case (3 v left right r v1)
  then show ?case using qsort_loop_last [of left right "swap v left ((left + right) div 2)"] by auto
qed simp

declare qsort.simps [simp del]

text \<open>\<open>getline\<close> with room for \<open>k\<close> more bytes: the line with its newline if it has one, and the rest of the input.\<close>

fun getline_loop :: "nat \<Rightarrow> uchar list \<Rightarrow> uchar list \<times> uchar list" where
  "getline_loop 0 inp = ([], inp)"
| "getline_loop (Suc k) [] = ([], [])"
| "getline_loop (Suc k) (c # inp) =
     (if c = 10 then ([10], inp) else map_prod ((#) c) id (getline_loop k inp))"

definition getline :: "nat \<Rightarrow> uchar list \<Rightarrow> uchar list \<times> uchar list" where
  "getline lim inp = getline_loop (lim - 1) inp"

lemma getline_loop_shrinks: "fst (getline_loop k inp) \<noteq> [] \<Longrightarrow> length (snd (getline_loop k inp)) < length inp"
proof (induction k inp rule: getline_loop.induct)
  case (3 k c inp)
  show ?case
  proof (cases "fst (getline_loop k inp) = []")
    case True
    then have "snd (getline_loop k inp) = inp" by (cases "(k, inp)" rule: getline_loop.cases) (auto split: if_splits)
    then show ?thesis by auto
  qed (use 3 in auto)
qed simp_all

text \<open>
  \<open>readlines\<close>: the last byte of each line is overwritten by the NUL, and \<^verbatim>\<open>strcpy\<close> keeps what is before
  the first NUL. None is the result -1.
\<close>

function readlines :: "(nat \<Rightarrow> bool) \<Rightarrow> nat \<Rightarrow> nat \<Rightarrow> uchar list \<Rightarrow> uchar list list option" where
  "readlines malloc maxlines nlines inp =
     (let line = fst (getline MAXLEN inp) in
      if line = [] then Some []
      else if nlines \<ge> maxlines \<or> \<not> malloc (length line) then None
      else map_option ((#) (takeWhile (\<lambda>c. c \<noteq> 0) (butlast line)))
             (readlines malloc maxlines (Suc nlines) (snd (getline MAXLEN inp))))"
  by pat_completeness auto
termination
  by (relation "measure (\<lambda>(malloc, maxlines, nlines, inp). length inp)")
     (auto simp: getline_def dest: getline_loop_shrinks)

declare readlines.simps [simp del]

definition writelines :: "uchar list list \<Rightarrow> uchar list" where
  "writelines ls = concat (map (\<lambda>l. l @ [10]) ls)"

text \<open>The program: its output and its exit status.\<close>

definition sort_main :: "(nat \<Rightarrow> bool) \<Rightarrow> uchar list \<Rightarrow> uchar list \<times> int" where
  "sort_main malloc inp =
     (case readlines malloc MAXLINES 0 inp of
        Some ls \<Rightarrow> (writelines (qsort ls 0 (int (length ls) - 1)), 0)
      | None \<Rightarrow> (ascii ''error: input too big to sort\<newline>'', 1))"

section \<open>The binary search\<close>

text \<open>\<open>low\<close> and \<open>high\<close> as indices of the table.\<close>

function binsearch_loop :: "uchar list \<Rightarrow> uchar list list \<Rightarrow> nat \<Rightarrow> nat \<Rightarrow> nat option" where
  "binsearch_loop word tab low high =
     (if low < high
      then let mid = low + (high - low) div 2; cond = strcmp word (tab ! mid) in
           if cond < 0 then binsearch_loop word tab low mid
           else if cond > 0 then binsearch_loop word tab (mid + 1) high
           else Some mid
      else None)"
  by pat_completeness auto
termination by (relation "measure (\<lambda>(word, tab, low, high). high - low)") auto

declare binsearch_loop.simps [simp del]

definition binsearch :: "uchar list \<Rightarrow> uchar list list \<Rightarrow> nat \<Rightarrow> nat option" where
  "binsearch word tab n = binsearch_loop word tab 0 n"

section \<open>Comparing strings\<close>

lemma first_pos: "q \<noteq> [] \<Longrightarrow> 0 \<notin> set q \<Longrightarrow> 0 < uint (q ! 0 :: uchar)"
  by (cases q) (auto simp: order_less_le uint_0_iff)

lemma Nil_less_list [simp]: "[] < q \<longleftrightarrow> q \<noteq> ([] :: uchar list)"
  by (cases q) auto

lemma strcmp_less:
  "0 \<notin> set a \<Longrightarrow> 0 \<notin> set b \<Longrightarrow> strcmp a b < 0 \<longleftrightarrow> a < b"
  "0 \<notin> set a \<Longrightarrow> 0 \<notin> set b \<Longrightarrow> strcmp a b = 0 \<longleftrightarrow> a = b"
  by (induction a b rule: strcmp.induct)
     (auto simp: nth0_def word_less_def first_pos order_less_imp_not_eq2 dest: first_pos)

section \<open>Sorting\<close>

text \<open>\<open>v\<close> rearranged only between the positions \<open>l\<close> and \<open>r\<close>.\<close>

definition shuffled :: "'a list \<Rightarrow> 'a list \<Rightarrow> nat \<Rightarrow> nat \<Rightarrow> bool" where
  "shuffled v u l r \<longleftrightarrow> length u = length v \<and> mset u = mset v \<and> (\<forall>k < length v. k < l \<or> r < k \<longrightarrow> u ! k = v ! k)"

lemma shuffled_refl [simp]: "shuffled v v l r"
  by (simp add: shuffled_def)

lemma shuffled_trans: "shuffled v u l r \<Longrightarrow> shuffled u t l r \<Longrightarrow> shuffled v t l r"
  by (simp add: shuffled_def)

lemma shuffled_mono: "shuffled v u l' r' \<Longrightarrow> l \<le> l' \<Longrightarrow> r' \<le> r \<Longrightarrow> shuffled v u l r"
  by (auto simp: shuffled_def)

lemma shuffled_swap:
  assumes "l \<le> i" "i \<le> r" "l \<le> j" "j \<le> r" "r < length v"
  shows "shuffled v (swap v (int i) (int j)) l r"
  using assms mset_swap [of j v i] by (auto simp: shuffled_def swap_def nth_list_update)

lemma mset_slice: "r < length v \<Longrightarrow> l \<le> r \<Longrightarrow>
  mset v = mset (take l v) + image_mset ((!) v) (mset_set {l..r}) + mset (drop (Suc r) v)"
proof -
  assume a: "r < length v" "l \<le> r"
  have "map ((!) v) [l..<Suc r] = take (Suc r - l) (drop l v)"
    using a by (intro nth_equalityI) (auto simp del: upt_Suc)
  then have "image_mset ((!) v) (mset_set {l..r}) = mset (take (Suc r - l) (drop l v))"
    by (metis atLeastLessThanSuc_atLeastAtMost mset_map mset_upt)
  moreover have "v = take l v @ take (Suc r - l) (drop l v) @ drop (Suc r) v"
    using a by (metis add_diff_inverse_nat append_take_drop_id drop_drop le_SucI linorder_not_less add.commute)
  ultimately show ?thesis by (metis mset_append add.assoc)
qed

lemma shuffled_inside:
  assumes "shuffled v u l r" "l \<le> r" "r < length v"
  shows "(!) u ` {l..r} = (!) v ` {l..r}"
proof -
  have "take l u = take l v" "drop (Suc r) u = drop (Suc r) v"
    using assms by (auto simp: shuffled_def intro!: nth_equalityI)
  then have "image_mset ((!) u) (mset_set {l..r}) = image_mset ((!) v) (mset_set {l..r})"
    using assms mset_slice [of r v l] mset_slice [of r u l] by (simp add: shuffled_def)
  then have "set_mset (image_mset ((!) u) (mset_set {l..r})) = set_mset (image_mset ((!) v) (mset_set {l..r}))" by simp
  then show ?thesis by simp
qed

definition texts :: "uchar list list \<Rightarrow> bool" where
  "texts v \<longleftrightarrow> (\<forall>s \<in> set v. 0 \<notin> set s)"

lemma texts_shuffled: "shuffled v u l r \<Longrightarrow> texts v \<Longrightarrow> texts u"
  by (metis shuffled_def texts_def set_mset_mset)

lemma texts_less: "texts v \<Longrightarrow> i < length v \<Longrightarrow> j < length v \<Longrightarrow> strcmp (v ! i) (v ! j) < 0 \<longleftrightarrow> v ! i < v ! j"
  by (simp add: texts_def strcmp_less)

lemma swap_nth:
  "k < length v \<Longrightarrow> i < length v \<Longrightarrow> j < length v
    \<Longrightarrow> swap v (int i) (int j) ! k = (if k = j then v ! i else if k = i then v ! j else v ! k)"
  by (simp add: swap_def nth_list_update)

text \<open>The loop of \<open>qsort\<close> partitions around the pivot at \<open>l\<close>.\<close>

definition parted :: "uchar list list \<Rightarrow> uchar list list \<Rightarrow> nat \<Rightarrow> nat \<Rightarrow> nat \<Rightarrow> bool" where
  "parted v u l m r \<longleftrightarrow> l \<le> m \<and> m \<le> r \<and> shuffled v u l r \<and> u ! l = v ! l
     \<and> (\<forall>k. l < k \<and> k \<le> m \<longrightarrow> u ! k < v ! l) \<and> (\<forall>k. m < k \<and> k \<le> r \<longrightarrow> v ! l \<le> u ! k)"

lemma parted_step:
  assumes "parted v u l m i" "texts v" "Suc i < length v"
  obtains u' m' where "qsort_step (int l) (u, int m) (int (Suc i)) = (u', int m')" "parted v u' l m' (Suc i)"
proof -
  have p: "l \<le> m" "m \<le> i" "shuffled v u l i" "u ! l = v ! l" "length u = length v"
    "\<forall>k. l < k \<and> k \<le> m \<longrightarrow> u ! k < v ! l" "\<forall>k. m < k \<and> k \<le> i \<longrightarrow> v ! l \<le> u ! k"
    using assms(1) by (auto simp: parted_def shuffled_def)
  have less: "strcmp (u ! Suc i) (u ! l) < 0 \<longleftrightarrow> u ! Suc i < v ! l"
    using texts_less [OF texts_shuffled [OF p(3) assms(2)], of "Suc i" l] p assms(3) by simp
  show thesis
  proof (cases "u ! Suc i < v ! l")
    case True
    define z where "z = swap u (int (Suc m)) (int (Suc i))"
    have s1: "shuffled v u l (Suc i)" by (rule shuffled_mono [OF p(3)]) simp_all
    have s2: "shuffled u z l (Suc i)" unfolding z_def by (rule shuffled_swap) (use p(1,2,5) assms(3) in simp_all)
    have sh: "shuffled v z l (Suc i)" by (rule shuffled_trans [OF s1 s2])
    have nth: "z ! k = (if k = Suc i then u ! Suc m else if k = Suc m then u ! Suc i else u ! k)" if "k \<le> Suc i" for k
      using swap_nth [of k u "Suc m" "Suc i"] that p(2,5) assms(3) unfolding z_def by simp
    have "z ! k < v ! l" if "l < k" "k \<le> Suc m" for k
      using that p(2,6) True by (cases "k = Suc m") (auto simp: nth)
    moreover have "v ! l \<le> z ! k" if "Suc m < k" "k \<le> Suc i" for k
      using that p(2,7) by (cases "k = Suc i") (auto simp: nth)
    ultimately have "parted v z l (Suc m) (Suc i)"
      unfolding parted_def using sh p(1,2,4) by (simp add: nth)
    moreover have "qsort_step (int l) (u, int m) (int (Suc i)) = (z, int (Suc m))"
      using True less by (simp add: z_def nat_add_distrib add.commute)
    ultimately show thesis using that by blast
  next
    case False
    then have "v ! l \<le> u ! k" if "m < k" "k \<le> Suc i" for k
      using that p(7) by (cases "k = Suc i") auto
    then have "parted v u l m (Suc i)"
      using p(1,2,4,6) shuffled_mono [OF p(3), of l "Suc i"] by (simp add: parted_def)
    then show thesis using that False less by (simp add: nat_add_distrib)
  qed
qed

lemma qsort_steps_parted:
  assumes "texts v" "l < length v"
  shows "l + n < length v \<Longrightarrow> \<exists>u m. foldl (qsort_step (int l)) (v, int l) [int l + 1..int (l + n)] = (u, int m) \<and> parted v u l m (l + n)"
proof (induction n)
  case 0
  show ?case by (auto simp: parted_def)
next
  case (Suc n)
  then obtain u m where u: "foldl (qsort_step (int l)) (v, int l) [int l + 1..int (l + n)] = (u, int m)" "parted v u l m (l + n)"
    by auto
  obtain u' m' where "qsort_step (int l) (u, int m) (int (Suc (l + n))) = (u', int m')" "parted v u' l m' (Suc (l + n))"
    using parted_step [OF u(2) assms(1)] Suc.prems by auto
  moreover have "[int l + 1..int (l + Suc n)] = [int l + 1..int (l + n)] @ [int (Suc (l + n))]"
    using upto_rec2 [of "int l + 1" "int (l + Suc n)"] by simp
  ultimately show ?case using u(1) by auto
qed

definition sorted_in :: "uchar list list \<Rightarrow> nat \<Rightarrow> nat \<Rightarrow> bool" where
  "sorted_in v l r \<longleftrightarrow> (\<forall>i j. l \<le> i \<and> i \<le> j \<and> j \<le> r \<longrightarrow> v ! i \<le> v ! j)"

text \<open>Both halves sorted around a pivot in its place make the whole sorted.\<close>

lemma sorted_join:
  assumes "\<And>i. l \<le> i \<Longrightarrow> i < m \<Longrightarrow> v ! i \<le> v ! m" "\<And>i. m < i \<Longrightarrow> i \<le> r \<Longrightarrow> v ! m \<le> v ! i"
    "\<And>i j. l \<le> i \<Longrightarrow> i \<le> j \<Longrightarrow> j < m \<Longrightarrow> v ! i \<le> v ! j" "\<And>i j. m < i \<Longrightarrow> i \<le> j \<Longrightarrow> j \<le> r \<Longrightarrow> v ! i \<le> v ! j"
  shows "sorted_in v l r"
  unfolding sorted_in_def
proof (intro allI impI)
  fix i j
  assume "l \<le> i \<and> i \<le> j \<and> j \<le> r"
  then consider "j < m" | "j = m" "i < m" | "i = j" | "i < m" "m < j" | "i = m" "m < j" | "m < i"
    by linarith
  then show "v ! i \<le> v ! j"
    using \<open>l \<le> i \<and> i \<le> j \<and> j \<le> r\<close> assms by cases (auto intro: order_trans)
qed

lemma shuffled_all:
  assumes "shuffled v u l r" "l \<le> r" "r < length v" "\<And>k. l \<le> k \<Longrightarrow> k \<le> r \<Longrightarrow> P (v ! k)" "l \<le> i" "i \<le> r"
  shows "P (u ! i)"
proof -
  have "u ! i \<in> (!) v ` {l..r}" using shuffled_inside [OF assms(1-3)] assms(5,6) by force
  then show ?thesis using assms(4) by auto
qed

text \<open>One round of \<open>qsort\<close>: the pivot reaches its place, with nothing larger before and nothing smaller after it.\<close>

lemma qsort_round:
  assumes "texts v" "l < r" "r < length v"
  obtains u m where
    "qsort v (int l) (int r) = qsort (qsort u (int l) (int m - 1)) (int m + 1) (int r)"
    "l \<le> m" "m \<le> r" "shuffled v u l r" "\<And>k. l \<le> k \<Longrightarrow> k < m \<Longrightarrow> u ! k \<le> u ! m" "\<And>k. m < k \<Longrightarrow> k \<le> r \<Longrightarrow> u ! m \<le> u ! k"
proof -
  define w where "w = swap v (int l) (int ((l + r) div 2))"
  have "shuffled v w l r" unfolding w_def by (rule shuffled_swap) (use assms in auto)
  moreover have "(int l + int r) div 2 = int ((l + r) div 2)" by simp
  moreover obtain z m where z: "qsort_loop w (int l) (int r) = (z, int m)" "parted w z l m r"
    using qsort_steps_parted [of w l "r - l"] texts_shuffled [OF calculation(1) assms(1)] assms calculation(1)
    by (auto simp: qsort_loop_def shuffled_def)
  define u where "u = swap z (int l) (int m)"
  have p: "l \<le> m" "m \<le> r" "shuffled w z l r" "\<And>k. l < k \<Longrightarrow> k \<le> m \<Longrightarrow> z ! k < z ! l" "\<And>k. m < k \<Longrightarrow> k \<le> r \<Longrightarrow> z ! l \<le> z ! k"
    using z(2) by (auto simp: parted_def)
  have len: "length z = length v" using p(3) \<open>shuffled v w l r\<close> by (simp add: shuffled_def)
  have "shuffled z u l r" unfolding u_def by (rule shuffled_swap) (use p(1,2) assms len in auto)
  then have sh: "shuffled v u l r" using \<open>shuffled v w l r\<close> p(3) shuffled_trans by blast
  have nth: "u ! k = (if k = m then z ! l else if k = l then z ! m else z ! k)" if "k \<le> r" for k
    using swap_nth [of k z l m] that p(1,2) assms(2,3) len unfolding u_def by simp
  have below: "u ! k \<le> u ! m" if "l \<le> k" "k < m" for k
  proof -
    have "z ! m < z ! l" using p(4) [of m] that by simp
    moreover have "k \<noteq> l \<Longrightarrow> z ! k < z ! l" using p(4) [of k] that by simp
    ultimately show ?thesis using nth [of k] nth [of m] p(2) that by (auto intro: less_imp_le)
  qed
  have above: "u ! m \<le> u ! k" if "m < k" "k \<le> r" for k
    using nth [of k] nth [of m] p(1,2) p(5) [OF that] that by simp
  have "qsort v (int l) (int r) = qsort (qsort u (int l) (int m - 1)) (int m + 1) (int r)"
    using assms(2) z(1) \<open>(int l + int r) div 2 = int ((l + r) div 2)\<close>
    by (subst qsort.simps) (simp add: w_def [symmetric] u_def [symmetric] Let_def)
  then show thesis using that p(1,2) sh below above by blast
qed

lemma qsort_sorts_range:
  "texts v \<Longrightarrow> l + n \<le> length v \<Longrightarrow>
   shuffled v (qsort v (int l) (int l + int n - 1)) l (l + n - 1) \<and> sorted_in (qsort v (int l) (int l + int n - 1)) l (l + n - 1)"
proof (induction n arbitrary: v l rule: less_induct)
  case (less n)
  show ?case
  proof (cases "n \<le> 1")
    case True
    then have "qsort v (int l) (int l + int n - 1) = v" by (subst qsort.simps) auto
    moreover have "i = j" if "l \<le> i" "i \<le> j" "j \<le> l + n - 1" for i j using that True by linarith
    then have "sorted_in v l (l + n - 1)" unfolding sorted_in_def by (metis order_refl)
    ultimately show ?thesis by simp
  next
    case False
    define r where "r = l + n - 1"
    have r: "int l + int n - 1 = int r" "l < r" "r < length v" "l + n - 1 = r" using False less.prems by (auto simp: r_def)
    obtain u m where u: "qsort v (int l) (int r) = qsort (qsort u (int l) (int m - 1)) (int m + 1) (int r)"
      "l \<le> m" "m \<le> r" "shuffled v u l r" "\<And>k. l \<le> k \<Longrightarrow> k < m \<Longrightarrow> u ! k \<le> u ! m" "\<And>k. m < k \<Longrightarrow> k \<le> r \<Longrightarrow> u ! m \<le> u ! k"
      using qsort_round [OF less.prems(1) r(2,3)] by metis
    define a where "a = qsort u (int l) (int m - 1)"
    define b where "b = qsort a (int m + 1) (int r)"
    have len: "length u = length v" using u(4) by (simp add: shuffled_def)
    have tu: "texts u" using texts_shuffled u(4) less.prems(1) by blast
    have "int m - 1 = int l + int (m - l) - 1" using u(2) by simp
    then have a: "shuffled u a l (m - 1)" "sorted_in a l (m - 1)"
      using less.IH [of "m - l" u l] tu len u(2,3) r False unfolding a_def by auto
    have la: "length a = length v" "texts a" using a(1) len texts_shuffled [OF a(1) tu] by (simp_all add: shuffled_def)
    have e: "int r = int (Suc m) + int (r - m) - 1" "int m + 1 = int (Suc m)" "Suc m + (r - m) - 1 = r" using u(3) by simp_all
    have "shuffled a b (Suc m) (Suc m + (r - m) - 1) \<and> sorted_in b (Suc m) (Suc m + (r - m) - 1)"
      unfolding b_def e(1,2) by (rule less.IH) (use la u(2,3) r(2,3,4) False in linarith | rule la(2))+
    then have b: "shuffled a b (Suc m) r" "sorted_in b (Suc m) r" unfolding e(3) by simp_all
    have out: "a ! k = u ! k" if "m \<le> k" "k \<le> r" "l < m \<or> m < k \<or> a = u" for k
      using a(1) that r(3) len by (auto simp: shuffled_def)
    have am: "a ! m = u ! m"
    proof (cases "l < m")
      case False
      then have "a = u" unfolding a_def using u(2) by (subst qsort.simps) simp
      then show ?thesis by simp
    qed (use out [of m] u(3) in simp)
    have bk: "b ! k = a ! k" if "k \<le> m" for k
      using b(1) that u(3) r(3) la by (auto simp: shuffled_def)
    have "shuffled u b l r"
    proof (rule shuffled_trans)
      show "shuffled u a l r" using shuffled_mono [OF a(1), of l r] u(3) by simp
      show "shuffled a b l r" using shuffled_mono [OF b(1), of l r] u(2) by simp
    qed
    moreover have "sorted_in b l r"
    proof (rule sorted_join [of l m])
      fix i assume i: "l \<le> i" "i < m"
      have "a ! i \<le> u ! m"
        by (rule shuffled_all [OF a(1), where P = "\<lambda>x. x \<le> u ! m"]) (use i u(3,5) r(3) len in auto)
      then show "b ! i \<le> b ! m" using bk i am by simp
    next
      fix i assume i: "m < i" "i \<le> r"
      have "u ! m \<le> b ! i"
        by (rule shuffled_all [OF b(1), where P = "\<lambda>x. u ! m \<le> x"]) (use i u(6) out r(3) la in auto)
      then show "b ! m \<le> b ! i" using bk am by simp
    next
      fix i j assume "l \<le> i" "i \<le> j" "j < m"
      then show "b ! i \<le> b ! j" using a(2) bk by (auto simp: sorted_in_def)
    next
      fix i j assume "m < i" "i \<le> j" "j \<le> r"
      then show "b ! i \<le> b ! j" using b(2) by (auto simp: sorted_in_def)
    qed
    ultimately show ?thesis using r u(1,4) shuffled_trans unfolding a_def b_def by metis
  qed
qed

lemma qsort_is_sort: "texts v \<Longrightarrow> qsort v 0 (int (length v) - 1) = sort v"
proof -
  assume a: "texts v"
  have s: "shuffled v (qsort v 0 (int (length v) - 1)) 0 (length v - 1)" "sorted_in (qsort v 0 (int (length v) - 1)) 0 (length v - 1)"
    using qsort_sorts_range [OF a, of 0 "length v"] by simp_all
  then have "sorted (qsort v 0 (int (length v) - 1))"
    by (auto simp: sorted_iff_nth_mono sorted_in_def shuffled_def)
  moreover have "mset (qsort v 0 (int (length v) - 1)) = mset v" using s(1) by (simp add: shuffled_def)
  ultimately show ?thesis using properties_for_sort by metis
qed

section \<open>Reading lines\<close>

text \<open>The strings \<open>readlines\<close> keeps: a last line without newline loses its last byte.\<close>

definition kept_lines :: "uchar list \<Rightarrow> uchar list list" where
  "kept_lines inp = fst (lines_of inp) @ (if snd (lines_of inp) = [] then [] else [butlast (snd (lines_of inp))])"

lemma getline_loop_Nil [simp]: "getline_loop k [] = ([], [])"
  by (cases k) simp_all

lemma getline_loop_line: "10 \<notin> set l \<Longrightarrow> length l < k \<Longrightarrow> getline_loop k (l @ 10 # inp) = (l @ [10], inp)"
proof (induction l arbitrary: k)
  case Nil
  then show ?case by (cases k) simp_all
next
  case (Cons c l)
  then show ?case by (cases k) simp_all
qed

lemma getline_loop_rest: "10 \<notin> set l \<Longrightarrow> length l \<le> k \<Longrightarrow> getline_loop k l = (l, [])"
proof (induction l arbitrary: k)
  case (Cons c l)
  then show ?case by (cases k) simp_all
qed simp

lemma no_nul_kept: "0 \<notin> set s \<Longrightarrow> takeWhile (\<lambda>c. c \<noteq> 0) s = s"
  by (simp add: takeWhile_eq_all_conv) metis

lemma readlines_kept:
  assumes "\<forall>n. malloc n"
  shows "0 \<notin> set inp \<Longrightarrow> \<forall>l \<in> set (fst (lines_of inp)). length l < MAXLEN - 1 \<Longrightarrow> length (snd (lines_of inp)) < MAXLEN
    \<Longrightarrow> nlines + length (kept_lines inp) \<le> maxlines \<Longrightarrow> readlines malloc maxlines nlines inp = Some (kept_lines inp)"
proof (induction "length inp" arbitrary: inp nlines rule: less_induct)
  case less
  show ?case
  proof (cases "10 \<in> set inp")
    case True
    then obtain l r where i: "inp = l @ 10 # r" "10 \<notin> set l" by (metis split_list_first)
    have lo: "lines_of inp = (l # fst (lines_of r), snd (lines_of r))" unfolding i(1) by (rule lines_of_line [OF i(2)])
    then have g: "getline MAXLEN inp = (l @ [10], r)" unfolding getline_def i(1) using less.prems(2) i by (intro getline_loop_line) auto
    have k: "kept_lines inp = l # kept_lines r" by (simp add: kept_lines_def lo)
    have "readlines malloc maxlines (Suc nlines) r = Some (kept_lines r)"
      using less.prems lo k by (intro less.hyps) (auto simp: i(1))
    moreover have "takeWhile (\<lambda>c. c \<noteq> 0) l = l" using less.prems(1) i(1) by (intro no_nul_kept) simp
    ultimately show ?thesis using assms less.prems(4) by (subst readlines.simps) (simp add: g k)
  next
    case False
    then have lo: "lines_of inp = ([], inp)" by (rule lines_of_rest)
    have g: "getline MAXLEN inp = (inp, [])" unfolding getline_def using False less.prems(3) lo by (intro getline_loop_rest) auto
    show ?thesis
    proof (cases "inp = []")
      case True
      then show ?thesis by (subst readlines.simps) (simp add: kept_lines_def getline_def)
    next
      case ne: False
      have "readlines malloc maxlines (Suc nlines) [] = Some []"
        by (subst readlines.simps) (simp add: getline_def)
      moreover have "takeWhile (\<lambda>c. c \<noteq> 0) (butlast inp) = butlast inp"
        using less.prems(1) in_set_butlastD [of 0 inp] by (intro no_nul_kept) blast
      ultimately show ?thesis using ne assms less.prems(4) by (subst readlines.simps) (simp add: g kept_lines_def lo)
    qed
  qed
qed

lemma texts_kept: "0 \<notin> set inp \<Longrightarrow> texts (kept_lines inp)"
proof -
  have s: "l \<in> set (fst (lines_of xs)) \<Longrightarrow> set l \<subseteq> set xs" "set (snd (lines_of xs)) \<subseteq> set xs" for xs l
    by (induction xs arbitrary: l) (fastforce split: prod.splits list.splits if_splits)+
  assume a: "0 \<notin> set inp"
  show ?thesis
    unfolding texts_def kept_lines_def using a s(1) [of _ inp] s(2) [of inp] in_set_butlastD [of 0 "snd (lines_of inp)"] by auto
qed

section \<open>Properties\<close>

text \<open>
  C36. The line sorter: on input without NULs, with at most 5000 lines that fit its buffer, it writes the
  lines in lexicographic order, each as often as it occurs, and returns 0; the hand-written
  \<^verbatim>\<open>qsort\<close> ends and equals the sort of the library. A last line without newline is written without its last byte.
\<close>

theorem sort_main_sorts:
  assumes "\<forall>n. malloc n" "0 \<notin> set inp" "\<forall>l \<in> set (fst (lines_of inp)). length l < MAXLEN - 1"
    "length (snd (lines_of inp)) < MAXLEN" "length (kept_lines inp) \<le> MAXLINES"
  shows "sort_main malloc inp = (concat (map (\<lambda>l. l @ [10]) (sort (kept_lines inp))), 0)"
  using readlines_kept [of malloc inp 0 MAXLINES] assms qsort_is_sort [OF texts_kept [OF assms(2)]]
  by (simp add: sort_main_def writelines_def)

theorem sort_main_sorts_witness:
  "sort_main (\<lambda>_. True) (ascii ''pear\<newline>ant\<newline>dog'') = (ascii ''ant\<newline>do\<newline>pear\<newline>'', 0)"
proof -
  have k: "kept_lines (ascii ''pear\<newline>ant\<newline>dog'') = [ascii ''pear'', ascii ''ant'', ascii ''do'']"
    by (simp add: kept_lines_def ascii_def)
  have "sort [ascii ''pear'', ascii ''ant'', ascii ''do''] = [ascii ''ant'', ascii ''do'', ascii ''pear'']"
    by (simp add: ascii_def)
  then show ?thesis
    using sort_main_sorts [of "\<lambda>_. True" "ascii ''pear\<newline>ant\<newline>dog''"] k
    by (simp add: ascii_def MAXLEN_def MAXLINES_def)
qed

lemma binsearch_loop_found:
  assumes "texts tab" "0 \<notin> set word" "sorted_wrt (<) tab"
  shows "high \<le> length tab \<Longrightarrow> (\<forall>i. i < low \<longrightarrow> tab ! i < word) \<Longrightarrow> (\<forall>i. high \<le> i \<and> i < length tab \<longrightarrow> word < tab ! i)
    \<Longrightarrow> binsearch_loop word tab low high = Some k \<longleftrightarrow> k < length tab \<and> tab ! k = word"
proof (induction "high - low" arbitrary: low high rule: less_induct)
  case less
  show ?case
  proof (cases "low < high")
    case False
    then have "tab ! i \<noteq> word" if "i < length tab" for i
      using less.prems(2,3) that by (metis order_less_irrefl le_less_linear order_trans)
    then show ?thesis using False by (subst binsearch_loop.simps) auto
  next
    case True
    define mid where "mid = low + (high - low) div 2"
    have m: "low \<le> mid" "mid < high" "mid < length tab" using True less.prems(1) by (auto simp: mid_def)
    have nul: "0 \<notin> set (tab ! mid)" using assms(1) m(3) by (simp add: texts_def)
    have mono: "i < j \<Longrightarrow> j < length tab \<Longrightarrow> tab ! i < tab ! j" for i j using assms(3) by (simp add: sorted_wrt_iff_nth_less)
    note run = binsearch_loop.simps [of word tab low high]
    consider "word < tab ! mid" | "tab ! mid < word" | "word = tab ! mid" by fastforce
    then show ?thesis
    proof cases
      case 1
      have "binsearch_loop word tab low mid = Some k \<longleftrightarrow> k < length tab \<and> tab ! k = word"
        by (rule less.hyps) (use m less.prems(2) 1 mono in \<open>auto intro: less_trans simp: le_less\<close>)
      then show ?thesis using True 1 strcmp_less(1) [OF assms(2) nul] run by (simp add: mid_def [symmetric])
    next
      case 2
      have "tab ! i < word" if "i < mid + 1" for i
        using that 2 mono [of i mid] m(3) by (cases "i = mid") (auto intro: less_trans)
      then have "binsearch_loop word tab (mid + 1) high = Some k \<longleftrightarrow> k < length tab \<and> tab ! k = word"
        by (intro less.hyps) (use m less.prems(1,3) in auto)
      moreover have "strcmp word (tab ! mid) > 0"
        using 2 strcmp_less [OF assms(2) nul] by (metis less_asym' linorder_cases)
      ultimately show ?thesis using True run by (simp add: mid_def [symmetric])
    next
      case 3
      have "tab ! k = word \<longleftrightarrow> k = mid" if "k < length tab"
        using 3 mono [of k mid] mono [of mid k] that m(3) by (metis linorder_neqE_nat order_less_irrefl)
      moreover have "strcmp word (tab ! mid) = 0" using strcmp_less(2) [OF assms(2) nul] 3 by simp
      ultimately show ?thesis using True run m(3) 3 by (auto simp: mid_def [symmetric])
    qed
  qed
qed

text \<open>
  C37. The binary search of \<^verbatim>\<open>pointer6-4.c\<close> ends and finds exactly what is there: in a strictly sorted
  table it returns the index of the word, and null exactly when the word is not in the table.
\<close>

theorem binsearch_finds:
  assumes "\<forall>s \<in> set tab. 0 \<notin> set s" "0 \<notin> set word" "sorted_wrt (<) tab"
  shows "(binsearch word tab (length tab) = Some k \<longleftrightarrow> k < length tab \<and> tab ! k = word)
    \<and> (binsearch word tab (length tab) = None \<longleftrightarrow> word \<notin> set tab)"
proof -
  have f: "binsearch word tab (length tab) = Some i \<longleftrightarrow> i < length tab \<and> tab ! i = word" for i
    unfolding binsearch_def using assms by (intro binsearch_loop_found) (auto simp: texts_def)
  then have "binsearch word tab (length tab) = None \<longleftrightarrow> word \<notin> set tab"
    by (metis in_set_conv_nth not_Some_eq)
  with f show ?thesis by blast
qed

theorem binsearch_finds_witness:
  "binsearch (ascii ''for'') [ascii ''break'', ascii ''for'', ascii ''int''] 3 = Some 1"
  using binsearch_finds [of "[ascii ''break'', ascii ''for'', ascii ''int'']" "ascii ''for''" 1] by (simp add: ascii_def numeral_3_eq_3)

end
