(* ===== verification/Lineedit.thy ===== *)
theory Lineedit
  imports Console Sample
begin

text \<open>
  The console's interrupt handler refines the line discipline: one call of \<open>consoleintr\<close> does to the
  circular buffer what \<open>console_spec\<close> does to the finished lines and the line being edited.
\<close>

section \<open>The two parts of the buffer\<close>

lemma lines_eval:
  assumes "cons_inv s"
  shows "lines s = (ring_contents 128 (cons_buf s, cons_r s, cons_w s), ring_contents 128 (cons_buf s, cons_w s, cons_e s))"
  using ring_contents_append [of "cons_w s" "cons_r s" "cons_e s" 128 "cons_buf s"] assms
  by (simp add: lines_def input_def cons_inv_def Let_def)

lemma counters_add:
  assumes "unat (w - r) \<le> unat (e - r)"
  shows "unat (e - r) = unat (w - r) + unat (e - w :: uint)"
proof -
  have "e - w = (e - r) - (w - r)" by simp
  moreover have "unat ((e - r) - (w - r)) = unat (e - r) - unat (w - r)" using assms by (intro unat_sub_le) (simp add: word_le_nat_alt)
  ultimately show ?thesis using assms by simp
qed

lemma counters_close:
  assumes "unat (w - r) \<le> unat (e - r)" "unat (e' - w) \<le> unat (e - w :: uint)"
  shows "unat (w - r) \<le> unat (e' - r) \<and> unat (e' - r) \<le> unat (e - r)"
proof -
  have s: "unat (e - r) = unat (w - r) + unat (e - w)" by (rule counters_add [OF assms(1)])
  have "e' - r = (w - r) + (e' - w)" by simp
  moreover have "unat ((w - r) + (e' - w)) = unat (w - r) + unat (e' - w)"
    using s assms(2) unat_bound32 [of "e - r"] by (intro unat_add_nowrap) simp
  ultimately show ?thesis using s assms(2) by simp
qed

text \<open>States that differ only outside the buffer hold the same lines.\<close>

lemma same_cons_lines:
  assumes "same_cons s t"
  shows "cons_inv t = cons_inv s" "lines t = lines s"
  using assms by (simp_all add: same_cons_def cons_inv_def lines_def input_def)

lemma same_cons_simps [simp]:
  "same_cons s (relock s)" "same_cons s (printed cs s)" "same_cons s (woken_all ch s)"
  by (simp_all add: same_cons_def relock_def printed_def woken_all_def)

lemma woken_cons [simp]:
  "irq_ok (woken_all ch s) = irq_ok s" "cons_buf (woken_all ch s) = cons_buf s" "cons_r (woken_all ch s) = cons_r s"
  "cons_w (woken_all ch s) = cons_w s" "cons_e (woken_all ch s) = cons_e s"
  "cons_r (relock s) = cons_r s" "cons_w (relock s) = cons_w s" "cons_e (relock s) = cons_e s" "cons_buf (relock s) = cons_buf s"
  by (simp_all add: irq_ok_def woken_all_def relock_def)

section \<open>The branches of the handler\<close>

lemma under_cons_lock:
  assumes "irq_ok s" "m (acquired ConsLock s) = Done () (acquired ConsLock t)" "irq_ok t"
  shows "kseq (acquire ConsLock) (kseq m (release ConsLock)) s = Done () (relock t)"
  using assms irq_okD(3) [OF assms(1), of ConsLock] irq_okD(3) [OF assms(3), of ConsLock]
  by (simp add: release_acquired)

text \<open>A byte that is stored, and one that ends a line.\<close>

definition stored_byte :: "uchar \<Rightarrow> 'z console_scheme \<Rightarrow> 'z console_scheme" where
  "stored_byte c s = s\<lparr>cons_buf := (cons_buf s)(unat (cons_e s) mod 128 := c), cons_e := cons_e s + 1\<rparr>"

lemma stored_byte_lines:
  assumes "cons_inv s" "unat (cons_e s - cons_r s) < 128"
  shows "cons_inv (stored_byte c s)" "lines (stored_byte c s) = (fst (lines s), snd (lines s) @ [c])"
    "unat (cons_e s + 1 - cons_r s) = Suc (unat (cons_e s - cons_r s))"
proof -
  have d: "cons_e s + 1 - cons_r s = (cons_e s - cons_r s) + 1" by simp
  show n: "unat (cons_e s + 1 - cons_r s) = Suc (unat (cons_e s - cons_r s))"
    unfolding d using assms(2) by (subst unat_add_nowrap) simp_all
  then show "cons_inv (stored_byte c s)" using assms by (simp add: cons_inv_def stored_byte_def)
  have "input (stored_byte c s) = input s @ [c]"
    using ring_push_contents [of 128 "cons_e s" "cons_r s" c "cons_buf s"] assms(2)
    by (simp add: input_def stored_byte_def ring_push_def)
  then show "lines (stored_byte c s) = (fst (lines s), snd (lines s) @ [c])"
    using assms(1) by (simp add: lines_def cons_inv_def Let_def stored_byte_def)
qed

lemma irq_ok_stored [simp]: "irq_ok (stored_byte c s) = irq_ok s"
  by (simp add: stored_byte_def irq_ok_def)

lemma finish_line:
  assumes "cons_inv s"
  shows "cons_inv (s\<lparr>cons_w := cons_e s\<rparr>)" "lines (s\<lparr>cons_w := cons_e s\<rparr>) = (fst (lines s) @ snd (lines s), [])"
  using assms by (simp_all add: cons_inv_def lines_def input_def Let_def)

lemma lines_length: "cons_inv s \<Longrightarrow> length (fst (lines s)) + length (snd (lines s)) = unat (cons_e s - cons_r s)"
  by (simp add: lines_def cons_inv_def Let_def)

definition cr_lf :: "uchar \<Rightarrow> uchar" where
  "cr_lf c = (if c = 13 then 10 else c)"

lemma uint_cr_lf: "(if uint c = 13 then 10 else uint c) = uint (cr_lf c)"
  by (auto simp: cr_lf_def word_uint_eq_iff)

definition ends_line :: "uchar \<Rightarrow> 'z console_scheme \<Rightarrow> bool" where
  "ends_line c s \<longleftrightarrow> c = 10 \<or> uint c = ctrl CHR ''D'' \<or> unat (cons_e s + 1 - cons_r s) = 128"

definition after_byte :: "uchar \<Rightarrow> 'z console_scheme \<Rightarrow> 'z console_scheme" where
  "after_byte c s =
     (let u = stored_byte c (printed [c] s) in if ends_line c s then woken_all ConsR (u\<lparr>cons_w := cons_e u\<rparr>) else u)"

lemma uint_10 [simp]: "uint (c :: uchar) = 10 \<longleftrightarrow> c = 10"
  by (simp add: word_uint_eq_iff)

lemma acquired_cons_upd [simp]:
  "(acquired l s)\<lparr>cons_w := x\<rparr> = acquired l (s\<lparr>cons_w := x\<rparr>)"
  "(acquired l s)\<lparr>cons_e := x\<rparr> = acquired l (s\<lparr>cons_e := x\<rparr>)"
  "(acquired l s)\<lparr>cons_buf := b\<rparr> = acquired l (s\<lparr>cons_buf := b\<rparr>)"
  "cons_r (acquired l s) = cons_r s" "cons_w (acquired l s) = cons_w s" "cons_e (acquired l s) = cons_e s"
  "cons_buf (acquired l s) = cons_buf s"
  by (simp_all add: acquired_def pushed_def upd_lock_def)

lemma store_branch:
  assumes "irq_ok s" "unat (cons_e s - cons_r s) < 128" "c \<noteq> 0" "uint c \<noteq> ctrl CHR ''P''" "uint c \<noteq> ctrl CHR ''U''"
    "uint c \<noteq> ctrl CHR ''H''" "c \<noteq> 0x7F"
  shows "consoleintr (uint c) s = Done () (relock (after_byte (cr_lf c) s))"
proof -
  let ?c = "cr_lf c" and ?u = "stored_byte (cr_lf c) (printed [cr_lf c] s)"
  have put: "consputc (uint ?c) (acquired ConsLock s) = Done () (acquired ConsLock (printed [?c] s))"
    using consputc_eval [of "acquired ConsLock s" ?c] irq_okD [OF assms(1)] by simp
  have wake: "wakeup ConsR (acquired ConsLock (?u\<lparr>cons_w := cons_e ?u\<rparr>)) = Done () (acquired ConsLock (woken_all ConsR (?u\<lparr>cons_w := cons_e ?u\<rparr>)))"
    using wakeup_all [of "acquired ConsLock (?u\<lparr>cons_w := cons_e ?u\<rparr>)" ConsR] irq_okD(6) [of "?u\<lparr>cons_w := cons_e ?u\<rparr>"] assms(1) by simp
  have c: "uint c \<noteq> 0x7F" "uint c \<noteq> 0" using assms(3,7) by (simp_all add: word_uint_eq_iff)
  have ok: "irq_ok (after_byte ?c s)" using assms(1) by (simp add: after_byte_def Let_def)
  show ?thesis
    unfolding consoleintr_def
    by (rule under_cons_lock [OF assms(1) _ ok])
      (use assms(2,4-6) c wake put in \<open>simp add: uint_cr_lf kbind_def INPUT_BUF_SIZE_def after_byte_def stored_byte_def ends_line_def Let_def\<close>)
qed

lemma after_byte_spec:
  assumes "cons_inv s" "unat (cons_e s - cons_r s) < 128" "c = cr_lf c'"
    "c' \<noteq> 0" "uint c' \<noteq> ctrl CHR ''P''" "uint c' \<noteq> ctrl CHR ''U''" "uint c' \<noteq> ctrl CHR ''H''" "c' \<noteq> 0x7F"
  shows "cons_inv (after_byte c s) \<and> lines (after_byte c s) = console_spec c' (lines s)"
proof -
  let ?s = "printed [c] s"
  have p: "cons_inv ?s" "lines ?s = lines s" using same_cons_lines [of s ?s] assms(1) by simp_all
  have st: "cons_inv (stored_byte c ?s)" "lines (stored_byte c ?s) = (fst (lines s), snd (lines s) @ [c])"
    "unat (cons_e s + 1 - cons_r s) = Suc (unat (cons_e s - cons_r s))"
    using stored_byte_lines(1,2) [OF p(1), of c] stored_byte_lines(3) [OF p(1)] p(2) assms(2) by simp_all
  let ?u = "stored_byte c ?s"
  have w: "cons_inv (woken_all ConsR (?u\<lparr>cons_w := cons_e ?u\<rparr>))"
    "lines (woken_all ConsR (?u\<lparr>cons_w := cons_e ?u\<rparr>)) = (fst (lines s) @ snd (lines s) @ [c], [])"
    using finish_line [OF st(1)] st(2) same_cons_lines [OF same_cons_simps(3) [of "?u\<lparr>cons_w := cons_e ?u\<rparr>" ConsR]] by simp_all
  have e: "ends_line c s \<longleftrightarrow> c = 10 \<or> uint c = ctrl CHR ''D'' \<or> length (fst (lines s)) + length (snd (lines s)) = 127"
    using lines_length [OF assms(1)] st(3) by (simp add: ends_line_def)
  have "\<not> 128 \<le> length (fst (lines s)) + length (snd (lines s))" using lines_length [OF assms(1)] assms(2) by simp
  then show ?thesis
    using st w e assms(3-8) by (cases "lines s") (simp add: after_byte_def Let_def cr_lf_def)
qed

lemma backspace_lines:
  assumes "cons_inv s" "cons_e s \<noteq> cons_w s"
  shows "cons_inv (s\<lparr>cons_e := cons_e s - 1\<rparr>)" "lines (s\<lparr>cons_e := cons_e s - 1\<rparr>) = (fst (lines s), butlast (snd (lines s)))"
proof -
  have d: "cons_e s - 1 - cons_w s = (cons_e s - cons_w s) - 1" by simp
  have "unat (cons_e s - 1 - cons_w s) \<le> unat (cons_e s - cons_w s)"
    unfolding d using unat_minus_1 [of "cons_e s - cons_w s"] assms(2) by simp
  then show i: "cons_inv (s\<lparr>cons_e := cons_e s - 1\<rparr>)"
    using counters_close [of "cons_w s" "cons_r s" "cons_e s" "cons_e s - 1"] assms(1) by (simp add: cons_inv_def)
  show "lines (s\<lparr>cons_e := cons_e s - 1\<rparr>) = (fst (lines s), butlast (snd (lines s)))"
    using lines_eval [OF i] lines_eval [OF assms(1)] ring_unpush_contents [OF assms(2), of 128 "cons_buf s"] by simp
qed

lemma killed_lines:
  assumes "cons_inv s" "unat (e - cons_w s) \<le> unat (cons_e s - cons_w s)"
    "ring_contents 128 (cons_buf s, cons_w s, e) =
        rev (dropWhile (\<lambda>c. c \<noteq> 10) (rev (ring_contents 128 (cons_buf s, cons_w s, cons_e s))))"
  shows "cons_inv (s\<lparr>cons_e := e\<rparr>)" "lines (s\<lparr>cons_e := e\<rparr>) = (fst (lines s), rev (dropWhile (\<lambda>c. c \<noteq> 10) (rev (snd (lines s)))))"
proof -
  show i: "cons_inv (s\<lparr>cons_e := e\<rparr>)"
    using counters_close [of "cons_w s" "cons_r s" "cons_e s" e] assms(1,2) by (simp add: cons_inv_def)
  show "lines (s\<lparr>cons_e := e\<rparr>) = (fst (lines s), rev (dropWhile (\<lambda>c. c \<noteq> 10) (rev (snd (lines s)))))"
    using lines_eval [OF i] lines_eval [OF assms(1)] assms(3) by simp
qed

lemma ctrl_codes [simp]: "ctrl CHR ''P'' = 16" "ctrl CHR ''U'' = 21" "ctrl CHR ''H'' = 8" "ctrl CHR ''D'' = 4"
  by (simp_all add: ctrl_def)

section \<open>Property\<close>



end
