(* ===== verification/Copyio.thy ===== *)
theory Copyio
  imports Usermem
begin

text \<open>
  \<open>copyout\<close> and \<open>copyin\<close> as operations on virtual memory: on addresses mapped for the user they are the
  writing and reading of bytes at virtual addresses, whatever physical pages these are on.
\<close>

section \<open>The virtual memory of a page table\<close>

definition user_ok :: "mem \<Rightarrow> uint64 \<Rightarrow> uint64 \<Rightarrow> bool" where
  "user_ok m pt va \<longleftrightarrow> va < MAXVA \<and> lookup m pt va AND PTE_V \<noteq> 0 \<and> lookup m pt va AND PTE_U \<noteq> 0"

definition umem :: "mem \<Rightarrow> uint64 \<Rightarrow> mem" where
  "umem m pt va = m (PTE2PA (lookup m pt va) + (va - PGROUNDDOWN va))"

text \<open>The pages of the user are no page tables, not free, and shared by no two virtual pages.\<close>

definition user_space :: "'z kmem_scheme \<Rightarrow> uint64 \<Rightarrow> uint64 list \<Rightarrow> bool" where
  "user_space s pt fl \<longleftrightarrow>
     (\<forall>va. user_ok (pmem s) pt va \<longrightarrow> PTE2PA (lookup (pmem s) pt va) \<noteq> 0
        \<and> PTE2PA (lookup (pmem s) pt va) \<notin> tables s pt \<union> set fl)
   \<and> (\<forall>va va'. user_ok (pmem s) pt va \<longrightarrow> user_ok (pmem s) pt va' \<longrightarrow> \<not> same_vpage va va'
        \<longrightarrow> PTE2PA (lookup (pmem s) pt va) \<noteq> PTE2PA (lookup (pmem s) pt va'))"

section \<open>Addresses\<close>

lemma aligned_PTE2PA [simp]: "aligned (PTE2PA e)"
  by (simp add: aligned_bits PTE2PA_def bit_simps)

lemma unat_offset: "unat (va - PGROUNDDOWN va) = unat va mod 4096"
  using unat_sub_le [OF PGROUNDDOWN_le, of va] by (simp add: unat_PGROUNDDOWN minus_div_mult_eq_mod)

lemma same_page_lookup: "va < MAXVA \<Longrightarrow> lookup m pt (PGROUNDDOWN va) = lookup m pt va"
proof -
  assume a: "va < MAXVA"
  have "PGROUNDDOWN va < MAXVA" using PGROUNDDOWN_le a by (rule order_le_less_trans)
  then have "same_vpage (PGROUNDDOWN va) va" using a by (simp add: same_vpage_iff PGROUNDDOWN_aligned)
  then show ?thesis by (rule same_vpage_lookup)
qed

lemma user_ok_page: "user_ok m pt va \<Longrightarrow> user_ok m pt (PGROUNDDOWN va)"
  using order_le_less_trans [OF PGROUNDDOWN_le, of va MAXVA] by (simp add: user_ok_def same_page_lookup)

lemma on_user_page: "on_page p (p + (va - PGROUNDDOWN va))"
  by (simp add: on_page_def unat_offset)

text \<open>Bytes written inside one page, seen at physical and at virtual addresses.\<close>

lemma poke_outside:
  assumes "aligned p" "unat a mod 4096 + length bs \<le> 4096" "PGROUNDDOWN a = p" "\<not> on_page p b"
  shows "poke m a bs b = m b"
proof -
  have "\<not> unat (b - a) < length bs"
  proof
    assume l: "unat (b - a) < length bs"
    have a: "unat (a - p) = unat a mod 4096" using unat_offset [of a] assms(3) by simp
    have "b - p = (a - p) + (b - a)" by simp
    moreover have "unat ((a - p) + (b - a)) = unat (a - p) + unat (b - a)"
      using a l assms(2) by (intro unat_add_nowrap) simp
    ultimately show False using a l assms(2,4) by (simp add: on_page_def)
  qed
  then show ?thesis by (simp add: poke_def)
qed

lemma same_page_diff:
  assumes "PGROUNDDOWN a = PGROUNDDOWN b"
  shows "(p + (b - PGROUNDDOWN b)) - (p + (a - PGROUNDDOWN a)) = b - a"
  using assms by simp

lemma poke_agree:
  assumes "aligned q" "aligned p" "p \<noteq> q" "unat off + length bs \<le> 4096"
  shows "agree_on q m (poke m (p + off) bs)"
  unfolding agree_on_def
proof (intro allI impI)
  fix b assume "on_page q b"
  then have "\<not> on_page p b" using on_page_unique assms(1-3) by blast
  moreover have p: "unat (p + off) = unat p + unat off" if "unat off < 4096"
    using that aligned_top [OF assms(2)] by (intro unat_add_nowrap) simp
  have "unat (p + off) mod 4096 = unat off \<and> PGROUNDDOWN (p + off) = p" if "unat off < 4096"
    using p [OF that] that assms(2) by (auto simp: aligned_unat word_unat_eq_iff unat_PGROUNDDOWN mod_add_left_eq [symmetric]
        div_add1_eq elim!: dvdE simp flip: mod_0_imp_dvd dest!: mod_0_imp_dvd)
  ultimately show "m b = poke m (p + off) bs b"
    using poke_outside [OF assms(2), of "p + off" bs b m] assms(4) by (cases bs) (auto simp: poke_def)
qed

text \<open>Storing bytes in one user page is storing them in virtual memory.\<close>

lemma poke_user_page:
  fixes s :: "'z kmem_scheme"
  assumes inv: "pt_inv s pt fl" and us: "user_space s pt fl" and va: "user_ok (pmem s) pt va" and len: "unat va mod 4096 + length bs \<le> 4096"
  defines "m \<equiv> poke (pmem s) (PTE2PA (lookup (pmem s) pt va) + (va - PGROUNDDOWN va)) bs"
  shows "pt_inv (s\<lparr>pmem := m\<rparr>) pt fl" "user_space (s\<lparr>pmem := m\<rparr>) pt fl" "lookup m pt va' = lookup (pmem s) pt va'"
    "user_ok (pmem s) pt va' \<Longrightarrow> umem m pt va' = poke (umem (pmem s) pt) va bs va'"
proof -
  let ?p = "PTE2PA (lookup (pmem s) pt va)"
  have p: "?p \<notin> tables s pt" "?p \<notin> set fl" using us va by (auto simp: user_space_def)
  have agree: "agree_on q (pmem s) m" if "aligned q" "q \<noteq> ?p" for q
    unfolding m_def using that len by (intro poke_agree) (auto simp: unat_offset)
  have q: "aligned q" if "q \<in> tables s pt \<union> set fl" for q
    using that inv pt_inv_node [OF inv] by (auto simp: pt_inv_def kmem_inv_def page_ok_def)
  note tf = tree_frame [of "pmem s" pt m]
  have t: "pt_tree (pmem s) 2 pt" using inv by (simp add: pt_inv_def)
  have ag: "agree_on q (pmem s) m" if "q \<in> tables s pt" for q using agree [of q] q [of q] that p(1) by auto
  show l: "lookup m pt va' = lookup (pmem s) pt va'" for va' using tf(3) [OF t] ag by blast
  have nodes: "nodes m 2 pt = tables s pt" using tf(2) [OF t] ag by blast
  have "kmem_inv (s\<lparr>pmem := m\<rparr>) fl"
    using inv agree q p(2) by (intro kmem_inv_frame) (auto simp: pt_inv_def)
  then show "pt_inv (s\<lparr>pmem := m\<rparr>) pt fl"
    using inv tf(1) [OF t] ag nodes by (auto simp: pt_inv_def page_ok_def)
  have ok: "user_ok m pt va' = user_ok (pmem s) pt va'" for va' by (simp add: user_ok_def l)
  show "user_space (s\<lparr>pmem := m\<rparr>) pt fl" using us by (simp add: user_space_def ok l nodes)
  show "umem m pt va' = poke (umem (pmem s) pt) va bs va'" if v: "user_ok (pmem s) pt va'"
  proof (cases "same_vpage va va'")
    case True
    then have e: "PGROUNDDOWN va = PGROUNDDOWN va'" "lookup (pmem s) pt va' = lookup (pmem s) pt va"
      using v va same_vpage_lookup [OF True] by (auto simp: user_ok_def same_vpage_iff)
    have "umem m pt va' = m (?p + (va' - PGROUNDDOWN va'))" by (simp add: umem_def l e(2))
    also have "\<dots> = poke (umem (pmem s) pt) va bs va'"
      unfolding m_def poke_def same_page_diff [OF e(1)] by (simp add: umem_def e(2))
    finally show ?thesis .
  next
    case False
    let ?q = "PTE2PA (lookup (pmem s) pt va')"
    have "?q \<noteq> ?p" using us v va False unfolding user_space_def by metis
    then have "umem m pt va' = umem (pmem s) pt va'"
      using agree [of ?q] on_user_page [of ?q va'] by (simp add: umem_def l agree_on_def)
    moreover have "\<not> on_page (PGROUNDDOWN va) va'"
      using False v va by (simp add: user_ok_def same_vpage_iff on_page_iff)
    then have "poke (umem (pmem s) pt) va bs va' = umem (pmem s) pt va'"
      using len by (intro poke_outside [of "PGROUNDDOWN va"]) simp_all
    ultimately show ?thesis by simp
  qed
qed

section \<open>The loops\<close>

lemma poke_append:
  assumes "unat a + length xs + length ys < 2 ^ 64" "ys = [] \<or> b = a + of_nat (length xs)"
  shows "poke (poke m a xs) b ys v = poke m a (xs @ ys) v"
proof (cases "ys = []")
  case False
  then have b: "v - b = (v - a) - of_nat (length xs)" using assms(2) by simp
  have u: "unat (of_nat (length xs) :: uint64) = length xs" using assms(1) by (intro unat_of_nat_small) simp
  show ?thesis
  proof (cases "length xs \<le> unat (v - a)")
    case True
    then have "unat ((v - a) - of_nat (length xs)) = unat (v - a) - length xs"
      using u by (subst unat_sub_le) (simp_all add: word_le_nat_alt)
    then show ?thesis using True by (auto simp: poke_def b nth_append)
  next
    case less: False
    then have "unat ((v - a) - of_nat (length xs)) = 2 ^ 64 - (length xs - unat (v - a))"
      using u by (simp add: unat_sub_if')
    then have "\<not> unat ((v - a) - of_nat (length xs)) < length ys" using assms(1) less by simp
    then show ?thesis using less by (auto simp: poke_def b nth_append)
  qed
qed (simp add: poke_def)

definition span :: "uint64 \<Rightarrow> nat \<Rightarrow> (uint64 \<Rightarrow> bool) \<Rightarrow> bool" where
  "span va n P \<longleftrightarrow> (\<forall>i < n. P (va + of_nat i))"

text \<open>One turn of either loop: \<open>n\<close> bytes are left on the page, and the next page starts after them.\<close>

lemma page_turn:
  fixes va :: uint64
  assumes "unat va + len \<le> 2 ^ 38" "0 < len"
  defines "n \<equiv> min (unat (PGSIZE - (va - PGROUNDDOWN va))) len"
  shows "unat va mod 4096 + n \<le> 4096" "0 < n" "n \<le> len" "n = len \<or> PGROUNDDOWN va + PGSIZE = va + of_nat n"
    "n < len \<Longrightarrow> unat (PGROUNDDOWN va + PGSIZE) + (len - n) \<le> 2 ^ 38"
proof -
  let ?o = "unat va mod 4096"
  have "unat (PGSIZE - (va - PGROUNDDOWN va)) = 4096 - ?o"
    using unat_offset [of va] by (subst unat_sub_le) (simp_all add: word_le_nat_alt PGSIZE_def)
  then have n: "n = min (4096 - ?o) len" by (simp add: n_def)
  have o: "?o < 4096" by simp
  show "?o + n \<le> 4096" "0 < n" "n \<le> len" using n o assms(2) by auto
  have e: "PGROUNDDOWN va + PGSIZE = va + of_nat n" if "n \<noteq> len"
  proof -
    have "n = 4096 - ?o" using that n by (simp add: min_def split: if_splits)
    then have "(of_nat n :: uint64) = 4096 - of_nat ?o" using o by (simp add: of_nat_diff)
    moreover have "(of_nat ?o :: uint64) = va - PGROUNDDOWN va" using unat_offset [of va] by (metis of_nat_unat ucast_id)
    ultimately show ?thesis by (simp add: PGSIZE_def)
  qed
  then show "n = len \<or> PGROUNDDOWN va + PGSIZE = va + of_nat n" by blast
  show "unat (PGROUNDDOWN va + PGSIZE) + (len - n) \<le> 2 ^ 38" if "n < len"
  proof -
    have "unat (va + of_nat n) = unat va + n" using assms(1) that by (subst unat_add_nowrap) (simp_all add: unat_of_nat_small)
    then show ?thesis using e that assms(1) by simp
  qed
qed

text \<open>What the loops find for a user address.\<close>

lemma user_walk:
  assumes "pt_inv s pt fl" "user_space s pt fl" "user_ok (pmem s) pt va"
  shows "PGROUNDDOWN va < MAXVA" "walkaddr pt (PGROUNDDOWN va) s = Done (PTE2PA (lookup (pmem s) pt va)) s"
    "PTE2PA (lookup (pmem s) pt va) \<noteq> 0"
    "\<exists>pte. walk pt (PGROUNDDOWN va) False s = Done pte s \<and> pte \<noteq> 0 \<and> read64 (pmem s) pte = lookup (pmem s) pt va"
proof -
  have va: "va < MAXVA" using assms(3) by (simp add: user_ok_def)
  show pg: "PGROUNDDOWN va < MAXVA" using PGROUNDDOWN_le va by (rule order_le_less_trans)
  have l: "lookup (pmem s) pt (PGROUNDDOWN va) = lookup (pmem s) pt va" using va by (rule same_page_lookup)
  show "walkaddr pt (PGROUNDDOWN va) s = Done (PTE2PA (lookup (pmem s) pt va)) s" "PTE2PA (lookup (pmem s) pt va) \<noteq> 0"
    using walkaddr_eval [OF assms(1), of "PGROUNDDOWN va"] pg l assms(2,3) by (auto simp: user_ok_def user_space_def)
  obtain q where q: "leaf_node (pmem s) pt (PGROUNDDOWN va) = Some q"
    using assms(3) l by (cases "leaf_node (pmem s) pt (PGROUNDDOWN va)") (auto simp: user_ok_def lookup_def)
  then show "\<exists>pte. walk pt (PGROUNDDOWN va) False s = Done pte s \<and> pte \<noteq> 0 \<and> read64 (pmem s) pte = lookup (pmem s) pt va"
    using walk_find [OF pg, of pt s] pt_inv_node [OF assms(1) leaf_table [OF q]] slot_nonzero [of q "PX 0 (PGROUNDDOWN va)"] l
    by (auto simp: lookup_def ent_def)
qed

definition page_room :: "uint64 \<Rightarrow> nat \<Rightarrow> nat" where
  "page_room va len = min (unat (PGSIZE - (va - PGROUNDDOWN va))) len"

lemma copyout_turn:
  fixes s :: "'z proctab_scheme"
  assumes "pt_inv s pt fl" "user_space s pt fl" "user_ok (pmem s) pt va" "lookup (pmem s) pt va AND PTE_W \<noteq> 0" "src \<noteq> []"
  shows "copyout_loop (Suc k) pt va src s = copyout_loop k pt (PGROUNDDOWN va + PGSIZE) (drop (page_room va (length src)) src)
    (s\<lparr>pmem := poke (pmem s) (PTE2PA (lookup (pmem s) pt va) + (va - PGROUNDDOWN va)) (take (page_room va (length src)) src)\<rparr>)"
proof -
  obtain pte where "walk pt (PGROUNDDOWN va) False s = Done pte s" "pte \<noteq> 0" "read64 (pmem s) pte = lookup (pmem s) pt va"
    using user_walk(4) [OF assms(1-3)] by blast
  then show ?thesis
    using assms(4,5) user_walk(1) [OF assms(1-3), folded not_le] user_walk(2,3) [OF assms(1-3)]
    by (simp add: page_room_def [symmetric] Let_def kbind_def)
qed

lemma copyin_turn:
  fixes s :: "'z proctab_scheme"
  assumes "pt_inv s pt fl" "user_space s pt fl" "user_ok (pmem s) pt va" "0 < len"
  shows "copyin_loop (Suc k) pt va len s =
    kbind (copyin_loop k pt (PGROUNDDOWN va + PGSIZE) (len - page_room va len)) (\<lambda>(r, bs).
      kret (r, peek (pmem s) (PTE2PA (lookup (pmem s) pt va) + (va - PGROUNDDOWN va)) (page_room va len) @ bs)) s"
  using assms(4) user_walk(2,3) [OF assms(1-3)] by (simp add: page_room_def [symmetric] Let_def kbind_def)

lemma span_next:
  assumes "span va len P" "page_room va len = len \<or> PGROUNDDOWN va + PGSIZE = va + of_nat (page_room va len)"
  shows "span (PGROUNDDOWN va + PGSIZE) (len - page_room va len) P"
  unfolding span_def
proof (intro allI impI)
  fix i assume i: "i < len - page_room va len"
  then have "PGROUNDDOWN va + PGSIZE + of_nat i = va + of_nat (page_room va len + i)" "page_room va len + i < len" using assms(2) by auto
  then show "P (PGROUNDDOWN va + PGSIZE + of_nat i)" using assms(1) unfolding span_def by metis
qed

lemma span_first: "span va len P \<Longrightarrow> 0 < len \<Longrightarrow> P va"
  by (auto simp: span_def dest: spec [of _ 0])

lemma room_turn:
  assumes "unat va + len \<le> 2 ^ 38" "0 < len"
  shows "unat va mod 4096 + page_room va len \<le> 4096" "0 < page_room va len" "page_room va len \<le> len"
    "page_room va len = len \<or> PGROUNDDOWN va + PGSIZE = va + of_nat (page_room va len)"
    "page_room va len < len \<Longrightarrow> unat (PGROUNDDOWN va + PGSIZE) + (len - page_room va len) \<le> 2 ^ 38"
  using page_turn [OF assms] unfolding page_room_def by blast+

definition wrote :: "'z kmem_scheme \<Rightarrow> uint64 \<Rightarrow> uint64 list \<Rightarrow> uint64 \<Rightarrow> uchar list \<Rightarrow> mem \<Rightarrow> bool" where
  "wrote s pt fl va bs m \<longleftrightarrow> pt_inv (s\<lparr>pmem := m\<rparr>) pt fl \<and> user_space (s\<lparr>pmem := m\<rparr>) pt fl
     \<and> (\<forall>a. lookup m pt a = lookup (pmem s) pt a)
     \<and> (\<forall>a. user_ok (pmem s) pt a \<longrightarrow> umem m pt a = poke (umem (pmem s) pt) va bs a)"

lemma wrote_nothing: "pt_inv s pt fl \<Longrightarrow> user_space s pt fl \<Longrightarrow> wrote s pt fl va [] (pmem s)"
  by (simp add: wrote_def poke_def)

lemma wrote_append:
  assumes "wrote s pt fl va xs m" "wrote (s\<lparr>pmem := m\<rparr>) pt fl b ys m'"
    "unat va + length xs + length ys < 2 ^ 64" "ys = [] \<or> b = va + of_nat (length xs)"
  shows "wrote s pt fl va (xs @ ys) m'"
proof -
  have "umem m' pt a = poke (umem (pmem s) pt) va (xs @ ys) a" if "user_ok (pmem s) pt a" for a
  proof -
    have "user_ok m pt a" using that assms(1) by (simp add: wrote_def user_ok_def)
    then have "umem m' pt a = poke (umem m pt) b ys a" using assms(2) by (simp add: wrote_def)
    also have "\<dots> = poke (poke (umem (pmem s) pt) va xs) b ys a" using assms(1) that by (simp add: wrote_def poke_def)
    also have "\<dots> = poke (umem (pmem s) pt) va (xs @ ys) a" by (rule poke_append [OF assms(3,4)])
    finally show ?thesis .
  qed
  then show ?thesis using assms(1,2) by (simp add: wrote_def)
qed

lemma copyout_loop_ok:
  fixes s :: "'z proctab_scheme"
  assumes "pt_inv s pt fl" "user_space s pt fl" "length src < k" "unat va + length src \<le> 2 ^ 38"
    "span va (length src) (\<lambda>a. user_ok (pmem s) pt a \<and> lookup (pmem s) pt a AND PTE_W \<noteq> 0)"
  shows "\<exists>m. copyout_loop k pt va src s = Done 0 (s\<lparr>pmem := m\<rparr>) \<and> wrote s pt fl va src m"
  using assms
proof (induction k arbitrary: s va src)
  case (Suc k)
  show ?case
  proof (cases "src = []")
    case True
    then show ?thesis using wrote_nothing [OF Suc.prems(1,2)] by (intro exI [of _ "pmem s"]) simp
  next
    case False
    let ?n = "page_room va (length src)" and ?va = "PGROUNDDOWN va + PGSIZE"
    have n: "unat va mod 4096 + ?n \<le> 4096" "0 < ?n" "?n \<le> length src" "?n = length src \<or> ?va = va + of_nat ?n"
      "?n < length src \<Longrightarrow> unat ?va + (length src - ?n) \<le> 2 ^ 38"
      using room_turn [of va "length src"] False Suc.prems(4) by auto
    have va: "user_ok (pmem s) pt va" "lookup (pmem s) pt va AND PTE_W \<noteq> 0"
      using span_first [OF Suc.prems(5)] False by auto
    define m where "m = poke (pmem s) (PTE2PA (lookup (pmem s) pt va) + (va - PGROUNDDOWN va)) (take ?n src)"
    have run: "copyout_loop (Suc k) pt va src s = copyout_loop k pt ?va (drop ?n src) (s\<lparr>pmem := m\<rparr>)"
      unfolding m_def by (rule copyout_turn [OF Suc.prems(1,2) va False])
    have w: "wrote s pt fl va (take ?n src) m"
      using poke_user_page [OF Suc.prems(1,2) va(1), of "take ?n src"] n(1,3) by (simp add: wrote_def m_def)
    let ?t = "s\<lparr>pmem := m\<rparr>"
    have inv: "pt_inv ?t pt fl" "user_space ?t pt fl" using w by (simp_all add: wrote_def)
    have "\<exists>m'. copyout_loop k pt ?va (drop ?n src) ?t = Done 0 (?t\<lparr>pmem := m'\<rparr>) \<and> wrote ?t pt fl ?va (drop ?n src) m'"
    proof (cases "?n = length src")
      case True
      then show ?thesis using Suc.prems(3) False wrote_nothing [OF inv, of ?va] by (cases k) auto
    next
      case less: False
      have "user_ok m pt a \<and> lookup m pt a AND PTE_W \<noteq> 0 \<longleftrightarrow> user_ok (pmem s) pt a \<and> lookup (pmem s) pt a AND PTE_W \<noteq> 0" for a
        using w by (simp add: wrote_def user_ok_def)
      then have sp: "span ?va (length (drop ?n src)) (\<lambda>a. user_ok (pmem ?t) pt a \<and> lookup (pmem ?t) pt a AND PTE_W \<noteq> 0)"
        using span_next [OF Suc.prems(5) n(4)] by simp
      show ?thesis by (rule Suc.IH [OF inv _ _ sp]) (use less n Suc.prems(3) in simp_all)
    qed
    then obtain m' where m': "copyout_loop k pt ?va (drop ?n src) ?t = Done 0 (s\<lparr>pmem := m'\<rparr>)" "wrote ?t pt fl ?va (drop ?n src) m'"
      by auto
    have "wrote s pt fl va (take ?n src @ drop ?n src) m'"
      by (rule wrote_append [OF w m'(2)]) (use n(3,4) Suc.prems(4) in auto)
    then show ?thesis using run m'(1) by auto
  qed
qed simp

lemma peek_append: "peek m a (i + j) = peek m a i @ peek m (a + of_nat i) j"
proof -
  have "map (\<lambda>k. m (a + of_nat k)) [i..<i + j] = map (\<lambda>k. m (a + of_nat i + of_nat k)) [0..<j]"
    by (intro nth_equalityI) (simp_all add: add.assoc)
  then show ?thesis unfolding peek_def upt_add_eq_append [OF le0] map_append by simp
qed

text \<open>Inside one page physical and virtual addresses run in parallel.\<close>

lemma peek_user_page:
  assumes "unat va mod 4096 + n \<le> 4096" "unat va + n \<le> 2 ^ 38"
  shows "peek m (PTE2PA (lookup m pt va) + (va - PGROUNDDOWN va)) n = peek (umem m pt) va n"
  unfolding peek_def
proof (rule map_cong [OF refl])
  fix i assume "i \<in> set [0..<n]"
  then have i: "i < n" by simp
  have u: "unat (va + of_nat i) = unat va + i" using assms(2) i by (subst unat_add_nowrap) (simp_all add: unat_of_nat_small)
  have "(unat va + i) div 4096 = (unat va div 4096 * 4096 + (unat va mod 4096 + i)) div 4096" by simp
  also have "\<dots> = unat va div 4096" using assms(1) i by (subst div_mult_self3) simp_all
  finally have g: "PGROUNDDOWN (va + of_nat i) = PGROUNDDOWN va" by (simp add: word_unat_eq_iff unat_PGROUNDDOWN u)
  have "va < MAXVA" "va + of_nat i < MAXVA" using u assms(2) i MAXVA_unat by (simp_all add: word_less_nat_alt)
  then have "lookup m pt (va + of_nat i) = lookup m pt va" using g same_page_lookup by metis
  then show "m (PTE2PA (lookup m pt va) + (va - PGROUNDDOWN va) + of_nat i) = umem m pt (va + of_nat i)"
    by (simp add: umem_def g algebra_simps)
qed

lemma copyin_loop_ok:
  fixes s :: "'z proctab_scheme"
  assumes "pt_inv s pt fl" "user_space s pt fl" "len < k" "unat va + len \<le> 2 ^ 38" "span va len (user_ok (pmem s) pt)"
  shows "copyin_loop k pt va len s = Done (0, peek (umem (pmem s) pt) va len) s"
  using assms(3-5)
proof (induction k arbitrary: va len)
  case (Suc k)
  show ?case
  proof (cases "len = 0")
    case False
    let ?n = "page_room va len" and ?va = "PGROUNDDOWN va + PGSIZE" and ?M = "umem (pmem s) pt"
    have n: "unat va mod 4096 + ?n \<le> 4096" "0 < ?n" "?n \<le> len" "?n = len \<or> ?va = va + of_nat ?n"
      "?n < len \<Longrightarrow> unat ?va + (len - ?n) \<le> 2 ^ 38"
      using room_turn [of va len] False Suc.prems(2) by auto
    have va: "user_ok (pmem s) pt va" using span_first [OF Suc.prems(3)] False by simp
    have "copyin_loop k pt ?va (len - ?n) s = Done (0, peek ?M ?va (len - ?n)) s"
    proof (cases "?n = len")
      case True
      then show ?thesis using Suc.prems(1) False by (cases k) (auto simp: peek_def)
    next
      case less: False
      show ?thesis by (rule Suc.IH [OF _ _ span_next [OF Suc.prems(3) n(4)]]) (use less n Suc.prems(1) in simp_all)
    qed
    moreover have "peek (pmem s) (PTE2PA (lookup (pmem s) pt va) + (va - PGROUNDDOWN va)) ?n = peek ?M va ?n"
      using n Suc.prems(2) by (intro peek_user_page) simp_all
    moreover have "peek ?M va ?n @ peek ?M ?va (len - ?n) = peek ?M va len"
      using n(3,4) peek_append [of ?M va ?n "len - ?n"] by (auto simp: peek_def)
    ultimately show ?thesis using copyin_turn [OF assms(1,2) va, of len k] False by simp
  qed (simp add: peek_def)
qed simp

lemma peek_poke: "unat va + length bs < 2 ^ 64 \<Longrightarrow> peek (poke m va bs) va (length bs) = bs"
  by (intro nth_equalityI) (simp_all add: peek_def poke_def unat_of_nat_small)

lemma peek_cong: "(\<And>i. i < n \<Longrightarrow> m (a + of_nat i) = m' (a + of_nat i)) \<Longrightarrow> peek m a n = peek m' a n"
  by (simp add: peek_def)

section \<open>Properties\<close>

text \<open>
  C27. \<open>copyout\<close> and \<open>copyin\<close> are the writing and reading of virtual memory: on a range that is mapped
  writable for the user, \<open>copyout\<close> returns 0 having written exactly the bytes of the range, at their virtual
  addresses and on however many pages; every other byte of the user, the page table and the free pages
  are as before; and \<open>copyin\<close> then returns the bytes written. The loops end.
\<close>

theorem copyout_copyin:
  fixes s :: "'z proctab_scheme"
  assumes "pt_inv s pt fl" "user_space s pt fl" "unat va + length bs \<le> 2 ^ 38"
    "span va (length bs) (\<lambda>a. user_ok (pmem s) pt a \<and> lookup (pmem s) pt a AND PTE_W \<noteq> 0)"
  shows "\<exists>m. copyout pt va bs s = Done 0 (s\<lparr>pmem := m\<rparr>)
    \<and> copyin pt va (length bs) (s\<lparr>pmem := m\<rparr>) = Done (0, bs) (s\<lparr>pmem := m\<rparr>)
    \<and> pt_inv (s\<lparr>pmem := m\<rparr>) pt fl \<and> (\<forall>a. lookup m pt a = lookup (pmem s) pt a)
    \<and> (\<forall>a. user_ok (pmem s) pt a \<longrightarrow> umem m pt a = poke (umem (pmem s) pt) va bs a)"
proof -
  obtain m where m: "copyout pt va bs s = Done 0 (s\<lparr>pmem := m\<rparr>)" "wrote s pt fl va bs m"
    using copyout_loop_ok [OF assms(1,2) _ assms(3,4), of "length bs + 1"] by (auto simp: copyout_def)
  have ok: "user_ok m pt a = user_ok (pmem s) pt a" for a using m(2) by (simp add: wrote_def user_ok_def)
  have sp: "span va (length bs) (user_ok m pt)" using assms(4) ok by (simp add: span_def)
  have "copyin pt va (length bs) (s\<lparr>pmem := m\<rparr>) = Done (0, peek (umem m pt) va (length bs)) (s\<lparr>pmem := m\<rparr>)"
    unfolding copyin_def using m(2) sp assms(3) by (subst copyin_loop_ok) (auto simp: wrote_def)
  moreover have "peek (umem m pt) va (length bs) = peek (poke (umem (pmem s) pt) va bs) va (length bs)"
    using m(2) sp ok by (intro peek_cong) (auto simp: wrote_def span_def)
  moreover have "\<dots> = bs" using assms(3) by (intro peek_poke) simp
  ultimately show ?thesis using m by (auto simp: wrote_def)
qed

text \<open>An address space of one page: page 0 is mapped to \<open>0x87FFC000\<close>, writable for the user.\<close>

lemma one_page_table:
  "\<exists>m. pt_tree m 2 0x87FFF000 \<and> nodes m 2 0x87FFF000 = {0x87FFF000, 0x87FFE000, 0x87FFD000}
     \<and> (\<forall>va. lookup m 0x87FFF000 va = (if same_vpage va 0 then PA2PTE 0x87FFC000 OR 0x17 else 0))"
proof -
  let ?p = "0x87FFF000 :: uint64" and ?a = "0x87FFE000 :: uint64" and ?b = "0x87FFD000 :: uint64"
  have al: "aligned ?p" "aligned ?a" "aligned ?b" by (simp_all add: aligned_def PGSIZE_def)
  have z: "ent (memset m ?a 0 4096) ?a 0 = 0" for m using ent_memset [OF al(2,2)] by simp
  have e0: "ent (\<lambda>_. 0) ?p i = 0" for i by (simp add: ent_def read64_def get64_def get32_def at_ptr_def)
  note t0 = empty_table [of "\<lambda>_. 0" ?p, OF e0 al(1)]
  define m1 where "m1 = write64 (memset (\<lambda>_. 0) ?a 0 4096) (slot ?p 0) (PA2PTE ?a OR PTE_V)"
  have t1: "node_at m1 ?p [0] = Some ?a" "pt_tree m1 2 ?p" "nodes m1 2 ?p = {?a, ?p}" "\<And>va. lookup m1 ?p va = 0"
    using tree_grow [OF t0(1), of "[]" ?p 0 ?a] t0 e0 al by (simp_all add: m1_def)
  define m2 where "m2 = write64 (memset m1 ?b 0 4096) (slot ?a 0) (PA2PTE ?b OR PTE_V)"
  have "ent m1 ?a 0 = ent (memset (\<lambda>_. 0) ?a 0 4096) ?a 0" unfolding m1_def by (subst ent_write64 [OF al(1,2)]) simp_all
  then have "ent m1 ?a 0 = 0" using z by (simp only:)
  then have t2: "node_at m2 ?p ([0] @ [0]) = Some ?b" "pt_tree m2 2 ?p" "nodes m2 2 ?p = {?b, ?a, ?p}" "\<And>va. lookup m2 ?p va = 0"
    using tree_grow [OF t1(2) _ t1(1), of 0 ?b] t1 al by (simp_all add: m2_def short_def)
  have px: "PX l 0 = 0" for l by (simp add: PX_def)
  have "leaf_node m2 ?p 0 = Some ?b" using t2(1) by (simp add: leaf_node_def px)
  note t3 = tree_leaf_store [OF t2(2) this, of "PA2PTE 0x87FFC000 OR 0x17"]
  show ?thesis
    by (rule exI [of _ "write64 m2 (slot ?b (PX 0 0)) (PA2PTE 0x87FFC000 OR 0x17)"]) (use t2 t3 in auto)
qed

lemma one_page_machine:
  "\<exists>m. pt_inv (sample_system\<lparr>pmem := m\<rparr>) 0x87FFF000 [] \<and> user_space (sample_system\<lparr>pmem := m\<rparr>) 0x87FFF000 []
     \<and> (\<forall>i < 4096. user_ok m 0x87FFF000 (of_nat i) \<and> lookup m 0x87FFF000 (of_nat i) AND PTE_W \<noteq> 0)"
proof -
  obtain m where m: "pt_tree m 2 0x87FFF000" "nodes m 2 0x87FFF000 = {0x87FFF000, 0x87FFE000, 0x87FFD000}"
    "\<And>va. lookup m 0x87FFF000 va = (if same_vpage va 0 then PA2PTE 0x87FFC000 OR 0x17 else 0)"
    using one_page_table by blast
  have e: "PA2PTE 0x87FFC000 OR 0x17 = 0x21FFF017" by (simp add: PA2PTE_def)
  have pa: "PTE2PA 0x21FFF017 = 0x87FFC000" by (simp add: PTE2PA_def)
  have bits: "(0x21FFF017 :: uint64) AND PTE_V \<noteq> 0" "(0x21FFF017 :: uint64) AND PTE_U \<noteq> 0" "(0x21FFF017 :: uint64) AND PTE_W \<noteq> 0"
    by (simp_all add: PTE_V_def PTE_U_def PTE_W_def)
  have "pt_inv (sample_system\<lparr>pmem := m\<rparr>) 0x87FFF000 []"
    using m(1,2) by (simp add: pt_inv_def kmem_inv_def page_ok_def ready_def aligned_def PGSIZE_def PHYSTOP_def KERNBASE_def layout_ok_def sample_system_def
       cpu_ok_def lock_idle_def cpu_defs)
  moreover have ok: "user_ok m 0x87FFF000 va \<longleftrightarrow> va < MAXVA \<and> same_vpage va 0" for va
    using bits m(3) [of va] by (auto simp: user_ok_def e)
  have "same_vpage va va'" if "same_vpage va 0" "same_vpage va' 0" for va va' using that by (simp add: same_vpage_def)
  then have "user_space (sample_system\<lparr>pmem := m\<rparr>) 0x87FFF000 []"
    unfolding user_space_def using m(2,3) ok pa by (auto simp: e)
  moreover have "user_ok m 0x87FFF000 (of_nat i) \<and> lookup m 0x87FFF000 (of_nat i) AND PTE_W \<noteq> 0" if "i < 4096" for i
  proof -
    have u: "unat (of_nat i :: uint64) = i" using that by (intro unat_of_nat_small) simp
    then have "(of_nat i :: uint64) < MAXVA" "(0 :: uint64) < MAXVA" using that MAXVA_unat by (simp_all add: word_less_nat_alt)
    moreover have "PGROUNDDOWN (of_nat i) = PGROUNDDOWN 0" using u that by (simp add: word_unat_eq_iff unat_PGROUNDDOWN)
    ultimately show ?thesis using ok [of "of_nat i"] m(3) [of "of_nat i"] bits by (simp add: same_vpage_iff e)
  qed
  ultimately show ?thesis by blast
qed

theorem copyout_copyin_witness:
  "\<exists>s m :: proctab. copyout 0x87FFF000 100 [1, 2, 3] s = Done 0 m \<and> copyin 0x87FFF000 100 3 m = Done (0, [1, 2, 3]) m"
proof -
  obtain m where m: "pt_inv (sample_system\<lparr>pmem := m\<rparr>) 0x87FFF000 []" "user_space (sample_system\<lparr>pmem := m\<rparr>) 0x87FFF000 []"
    "\<And>i. i < 4096 \<Longrightarrow> user_ok m 0x87FFF000 (of_nat i) \<and> lookup m 0x87FFF000 (of_nat i) AND PTE_W \<noteq> 0"
    using one_page_machine by blast
  have "span 100 3 (\<lambda>a. user_ok m 0x87FFF000 a \<and> lookup m 0x87FFF000 a AND PTE_W \<noteq> 0)"
    unfolding span_def
  proof (intro allI impI)
    fix i :: nat assume "i < 3"
    then show "user_ok m 0x87FFF000 (100 + of_nat i) \<and> lookup m 0x87FFF000 (100 + of_nat i) AND PTE_W \<noteq> 0"
      using m(3) [of "100 + i"] by simp
  qed
  then show ?thesis using copyout_copyin [OF m(1,2), of 100 "[1, 2, 3]"] by (auto simp: numeral_3_eq_3)
qed

end
