(* ===== verification/Pipeq.thy ===== *)
theory Pipeq
  imports File Copyio Sample
begin

text \<open>
  Pipes are byte queues: \<open>pipewrite\<close> appends bytes of the writer's memory and \<open>piperead\<close> takes bytes from
  the front into the reader's, through the circular array and its two counters. A writer that finds the
  pipe full and a reader that finds it empty give up the lock and go to sleep.
\<close>

section \<open>The queue of a pipe\<close>

definition pipe_ring :: "pipe \<Rightarrow> ring_state" where
  "pipe_ring q = (pi_data q, pi_nread q, pi_nwrite q)"

definition queued :: "'z files_scheme \<Rightarrow> uint64 \<Rightarrow> uchar list" where
  "queued s p = ring_contents 512 (pipe_ring (pipes s p))"

definition pipe_push :: "uchar \<Rightarrow> pipe \<Rightarrow> pipe" where
  "pipe_push c q = q\<lparr>pi_data := (pi_data q)(unat (pi_nwrite q) mod 512 := c), pi_nwrite := pi_nwrite q + 1\<rparr>"

definition pipe_pop :: "pipe \<Rightarrow> uchar \<times> pipe" where
  "pipe_pop q = (pi_data q (unat (pi_nread q) mod 512), q\<lparr>pi_nread := pi_nread q + 1\<rparr>)"

interpretation pipeq: byte_queue 512 "\<lambda>q. ring_contents 512 (pipe_ring q)" pipe_push pipe_pop
proof
  fix q :: pipe and c
  show "length (ring_contents 512 (pipe_ring q)) < 512 \<Longrightarrow>
      ring_contents 512 (pipe_ring (pipe_push c q)) = ring_contents 512 (pipe_ring q) @ [c]"
    using ring_push_contents [of 512 "pi_nwrite q" "pi_nread q" c "pi_data q"]
    by (simp add: pipe_ring_def pipe_push_def ring_push_def)
  show "ring_contents 512 (pipe_ring q) \<noteq> [] \<Longrightarrow>
      ring_contents 512 (pipe_ring q) = fst (pipe_pop q) # ring_contents 512 (pipe_ring (snd (pipe_pop q)))"
    using ring_pop_contents [of "pi_nwrite q" "pi_nread q" 512 "pi_data q"]
    by (cases "pi_nwrite q = pi_nread q") (simp_all add: pipe_ring_def pipe_pop_def ring_pop_def ring_contents_def)
qed

lemma length_queued: "length (queued s p) = unat (pi_nwrite (pipes s p) - pi_nread (pipes s p))"
  by (simp add: queued_def pipe_ring_def)

lemma queue_full: "length (queued s p) \<le> 512 \<Longrightarrow>
  pi_nwrite (pipes s p) = pi_nread (pipes s p) + of_nat PIPESIZE \<longleftrightarrow> length (queued s p) = 512"
  unfolding length_queued PIPESIZE_def by (subst word_offset_iff) simp_all

lemma queue_empty: "pi_nread (pipes s p) = pi_nwrite (pipes s p) \<longleftrightarrow> queued s p = []"
  unfolding length_0_conv [symmetric] length_queued by (auto simp: unat_eq_0)

section \<open>Updates of pipes\<close>

lemma upd_pipe_simps [simp]:
  "pipes (upd_pipe p g s) p' = (if p' = p then g (pipes s p) else pipes s p')"
  "upd_pipe p g (acquired l s) = acquired l (upd_pipe p g s)" "upd_pipe p g (relock s) = relock (upd_pipe p g s)"
  "upd_pipe p g (s\<lparr>pmem := m\<rparr>) = (upd_pipe p g s)\<lparr>pmem := m\<rparr>"
  "pmem (upd_pipe p g s) = pmem s" "ptab (upd_pipe p g s) = ptab s" "me (upd_pipe p g s) = me s"
  "lock_idle l (upd_pipe p g s) = lock_idle l s" "cpu_ok (upd_pipe p g s) = cpu_ok s" "ready l (upd_pipe p g s) = ready l s"
  "hart (upd_pipe p g s) = hart s" "mycpu (upd_pipe p g s) = mycpu s" "cpus (upd_pipe p g s) = cpus s" "freelist (upd_pipe p g s) = freelist s" "ld_end (upd_pipe p g s) = ld_end s"
  by (simp_all add: upd_pipe_def acquired_def pushed_def upd_lock_def relock_def me_def lock_idle_def cpu_ok_def ready_def cpu_defs)

lemma upd_pipe_quiet [simp]: "quiet (upd_pipe p g s) = quiet s"
  unfolding quiet_def by simp

lemma upd_pipe_inv [simp]:
  "pt_inv (upd_pipe p g s) pt fl = pt_inv s pt fl" "user_space (upd_pipe p g s) pt fl = user_space s pt fl"
  by (simp_all add: pt_inv_def kmem_inv_def layout_ok_def page_ok_def user_space_def)

lemma pipes_simps [simp]:
  "pipes (acquired l s) = pipes s" "pipes (relock s) = pipes s" "pipes (woken_all ch s) = pipes s" "pipes (s\<lparr>pmem := m\<rparr>) = pipes s"
  by (simp_all add: acquired_def pushed_def upd_lock_def relock_def woken_all_def)

lemma pt_inv_pipe_lock: "pt_inv s pt fl \<Longrightarrow> pt_inv (acquired (PipeLock p) s) pt fl"
  by (simp add: pt_inv_def kmem_inv_def layout_ok_def page_ok_def)

lemma user_space_acquired [simp]: "user_space (acquired l s) pt fl = user_space s pt fl"
  by (simp add: user_space_def)

lemma pt_inv_ready [simp]: "pt_inv s pt fl \<Longrightarrow> ready KmemLock s"
  by (simp add: pt_inv_def kmem_inv_def)

section \<open>The loops\<close>

text \<open>A running process that was not killed, with its own address space.\<close>

definition user_at :: "'z files_scheme \<Rightarrow> nat \<Rightarrow> uint64 \<Rightarrow> uint64 list \<Rightarrow> bool" where
  "user_at s pr pt fl \<longleftrightarrow> quiet s \<and> noff (mycpu s) = 0 \<and> me s = Some pr \<and> p_killed (ptab s pr) = 0 \<and> p_pagetable (ptab s pr) = pt
     \<and> pt_inv s pt fl \<and> user_space s pt fl"

lemma user_at_upd [simp]: "user_at (upd_pipe p g s) pr pt fl = user_at s pr pt fl"
  by (simp add: user_at_def)

lemma killed_in_pipe:
  assumes "user_at s pr pt fl"
  shows "killed pr (acquired (PipeLock p) s) = Done 0 (acquired (PipeLock p) s)"
  using assms by (simp add: user_at_def killed_def release_acquired)

lemma copyin_byte:
  assumes "user_at s pr pt fl" "user_ok (pmem s) pt a"
  shows "copyin pt a 1 (acquired (PipeLock p) s) = Done (0, [umem (pmem s) pt a]) (acquired (PipeLock p) s)"
proof -
  have "unat a + 1 \<le> 2 ^ 38" using assms(2) MAXVA_unat by (simp add: user_ok_def word_less_nat_alt)
  then show ?thesis
    unfolding copyin_def using assms pt_inv_pipe_lock [of s pt fl p]
    by (subst copyin_loop_ok [where fl = fl]) (simp_all add: user_at_def span_def peek_def)
qed

lemma write_turn:
  assumes "user_at s pr pt fl" "pi_readopen (pipes s p)" "length (queued s p) < 512" "user_ok (pmem s) pt (addr + of_nat i)"
  shows "pipewrite_loop pr p addr i (Suc m) (acquired (PipeLock p) s) =
    pipewrite_loop pr p addr (i + 1) m (acquired (PipeLock p) (upd_pipe p (pipe_push (umem (pmem s) pt (addr + of_nat i))) s))"
proof -
  have "pi_nwrite (pipes s p) \<noteq> pi_nread (pipes s p) + of_nat PIPESIZE" using queue_full [of s p] assms(3) by simp
  moreover have "upd_pipe p (\<lambda>q. q\<lparr>pi_data := (pi_data q)(unat (pi_nwrite q) mod PIPESIZE := c), pi_nwrite := pi_nwrite q + 1\<rparr>) s
    = upd_pipe p (pipe_push c) s" for c by (simp add: upd_pipe_def pipe_push_def PIPESIZE_def)
  moreover have "p_pagetable (ptab s pr) = pt" using assms(1) by (simp add: user_at_def)
  ultimately show ?thesis
    using assms(2) killed_in_pipe [OF assms(1), of p] copyin_byte [OF assms(1,4), of p]
    by (simp add: kbind_def set_pipe_def)
qed

definition push_all :: "uint64 \<Rightarrow> uchar list \<Rightarrow> 'z files_scheme \<Rightarrow> 'z files_scheme" where
  "push_all p bs s = upd_pipe p (pipeq.push_list bs) s"

lemma push_all_rec [simp]: "push_all p [] s = s" "push_all p (c # bs) s = push_all p bs (upd_pipe p (pipe_push c) s)"
  by (simp_all add: push_all_def upd_pipe_def)

lemma push_all_simps [simp]:
  "user_at (push_all p bs s) pr pt fl = user_at s pr pt fl" "pmem (push_all p bs s) = pmem s" "me (push_all p bs s) = me s"
  "quiet (push_all p bs s) = quiet s" "ptab (push_all p bs s) = ptab s"
  by (simp_all add: push_all_def)

lemma queued_push_all: "length (queued s p) + length bs \<le> 512 \<Longrightarrow> queued (push_all p bs s) p = queued s p @ bs"
  using pipeq.push_list_law [of "pipes s p" bs] by (simp add: push_all_def queued_def)

lemma readopen_push: "pi_readopen (pipe_push c q) = pi_readopen q" "pi_writeopen (pipe_push c q) = pi_writeopen q"
  by (simp_all add: pipe_push_def)

lemma peek_Suc: "peek m a (Suc k) = m a # peek m (a + 1) k"
  by (simp add: peek_def upt_conv_Cons map_Suc_upt [symmetric] comp_def add.assoc del: upt_Suc)

lemma span_Suc: "span a (Suc k) P \<longleftrightarrow> P a \<and> span (a + 1) k P"
  by (auto simp: span_def less_Suc_eq_0_disj add.assoc)

lemma write_turns:
  assumes "user_at s pr pt fl" "pi_readopen (pipes s p)" "length (queued s p) + k \<le> 512" "span (addr + of_nat i) k (user_ok (pmem s) pt)"
  shows "pipewrite_loop pr p addr i (k + m) (acquired (PipeLock p) s) =
    pipewrite_loop pr p addr (i + k) m (acquired (PipeLock p) (push_all p (peek (umem (pmem s) pt) (addr + of_nat i) k) s))"
  using assms
proof (induction k arbitrary: i s)
  case (Suc k)
  let ?c = "umem (pmem s) pt (addr + of_nat i)"
  let ?t = "upd_pipe p (pipe_push ?c) s"
  have "user_ok (pmem s) pt (addr + of_nat i)" using span_first [OF Suc.prems(4)] by simp
  then have "pipewrite_loop pr p addr i (Suc k + m) (acquired (PipeLock p) s) = pipewrite_loop pr p addr (i + 1) (k + m) (acquired (PipeLock p) ?t)"
    using write_turn [OF Suc.prems(1,2), of addr i "k + m"] Suc.prems(3) by simp
  also have "\<dots> = pipewrite_loop pr p addr (i + 1 + k) m (acquired (PipeLock p) (push_all p (peek (umem (pmem ?t) pt) (addr + of_nat (i + 1)) k) ?t))"
  proof (rule Suc.IH)
    show "length (queued ?t p) + k \<le> 512" using queued_push_all [of s p "[?c]"] Suc.prems(3) by simp
    show "span (addr + of_nat (i + 1)) k (user_ok (pmem ?t) pt)"
      using Suc.prems(4) by (simp add: span_Suc algebra_simps)
  qed (use Suc.prems in \<open>simp_all add: readopen_push\<close>)
  finally show ?case by (simp add: peek_Suc algebra_simps)
qed (simp add: peek_def)

section \<open>Writing\<close>

lemma wake_in_pipe:
  assumes "quiet s"
  shows "wakeup ch (acquired (PipeLock p) s) = Done () (acquired (PipeLock p) (woken_all ch s))"
  using wakeup_all [of "acquired (PipeLock p) s" ch] assms by simp

lemma woken_more [simp]: "quiet (woken_all ch s) = quiet s" "mycpu (woken_all ch s) = mycpu s"
  unfolding quiet_def by (simp_all add: woken_all_def mycpu_def cpuid_def)

lemma queued_more [simp]:
  "queued (acquired l s) p = queued s p" "queued (relock s) p = queued s p" "queued (woken_all ch s) p = queued s p"
  "queued (asleep ch pr s) p = queued s p"
  by (simp_all add: queued_def asleep_def set_proc_def upd_proc_def acquired_def pushed_def upd_lock_def)

lemma asleep_slot [simp]: "p_state (ptab (asleep ch pr s) pr) = SLEEPING" "p_chan (ptab (asleep ch pr s) pr) = Some ch"
  by (simp_all add: asleep_def)

lemma write_done:
  assumes "quiet s"
  shows "pipewrite_loop pr p addr i 0 (acquired (PipeLock p) s) = Done (int i) (relock (woken_all (PipeNread p) s))"
  using wake_in_pipe [OF assms] assms by (simp add: release_acquired)

lemma write_sleeps:
  assumes "user_at s pr pt fl" "pi_readopen (pipes s p)" "length (queued s p) = 512"
  shows "pipewrite_loop pr p addr i (Suc m) (acquired (PipeLock p) s) = Switch (asleep (PipeNwrite p) pr (woken_all (PipeNread p) s))"
proof -
  have "pi_nwrite (pipes s p) = pi_nread (pipes s p) + of_nat PIPESIZE" using queue_full [of s p] assms(3) by simp
  moreover have q: "quiet s" "me s = Some pr" "noff (mycpu s) = 0" using assms(1) by (simp_all add: user_at_def)
  moreover have "sleep (PipeNwrite p) (PipeLock p) (acquired (PipeLock p) (woken_all (PipeNread p) s)) = Switch (asleep (PipeNwrite p) pr (woken_all (PipeNread p) s))"
    using q by (intro sleep_eval) simp_all
  ultimately show ?thesis
    using assms(2) killed_in_pipe [OF assms(1), of p] wake_in_pipe [OF q(1), of "PipeNread p" p] by (simp add: kbind_def)
qed

lemma pipewrite_enter:
  assumes "user_at s pr pt fl"
  shows "pipewrite p addr n s = pipewrite_loop pr p addr 0 (nat n) (acquired (PipeLock p) s)"
proof -
  have "quiet s" "me s = Some pr" using assms by (simp_all add: user_at_def)
  then show ?thesis unfolding pipewrite_def by (simp add: myproc_eval)
qed

section \<open>Reading\<close>

lemma user_at_wrote:
  assumes "user_at s pr pt fl" "wrote s pt fl va bs m"
  shows "user_at (s\<lparr>pmem := m\<rparr>) pr pt fl"
proof -
  have "quiet (s\<lparr>pmem := m\<rparr>) = quiet s" unfolding quiet_def by (simp add: me_def lock_idle_def cpu_ok_def cpu_defs)
  then show ?thesis using assms by (simp add: user_at_def wrote_def me_def cpu_defs)
qed

lemma copyout_byte:
  assumes "user_at s pr pt fl" "user_ok (pmem s) pt a" "lookup (pmem s) pt a AND PTE_W \<noteq> 0"
  shows "\<exists>m. copyout pt a [c] (acquired (PipeLock p) s) = Done 0 (acquired (PipeLock p) (s\<lparr>pmem := m\<rparr>)) \<and> wrote s pt fl a [c] m"
proof -
  have a: "unat a + 1 \<le> 2 ^ 38" using assms(2) MAXVA_unat by (simp add: user_ok_def word_less_nat_alt)
  have i: "pt_inv s pt fl" "user_space s pt fl" using assms(1) by (simp_all add: user_at_def)
  let ?m = "poke (pmem s) (PTE2PA (lookup (pmem s) pt a) + (a - PGROUNDDOWN a)) [c]"
  have r: "page_room a 1 = 1" using room_turn(2,3) [of a 1] a by simp
  have "copyout pt a [c] (acquired (PipeLock p) s) = Done 0 (acquired (PipeLock p) (s\<lparr>pmem := ?m\<rparr>))"
    unfolding copyout_def using copyout_turn [OF pt_inv_pipe_lock [OF i(1)], of p a "[c]" 1] i(2) assms(2,3) r by simp
  moreover have "wrote s pt fl a [c] ?m"
    using poke_user_page [OF i assms(2), of "[c]"] room_turn(1) [of a 1] a r by (simp add: wrote_def)
  ultimately show ?thesis by blast
qed

definition pop_all :: "uint64 \<Rightarrow> nat \<Rightarrow> 'z files_scheme \<Rightarrow> 'z files_scheme" where
  "pop_all p k s = upd_pipe p (\<lambda>q. snd (pipeq.pop_list k q)) s"

lemma pop_all_rec: "pop_all p 0 s = s" "pop_all p (Suc k) s = pop_all p k (upd_pipe p (\<lambda>q. snd (pipe_pop q)) s)"
  by (simp_all add: pop_all_def upd_pipe_def split_beta)

lemma pop_all_simps [simp]:
  "user_at (pop_all p k s) pr pt fl = user_at s pr pt fl" "pmem (pop_all p k s) = pmem s" "ptab (pop_all p k s) = ptab s"
  "pop_all p k (s\<lparr>pmem := m\<rparr>) = (pop_all p k s)\<lparr>pmem := m\<rparr>"
  by (simp_all add: pop_all_def)

lemma queued_pmem [simp]: "queued (s\<lparr>pmem := m\<rparr>) p = queued s p"
  by (simp add: queued_def)

lemma queued_pop: "k \<le> length (queued s p) \<Longrightarrow> queued (pop_all p k s) p = drop k (queued s p)"
  using pipeq.pop_list_law [of k "pipes s p"] by (simp add: pop_all_def queued_def)

lemma wrote_upd_pipe: "wrote (upd_pipe p g s) pt fl va bs m = wrote s pt fl va bs m"
proof -
  have "pt_inv ((upd_pipe p g s)\<lparr>pmem := m\<rparr>) pt fl = pt_inv (upd_pipe p g (s\<lparr>pmem := m\<rparr>)) pt fl"
    "user_space ((upd_pipe p g s)\<lparr>pmem := m\<rparr>) pt fl = user_space (upd_pipe p g (s\<lparr>pmem := m\<rparr>)) pt fl" by simp_all
  then show ?thesis unfolding wrote_def by (simp only: upd_pipe_inv) simp
qed

lemma read_turn:
  assumes "user_at s pr pt fl" "queued s p \<noteq> []"
    "user_ok (pmem s) pt (addr + of_nat i)" "lookup (pmem s) pt (addr + of_nat i) AND PTE_W \<noteq> 0"
  shows "\<exists>m. piperead_copy pr p addr i (Suc j) (acquired (PipeLock p) s) =
      piperead_copy pr p addr (i + 1) j (acquired (PipeLock p) ((pop_all p 1 s)\<lparr>pmem := m\<rparr>))
    \<and> wrote s pt fl (addr + of_nat i) [hd (queued s p)] m"
proof -
  let ?u = "upd_pipe p (\<lambda>q. snd (pipe_pop q)) s"
  have c: "pi_data (pipes s p) (unat (pi_nread (pipes s p)) mod PIPESIZE) = hd (queued s p)"
    using pipeq.pop_law [of "pipes s p"] assms(2) by (simp add: queued_def pipe_pop_def PIPESIZE_def)
  have e: "upd_pipe p (\<lambda>q. q\<lparr>pi_nread := pi_nread q + 1\<rparr>) s = ?u" by (simp add: upd_pipe_def pipe_pop_def)
  have pt: "p_pagetable (ptab s pr) = pt" using assms(1) by (simp add: user_at_def)
  obtain m where m: "copyout pt (addr + of_nat i) [hd (queued s p)] (acquired (PipeLock p) ?u) = Done 0 (acquired (PipeLock p) (?u\<lparr>pmem := m\<rparr>))"
      "wrote ?u pt fl (addr + of_nat i) [hd (queued s p)] m"
    using copyout_byte [of ?u pr pt fl "addr + of_nat i"] assms by auto
  have "piperead_copy pr p addr i (Suc j) (acquired (PipeLock p) s) = piperead_copy pr p addr (i + 1) j (acquired (PipeLock p) (?u\<lparr>pmem := m\<rparr>))"
    using m(1) queue_empty [of s p] assms(2) pt by (simp add: c e set_pipe_def Let_def kbind_def)
  then show ?thesis using m(2) by (auto simp: pop_all_rec wrote_upd_pipe)
qed

lemma read_turns:
  assumes "user_at s pr pt fl" "k \<le> length (queued s p)" "unat (addr + of_nat i) + k \<le> 2 ^ 38"
    "span (addr + of_nat i) k (\<lambda>a. user_ok (pmem s) pt a \<and> lookup (pmem s) pt a AND PTE_W \<noteq> 0)"
  shows "\<exists>m. piperead_copy pr p addr i (k + j) (acquired (PipeLock p) s) =
      piperead_copy pr p addr (i + k) j (acquired (PipeLock p) ((pop_all p k s)\<lparr>pmem := m\<rparr>))
    \<and> wrote s pt fl (addr + of_nat i) (take k (queued s p)) m"
  using assms
proof (induction k arbitrary: i s)
  case 0
  then show ?case using wrote_nothing [of s pt fl] by (intro exI [of _ "pmem s"]) (simp add: pop_all_rec user_at_def)
next
  case (Suc k)
  let ?a = "addr + of_nat i" and ?q = "queued s p"
  have ne: "?q \<noteq> []" using Suc.prems(2) by auto
  obtain m where m: "piperead_copy pr p addr i (Suc k + j) (acquired (PipeLock p) s) =
      piperead_copy pr p addr (i + 1) (k + j) (acquired (PipeLock p) ((pop_all p 1 s)\<lparr>pmem := m\<rparr>))" "wrote s pt fl ?a [hd ?q] m"
    using read_turn [OF Suc.prems(1) ne, of addr i "k + j"] span_first [OF Suc.prems(4)] by auto
  let ?t = "(pop_all p 1 s)\<lparr>pmem := m\<rparr>"
  have q: "queued ?t p = tl ?q" using queued_pop [of 1 s p] Suc.prems(2) by (simp add: drop_Suc)
  have ok: "user_ok m pt a \<and> lookup m pt a AND PTE_W \<noteq> 0 \<longleftrightarrow> user_ok (pmem s) pt a \<and> lookup (pmem s) pt a AND PTE_W \<noteq> 0" for a
    using m(2) by (simp add: wrote_def user_ok_def)
  have e: "addr + of_nat (i + 1) = ?a + 1" by simp
  have u: "unat (?a + 1) = unat ?a + 1" by (rule trans [OF unat_add_nowrap]) (use Suc.prems(3) in simp_all)
  have "\<exists>m'. piperead_copy pr p addr (i + 1) (k + j) (acquired (PipeLock p) ?t) =
      piperead_copy pr p addr (i + 1 + k) j (acquired (PipeLock p) ((pop_all p k ?t)\<lparr>pmem := m'\<rparr>))
    \<and> wrote ?t pt fl (addr + of_nat (i + 1)) (take k (queued ?t p)) m'"
  proof (rule Suc.IH)
    show "user_at ?t pr pt fl" using user_at_wrote [OF _ m(2)] Suc.prems(1) by (metis pop_all_simps(1,4))
    show "k \<le> length (queued ?t p)" using q Suc.prems(2) by simp
    show "unat (addr + of_nat (i + 1)) + k \<le> 2 ^ 38" unfolding e u using Suc.prems(3) by simp
    show "span (addr + of_nat (i + 1)) k (\<lambda>a. user_ok (pmem ?t) pt a \<and> lookup (pmem ?t) pt a AND PTE_W \<noteq> 0)"
      unfolding e using Suc.prems(4) ok by (simp add: span_Suc)
  qed
  then obtain m' where m': "piperead_copy pr p addr (i + 1) (k + j) (acquired (PipeLock p) ?t) =
      piperead_copy pr p addr (i + 1 + k) j (acquired (PipeLock p) ((pop_all p k ?t)\<lparr>pmem := m'\<rparr>))"
    "wrote ?t pt fl (addr + of_nat (i + 1)) (take k (tl ?q)) m'" unfolding q by blast
  have "wrote (s\<lparr>pmem := m\<rparr>) pt fl (addr + of_nat (i + 1)) (take k (tl ?q)) m'"
    using m'(2) wrote_upd_pipe [of p _ "s\<lparr>pmem := m\<rparr>"] by (simp add: pop_all_def)
  then have "wrote s pt fl ?a ([hd ?q] @ take k (tl ?q)) m'"
    by (rule wrote_append [OF m(2)]) (use Suc.prems(2,3) in \<open>auto simp: algebra_simps\<close>)
  moreover have "[hd ?q] @ take k (tl ?q) = take (Suc k) ?q" using ne by (simp add: take_Suc)
  moreover have "(pop_all p k ?t)\<lparr>pmem := m'\<rparr> = (pop_all p (Suc k) s)\<lparr>pmem := m'\<rparr>" by (simp add: pop_all_rec)
  ultimately show ?case using m(1) m'(1) by auto
qed

lemma read_end:
  assumes "queued s p = [] \<or> j = 0"
  shows "piperead_copy pr p addr i j (acquired l s) = Done (int i) (acquired l s)"
  using assms queue_empty [of s p] by (cases j) (auto simp: kbind_def)

lemma piperead_enter:
  assumes "user_at s pr pt fl"
  shows "piperead p addr n s = piperead_loop pr p addr n (acquired (PipeLock p) s)"
proof -
  have "quiet s" "me s = Some pr" using assms by (simp_all add: user_at_def)
  then show ?thesis unfolding piperead_def by (simp add: myproc_eval)
qed

lemma read_sleeps:
  assumes "user_at s pr pt fl" "queued s p = []" "pi_writeopen (pipes s p)"
  shows "piperead_loop pr p addr n (acquired (PipeLock p) s) = Switch (asleep (PipeNread p) pr s)"
proof -
  have "sleep (PipeNread p) (PipeLock p) (acquired (PipeLock p) s) = Switch (asleep (PipeNread p) pr s)"
    using assms(1) by (intro sleep_eval) (simp_all add: user_at_def)
  then show ?thesis
    unfolding piperead_loop_def using assms(2,3) queue_empty [of s p] killed_in_pipe [OF assms(1), of p] by (simp add: kbind_def)
qed

section \<open>Whole calls\<close>

lemma peek_length [simp]: "length (peek m a n) = n"
  by (simp add: peek_def)

lemma readopen_pushes: "pi_readopen (pipeq.push_list bs q) = pi_readopen q"
  by (induction bs arbitrary: q) (simp_all add: readopen_push)

lemma pipewrite_fits:
  assumes "user_at s pr pt fl" "pi_readopen (pipes s p)" "length (queued s p) + n \<le> 512" "span addr n (user_ok (pmem s) pt)"
  shows "\<exists>t. pipewrite p addr (int n) s = Done (int n) t \<and> queued t p = queued s p @ peek (umem (pmem s) pt) addr n"
proof -
  let ?u = "push_all p (peek (umem (pmem s) pt) addr n) s"
  have "quiet ?u" using assms(1) by (simp add: user_at_def)
  then have "pipewrite p addr (int n) s = Done (int n) (relock (woken_all (PipeNread p) ?u))"
    using pipewrite_enter [OF assms(1), of p addr "int n"] write_turns [OF assms(1-3), of addr 0 0] write_done [of ?u pr p addr n] assms(4) by simp
  then show ?thesis using queued_push_all [of s p "peek (umem (pmem s) pt) addr n"] assms(3) by simp
qed

lemma pipewrite_full:
  assumes "user_at s pr pt fl" "pi_readopen (pipes s p)" "length (queued s p) + k = 512" "span addr k (user_ok (pmem s) pt)"
  shows "\<exists>t. pipewrite p addr (int (k + Suc m)) s = Switch t \<and> queued t p = queued s p @ peek (umem (pmem s) pt) addr k
    \<and> p_state (ptab t pr) = SLEEPING \<and> p_chan (ptab t pr) = Some (PipeNwrite p)"
proof -
  let ?u = "push_all p (peek (umem (pmem s) pt) addr k) s"
  have q: "queued ?u p = queued s p @ peek (umem (pmem s) pt) addr k" using assms(3) by (intro queued_push_all) simp
  have l: "length (queued ?u p) = 512" unfolding q using assms(3) by simp
  have ro: "pi_readopen (pipes ?u p)" using assms(2) by (simp add: push_all_def readopen_pushes)
  have "pipewrite p addr (int (k + Suc m)) s = pipewrite_loop pr p addr k (Suc m) (acquired (PipeLock p) ?u)"
    using pipewrite_enter [OF assms(1), of p addr "int (k + Suc m)"] write_turns [OF assms(1,2), of k addr 0 "Suc m"] assms(3,4)
    by (simp del: pipewrite_loop.simps of_nat_add of_nat_Suc add_Suc_right)
  also have "\<dots> = Switch (asleep (PipeNwrite p) pr (woken_all (PipeNread p) ?u))"
    using assms(1) by (intro write_sleeps [OF _ ro l]) simp
  finally show ?thesis using q by auto
qed

lemma piperead_takes:
  assumes "user_at s pr pt fl" "\<not> (queued s p = [] \<and> pi_writeopen (pipes s p))" "unat addr + n \<le> 2 ^ 38"
    "span addr n (\<lambda>a. user_ok (pmem s) pt a \<and> lookup (pmem s) pt a AND PTE_W \<noteq> 0)" "k = min n (length (queued s p))"
  shows "\<exists>t. piperead p addr (int n) s = Done (int k) t \<and> queued t p = drop k (queued s p)
    \<and> wrote s pt fl addr (take k (queued s p)) (pmem t)"
proof -
  have k: "k \<le> length (queued s p)" "k \<le> n" "k + (n - k) = n" using assms(5) by auto
  have sp: "span addr k (\<lambda>a. user_ok (pmem s) pt a \<and> lookup (pmem s) pt a AND PTE_W \<noteq> 0)" using assms(4) k(2) by (auto simp: span_def)
  obtain m where m: "piperead_copy pr p addr 0 n (acquired (PipeLock p) s) =
      piperead_copy pr p addr k (n - k) (acquired (PipeLock p) ((pop_all p k s)\<lparr>pmem := m\<rparr>))" "wrote s pt fl addr (take k (queued s p)) m"
    using read_turns [OF assms(1) k(1), of addr 0 "n - k"] assms(3) sp k(2) unfolding k(3) by auto
  define u where "u = (pop_all p k s)\<lparr>pmem := m\<rparr>"
  have "user_at u pr pt fl" unfolding u_def using user_at_wrote [OF assms(1) m(2)] by (metis pop_all_simps(1,4))
  then have q: "quiet u" by (simp add: user_at_def)
  have d: "queued u p = drop k (queued s p)" using queued_pop [OF k(1)] by (simp add: u_def)
  then have "queued u p = [] \<or> n - k = 0" using assms(5) by auto
  then have copy: "piperead_copy pr p addr 0 n (acquired (PipeLock p) s) = Done (int k) (acquired (PipeLock p) u)"
    using read_end [of u p "n - k" pr addr k "PipeLock p"] m(1) by (simp add: u_def)
  have "piperead p addr (int n) s = Done (int k) (relock (woken_all (PipeNwrite p) u))"
    using piperead_enter [OF assms(1), of p addr "int n"] copy assms(2) queue_empty [of s p] wake_in_pipe [OF q, of "PipeNwrite p" p] q
    by (simp add: piperead_loop_def kbind_def release_acquired)
  moreover have "pmem (relock (woken_all (PipeNwrite p) u)) = m" by (simp add: woken_all_def relock_def u_def)
  ultimately show ?thesis using d m(2) by simp
qed

section \<open>Property\<close>

text \<open>
  C26. A pipe is a queue of at most 512 bytes. \<open>pipewrite\<close> appends the bytes of the caller's memory in
  order: all of them if they fit, returning their number; otherwise as many as fit, and then it sleeps
  until a reader makes room. \<open>piperead\<close> takes the oldest bytes, as many as were asked for or are there,
  stores exactly these at the caller's address and returns their number; on an empty pipe with a writer
  it sleeps.
\<close>

theorem pipe_is_queue:
  fixes s :: "'z files_scheme"
  assumes "user_at s pr pt fl" "length (queued s p) \<le> 512" "unat addr + n \<le> 2 ^ 38"
    "span addr n (\<lambda>a. user_ok (pmem s) pt a \<and> lookup (pmem s) pt a AND PTE_W \<noteq> 0)"
  defines "space \<equiv> 512 - length (queued s p)" and "k \<equiv> min n (length (queued s p))" and "bytes \<equiv> peek (umem (pmem s) pt) addr"
  shows "(pi_readopen (pipes s p) \<longrightarrow>
      (if n \<le> space
       then \<exists>t. pipewrite p addr (int n) s = Done (int n) t \<and> queued t p = queued s p @ bytes n
       else \<exists>t. pipewrite p addr (int n) s = Switch t \<and> queued t p = queued s p @ bytes space
              \<and> p_state (ptab t pr) = SLEEPING \<and> p_chan (ptab t pr) = Some (PipeNwrite p)))
    \<and> (if queued s p = [] \<and> pi_writeopen (pipes s p)
       then \<exists>t. piperead p addr (int n) s = Switch t \<and> p_chan (ptab t pr) = Some (PipeNread p)
       else \<exists>t. piperead p addr (int n) s = Done (int k) t \<and> queued t p = drop k (queued s p)
              \<and> wrote s pt fl addr (take k (queued s p)) (pmem t))"
proof -
  have ok: "span addr j (user_ok (pmem s) pt)" if "j \<le> n" for j using assms(4) that by (auto simp: span_def)
  have "\<exists>t. pipewrite p addr (int n) s = Switch t \<and> queued t p = queued s p @ bytes space
      \<and> p_state (ptab t pr) = SLEEPING \<and> p_chan (ptab t pr) = Some (PipeNwrite p)" if "\<not> n \<le> space" "pi_readopen (pipes s p)"
  proof -
    have n: "n = space + Suc (n - space - 1)" using that(1) by simp
    show ?thesis unfolding bytes_def using pipewrite_full [OF assms(1) that(2), of space addr "n - space - 1"] ok [of space] assms(2) that(1)
      by (subst n) (simp add: space_def)
  qed
  then show ?thesis
    using pipewrite_fits [OF assms(1), of p n addr] ok [of n] assms(2) piperead_takes [OF assms(1) _ assms(3,4), of p k]
      read_sleeps [OF assms(1), of p addr "int n"] piperead_enter [OF assms(1), of p addr "int n"]
    by (auto simp: space_def k_def bytes_def)
qed

lemma sample_inv:
  "pt_inv (sample_clocked P m) pt fl = pt_inv (sample_system\<lparr>pmem := m\<rparr>) pt fl"
  "user_space (sample_clocked P m) pt fl = user_space (sample_system\<lparr>pmem := m\<rparr>) pt fl"
  by (simp_all add: pt_inv_def kmem_inv_def layout_ok_def page_ok_def ready_def lock_idle_def cpu_ok_def cpu_defs user_space_def sample_defs)

lemma one_page_user:
  "\<exists>P m. user_at (sample_clocked P m) 3 0x87FFF000 []
     \<and> (\<forall>i < 4096. user_ok m 0x87FFF000 (of_nat i) \<and> lookup m 0x87FFF000 (of_nat i) AND PTE_W \<noteq> 0)"
proof -
  obtain m where m: "pt_inv (sample_system\<lparr>pmem := m\<rparr>) 0x87FFF000 []" "user_space (sample_system\<lparr>pmem := m\<rparr>) 0x87FFF000 []"
    "\<forall>i < 4096. user_ok m 0x87FFF000 (of_nat i) \<and> lookup m 0x87FFF000 (of_nat i) AND PTE_W \<noteq> 0"
    using one_page_machine by blast
  let ?P = "\<lambda>_. blank_proc\<lparr>p_state := RUNNING, p_pagetable := 0x87FFF000\<rparr>"
  have "noff (mycpu (sample_clocked ?P m)) = 0" by (simp add: sample_defs cpu_defs)
  then have "user_at (sample_clocked ?P m) 3 0x87FFF000 []"
    using m(1,2) by (simp add: user_at_def sample_inv blank_proc_def)
  then show ?thesis using m(3) by blast
qed

text \<open>Three bytes written to an empty pipe.\<close>

theorem pipe_is_queue_witness:
  "\<exists>s t :: clocked. queued s 0x87FFB000 = [] \<and> pipewrite 0x87FFB000 64 3 s = Done 3 t \<and> length (queued t 0x87FFB000) = 3"
proof -
  obtain P m where u: "user_at (sample_clocked P m) 3 0x87FFF000 []"
      "\<And>i. i < 4096 \<Longrightarrow> user_ok m 0x87FFF000 (of_nat i) \<and> lookup m 0x87FFF000 (of_nat i) AND PTE_W \<noteq> 0"
    using one_page_user by blast
  let ?s = "sample_clocked P m"
  have q: "queued ?s 0x87FFB000 = []" "pi_readopen (pipes ?s 0x87FFB000)"
    by (simp_all add: queued_def pipe_ring_def ring_contents_def sample_defs)
  have "span 64 3 (\<lambda>a. user_ok (pmem ?s) 0x87FFF000 a \<and> lookup (pmem ?s) 0x87FFF000 a AND PTE_W \<noteq> 0)"
    unfolding span_def
  proof (intro allI impI)
    fix i :: nat assume "i < 3"
    then show "user_ok (pmem ?s) 0x87FFF000 (64 + of_nat i) \<and> lookup (pmem ?s) 0x87FFF000 (64 + of_nat i) AND PTE_W \<noteq> 0"
      using u(2) [of "64 + i"] by simp
  qed
  then show ?thesis using pipe_is_queue [OF u(1), of "0x87FFB000" 64 3] q by fastforce
qed

end
