(* ===== verification/Lazy.thy ===== *)
theory Lazy
  imports Copyio Trap Sample
begin

text \<open>
  Lazy allocation: \<open>vmfault\<close> gives a page to an address below the size of the process, and the lazy branch
  of \<open>sys_sbrk\<close> raises that size without bound.
\<close>

section \<open>Page faults\<close>

lemma pt_inv_relock [simp]: "pt_inv (relock s) pt fl = pt_inv s pt fl"
  by (simp add: pt_inv_def kmem_inv_def layout_ok_def page_ok_def)

lemma ismapped_eval:
  assumes "pt_inv s pt fl" "va < MAXVA"
  shows "ismapped pt va s = Done (lookup (pmem s) pt va AND PTE_V \<noteq> 0) s"
proof (cases "leaf_node (pmem s) pt va")
  case None
  then show ?thesis using assms(2) by (simp add: ismapped_def walk_find lookup_def)
next
  case (Some q)
  then have "slot q (PX 0 va) \<noteq> 0" using pt_inv_node [OF assms(1) leaf_table] by (intro slot_nonzero) auto
  then show ?thesis using Some assms(2) by (simp add: ismapped_def walk_find lookup_def ent_def)
qed

definition fault_post :: "'z kmem_scheme \<Rightarrow> uint64 \<Rightarrow> uint64 list \<Rightarrow> uint64 \<Rightarrow> uint64 \<Rightarrow> 'z kmem_scheme \<Rightarrow> uint64 list \<Rightarrow> bool" where
  "fault_post s pt fl va r t fl' \<longleftrightarrow> mem_step s t \<and> pt_inv t pt fl'
     \<and> (if r = 0 then (\<forall>a. lookup (pmem t) pt a = lookup (pmem s) pt a) \<and> set fl' \<union> tables t pt = set fl \<union> tables s pt
        else walkaddr pt va t = Done r t \<and> zero_page (pmem t) r \<and> lookup (pmem t) pt va AND PTE_W \<noteq> 0
          \<and> (\<forall>a. \<not> same_vpage a va \<longrightarrow> lookup (pmem t) pt a = lookup (pmem s) pt a)
          \<and> insert r (set fl' \<union> tables t pt) = set fl \<union> tables s pt)"

lemma fault_perm: "PTE_W OR PTE_U OR PTE_R < 1024" "(PTE_W OR PTE_U OR PTE_R) AND PTE_U \<noteq> 0"
  by (simp_all add: PTE_W_def PTE_U_def PTE_R_def)

lemma vmfault_maps:
  fixes s :: "'z proctab_scheme"
  assumes "pt_inv s pt fl" "cpu_ok s" "me s = Some p" "p_pagetable (ptab s p) = pt" "p_sz (ptab s p) \<le> MAXVA"
    "va < p_sz (ptab s p)" "lookup (pmem s) pt (PGROUNDDOWN va) AND PTE_V = 0"
  shows "\<exists>r t fl'. vmfault pt va s = Done r t \<and> fault_post s pt fl (PGROUNDDOWN va) r t fl'"
proof -
  let ?a = "PGROUNDDOWN va" and ?perm = "PTE_W OR PTE_U OR PTE_R" and ?s = "relock s"
  have va: "va < MAXVA" using assms(5,6) by simp
  then have a: "?a < MAXVA" using PGROUNDDOWN_le by (rule order_le_less_trans [rotated])
  then have top: "unat ?a + Suc 0 * 4096 \<le> 2 ^ 38"
    using MAXVA_unat by (simp add: word_less_nat_alt unat_PGROUNDDOWN)
  have inv: "pt_inv ?s pt fl" using assms(1) by simp
  have R: "user_range ?s pt fl ?a ?perm 0" by (simp add: user_range_def can_free_def leaf_pages_def)
  have free: "lookup (pmem ?s) pt (va_at ?a 0) AND PTE_V = 0" using assms(7) by simp
  have run: "vmfault pt va s = kbind kalloc (\<lambda>mm. if mm = 0 then kret 0
      else kseq (kmod (\<lambda>s. s\<lparr>pmem := memset (pmem s) mm 0 (ucast PGSIZE)\<rparr>))
          (kbind (mappages pt ?a PGSIZE mm ?perm) (\<lambda>r. if r \<noteq> 0 then kseq (kfree mm) (kret 0) else kret mm))) ?s"
    using assms(2,3,7) assms(6) [folded not_le] ismapped_eval [OF inv a]
    unfolding assms(4) [symmetric] by (simp add: vmfault_def with_myproc_eval [of _ p] Let_def kbind_def)
  show ?thesis
  proof (rule uvmalloc_round [OF inv R aligned_PGROUNDDOWN top fault_perm(1) free])
    assume "fl = []" "kalloc ?s = Done 0 (relock ?s)"
    then show ?thesis unfolding run using inv by (auto simp: fault_post_def)
  next
    fix n t u fl'
    assume h: "kalloc ?s = Done n t" "n \<noteq> 0" "mappages pt (va_at ?a 0) PGSIZE n ?perm (t\<lparr>pmem := memset (pmem t) n 0 4096\<rparr>) = Done 0 u"
      "mem_step ?s u" "pt_inv u pt fl'" "user_range u pt fl' ?a ?perm (Suc 0)"
      "\<forall>va. \<not> same_vpage va (va_at ?a 0) \<longrightarrow> lookup (pmem u) pt va = lookup (pmem ?s) pt va"
      "set fl' \<union> tables u pt \<union> set (leaf_pages (pmem u) pt ?a (Suc 0)) = set fl \<union> tables ?s pt \<union> set (leaf_pages (pmem ?s) pt ?a 0)"
      "leaf_pages (pmem u) pt ?a (Suc 0) = leaf_pages (pmem ?s) pt ?a 0 @ [n]"
    obtain q where q: "aligned q" "lookup (pmem u) pt ?a = PA2PTE q OR ?perm OR PTE_V" "zero_page (pmem u) q"
      using h(6) by (auto simp: user_range_def)
    have "leaf_pages (pmem u) pt ?a (Suc 0) = [q]" using q(2) leaf_valid [of q ?perm] leaf_PA [OF q(1) fault_perm(1)] by (simp add: leaf_pages_def)
    then have n: "q = n" using h(9) by (simp add: leaf_pages_def)
    note l = q(2) [unfolded n]
    have "walkaddr pt ?a u = Done n u"
      using walkaddr_eval [OF h(5), of ?a] l a leaf_valid [of n ?perm] leaf_PA [OF q(1) fault_perm(1), unfolded n] fault_perm(2) by (auto simp: l user_bit bit_or_iff)
    moreover have "lookup (pmem u) pt ?a AND PTE_W \<noteq> 0" unfolding l write_bit by (simp add: bit_or_iff PTE_W_def)
    moreover have "vmfault pt va s = Done n u" unfolding run using h(1-3) by (simp add: PGSIZE_def)
    moreover have "leaf_pages (pmem u) pt ?a (Suc 0) = [n]" using l leaf_valid [of n ?perm] leaf_PA [OF q(1) fault_perm(1), unfolded n] by (simp add: leaf_pages_def)
    ultimately show ?thesis using h(2,4,5,7,8) q(3) n by (auto simp: fault_post_def mem_step_def leaf_pages_def)
  next
    fix n t u v fl'
    assume h: "kalloc ?s = Done n t" "n \<noteq> 0" "mappages pt (va_at ?a 0) PGSIZE n ?perm (t\<lparr>pmem := memset (pmem t) n 0 4096\<rparr>) = Done (-1) u"
      "kfree n u = Done () v" "mem_step ?s v" "pt_inv v pt fl'"  "user_range v pt fl' ?a ?perm 0"
      "\<forall>va. lookup (pmem v) pt va = lookup (pmem ?s) pt va" "set fl' \<union> tables v pt = set fl \<union> tables ?s pt" 
      "leaf_pages (pmem v) pt ?a 0 = leaf_pages (pmem ?s) pt ?a 0"
    have "vmfault pt va s = Done 0 v" unfolding run using h(1-4) by (simp add: PGSIZE_def)
    then show ?thesis using h(5,6,8,9) by (auto simp: fault_post_def mem_step_def)
  qed
qed

section \<open>Faults beyond the address space\<close>

lemma walk_panic: "MAXVA \<le> va \<Longrightarrow> walk pt va al s = Panic ''walk''"
  by (simp add: walk_def)

lemma MAXVA_page: "MAXVA \<le> va \<Longrightarrow> MAXVA \<le> PGROUNDDOWN va"
  using MAXVA_unat div_le_mono [of "2 ^ 38" "unat va" 4096] by (simp add: word_le_nat_alt unat_PGROUNDDOWN)

lemma vmfault_panic:
  assumes "cpu_ok s" "me s = Some p" "MAXVA \<le> va" "va < p_sz (ptab s p)"
  shows "vmfault pt va s = Panic ''walk''"
  using assms(1,2) assms(4) [folded not_le]
  by (simp add: vmfault_def with_myproc_eval [of _ p] Let_def ismapped_def kbind_def walk_panic [OF MAXVA_page [OF assms(3)]])

lemma user_mode: "x AND SSTATUS_SPP = 0 \<Longrightarrow> ((x AND NOT SSTATUS_SIE) OR (if b then SSTATUS_SIE else 0)) AND SSTATUS_SPP = 0"
  by (simp add: bit.conj_disj_distrib2 and.assoc [symmetric]) (simp add: SSTATUS_SPP_def SSTATUS_SIE_def and.assoc)

definition page_fault :: "'z board_scheme \<Rightarrow> uint64 \<Rightarrow> bool" where
  "page_fault s va \<longleftrightarrow> csr s (hart s) Scause \<in> {13, 15} \<and> csr s (hart s) Stval = va \<and> csr s (hart s) Sstatus AND SSTATUS_SPP = 0"

lemma board_frame [simp]:
  "csr (relock s) = csr s"
  "cpu_ok (s\<lparr>csr := c\<rparr>) = cpu_ok s" "me (s\<lparr>csr := c\<rparr>) = me s"
  "cpu_ok (s\<lparr>pmem := m\<rparr>) = cpu_ok s" "me (s\<lparr>pmem := m\<rparr>) = me s"
  by (simp_all add: cpu_ok_def me_def mycpu_def cpuid_def intr_get_def relock_def)

lemma usertrap_panic:
  fixes s :: "'z board_scheme"
  assumes "cpu_ok s" "me s = Some p" "page_fault s va" "MAXVA \<le> va" "va < p_sz (ptab s p)"
  shows "usertrap s = Panic ''walk''"
proof -
  define u where "u = s\<lparr>csr := (csr s)(hart s := (csr s (hart s))(Stvec := ld_kernelvec s))\<rparr>"
  define v where "v = (relock u)\<lparr>pmem := write64 (pmem s) (p_trapframe (ptab s p) + tf_offset Epc) (csr s (hart s) Sepc)\<rparr>"
  have u: "cpu_ok u" "me u = Some p" using assms(1,2) by (simp_all add: u_def)
  have v: "vmfault pt va v = Panic ''walk''" for pt
    using assms by (intro vmfault_panic [of _ p]) (simp_all add: v_def u_def)
  have c: "csr v (hart v) Scause \<in> {13, 15}" "csr v (hart v) Stval = va"
    using assms(3) by (auto simp: page_fault_def v_def u_def)
  have "usertrap_cause p v = Panic ''walk''"
    using v c by (auto simp: usertrap_cause_def devintr_def csr_get_def r_scause_def r_stval_def)
  moreover have "usertrap s = kbind (usertrap_cause p) (\<lambda>which.
          kseq (exit_if_killed p)
         (kseq (kwhen (which = 2) yield) (usertrap_end p))) v"
    using user_mode assms(3) u
    by (simp add: usertrap_def r_sstatus_def w_stvec_def csr_put_def page_fault_def with_myproc_eval [of _ p] flip: u_def)
      (simp add: r_sepc_def csr_get_def set_tf_def u_def v_def)
  ultimately show ?thesis by (simp add: kbind_def)
qed

section \<open>Properties\<close>


lemma empty_space:
  "\<exists>s :: proctab. pt_inv s 0x87FFF000 (tl boot_pages) \<and> (\<forall>va. lookup (pmem s) 0x87FFF000 va = 0) \<and> cpu_ok s \<and> me s = Some 3
     \<and> ptab s = (\<lambda>_. blank_proc\<lparr>p_sz := 8192, p_pagetable := 0x87FFF000\<rparr>)"
proof -
  obtain s :: kmem where s: "pt_inv s 0x87FFF000 (tl boot_pages)" "\<forall>va. lookup (pmem s) 0x87FFF000 va = 0"
    using example_table by blast
  let ?s = "sample_system\<lparr>pmem := pmem s, freelist := freelist s, ld_end := ld_end s, ld_etext := ld_etext s, ld_trampoline := ld_trampoline s,
     ptab := \<lambda>_. blank_proc\<lparr>p_sz := 8192, p_pagetable := 0x87FFF000\<rparr>\<rparr>"
  have "pt_inv ?s 0x87FFF000 (tl boot_pages)"
    using s(1) by (simp add: pt_inv_def kmem_inv_def layout_ok_def page_ok_def ready_def lock_idle_def cpu_ok_def cpu_defs sample_system_def)
  moreover have "cpu_ok ?s" "me ?s = Some 3" by (simp_all add: cpu_ok_def me_def cpu_defs sample_system_def)
  ultimately show ?thesis using s(2) by (intro exI [of _ ?s]) simp
qed


lemma arg_eval:
  fixes s :: "'z proctab_scheme"
  assumes "cpu_ok s" "me s = Some p"
  shows "argint 0 s = Done (sint (ucast (tf_val s p A0) :: uint)) (relock s)"
    "argint (Suc 0) s = Done (sint (ucast (tf_val s p A1) :: uint)) (relock s)"
  using assms by (simp_all add: argint_def argraw_def with_myproc_eval [of _ p] get_tf_def tf_val_def)

text \<open>
  C29. The lazy branch of \<open>sys_sbrk\<close> checks only that the size does not wrap around: the process may grow past
  \<open>MAXVA\<close>, and its next page fault at an address from \<open>MAXVA\<close> up to the new size makes \<open>usertrap\<close> panic in \<open>walk\<close>.
\<close>

theorem lazy_sbrk_panics:
  fixes s :: "'z board_scheme"
  assumes "cpu_ok s" "me s = Some p" "tf_val s p A0 = n" "n < 0x80000000" "tf_val s p A1 = 2"
    and "p_sz (ptab s p) \<le> p_sz (ptab s p) + n" "MAXVA \<le> va" "va < p_sz (ptab s p) + n"
  shows "\<exists>t. sys_sbrk s = Done (p_sz (ptab s p)) t \<and> p_sz (ptab t p) = p_sz (ptab s p) + n
     \<and> (\<forall>c. page_fault (t\<lparr>csr := c\<rparr>) va \<longrightarrow> usertrap (t\<lparr>csr := c\<rparr>) = Panic ''walk'')"
proof -
  have "uint n < 2 ^ 31" using assms(4) by (simp add: word_less_def)
  then have n: "sint (ucast n :: uint) = uint n" by (simp add: signed_ucast_eq) (rule signed_take_bit_int_eq_self, simp_all add: order_trans [of _ 0])
  have A: "sint (ucast (2 :: uint64) :: uint) = 2" by simp
  define t where "t = upd_proc p (\<lambda>q. q\<lparr>p_sz := p_sz q + n\<rparr>) (relock s)"
  have "sys_sbrk s = Done (p_sz (ptab s p)) t"
    using assms(1,2,3,5) [unfolded tf_val_def] assms(6) [folded not_less]
    by (simp add: sys_sbrk_def arg_eval [of _ p] with_myproc_eval [of _ p] A n SBRK_EAGER_def t_def set_proc_def tf_val_def)
  moreover have "p_sz (ptab t p) = p_sz (ptab s p) + n" "cpu_ok t" "me t = Some p" using assms(1,2) by (simp_all add: t_def)
  moreover have "usertrap (t\<lparr>csr := c\<rparr>) = Panic ''walk''" if "page_fault (t\<lparr>csr := c\<rparr>) va" for c
    using that calculation assms(7,8) by (intro usertrap_panic [of _ p va]) simp_all
  ultimately show ?thesis by blast
qed

text \<open>A process of \<open>MAXVA\<close> bytes grows by one page and stores to its first byte.\<close>

definition sample_board :: "(nat \<Rightarrow> proc) \<Rightarrow> mem \<Rightarrow> board" where
  "sample_board P m =
     vdisk.extend (clocked.extend (sample_clocked P m)
       \<lparr>vdesc_page = 0x87FF7000, vavail_page = 0x87FF6000, vused_page = 0x87FF5000,
        vdesc = (\<lambda>_. \<lparr>vd_addr = VNull, vd_len = 0, vd_flags = 0, vd_next = 0\<rparr>), vavail_idx = 0, vavail_ring = (\<lambda>_. 0), vused_idx = 0,
        vused_ring = (\<lambda>_. 0), vfree = (\<lambda>_. True), vseen_idx = 0, vinfo = (\<lambda>_. \<lparr>vi_b = None, vi_status = 0\<rparr>),
        vops = (\<lambda>_. \<lparr>vq_type = 0, vq_reserved = 0, vq_sector = 0\<rparr>), vdev = (\<lambda>_ _. 0), vwrites = []\<rparr>)
       \<lparr>csr = (\<lambda>_ _. 0), plic = (\<lambda>_. 0), started = True, first = False, ld_kernelvec = 0x80005000, ld_uservec = 0x80007000,
        ld_userret = 0x8000709c, ld_usertrap = 0x80002000, ld_main = 0x80000e00\<rparr>"

lemma sample_board_simps [simp]:
  "me (sample_board P m) = Some 3" "ptab (sample_board P m) = P" "pmem (sample_board P m) = m" "cpu_ok (sample_board P m)"
  by (simp_all add: sample_board_def vdisk.defs clocked.defs sample_defs me_def cpu_ok_def cpu_defs)

theorem lazy_sbrk_panics_witness:
  "\<exists>(s :: board) t (u :: board). sys_sbrk s = Done MAXVA t \<and> usertrap u = Panic ''walk'' \<and> ptab u = ptab t"
proof -
  let ?q = "blank_proc\<lparr>p_state := RUNNING, p_trapframe := 0x80100000, p_sz := MAXVA\<rparr>"
  let ?m = "write64 (write64 (\<lambda>_. 0) (0x80100000 + 112) 4096) (0x80100000 + 120) 2"
  let ?s = "sample_board ((\<lambda>_. blank_proc)(3 := ?q)) ?m"
  have a: "tf_val ?s 3 A0 = 4096" "tf_val ?s 3 A1 = 2" by (simp_all add: tf_val_def read64_write64_other del: add_numeral_left)
  have mx: "MAXVA < MAXVA + 4096" "MAXVA \<le> MAXVA + 4096" by (simp_all add: MAXVA_def)
  obtain t where t: "sys_sbrk ?s = Done MAXVA t" "\<And>c. page_fault (t\<lparr>csr := c\<rparr>) MAXVA \<Longrightarrow> usertrap (t\<lparr>csr := c\<rparr>) = Panic ''walk''"
    using lazy_sbrk_panics [of ?s 3 4096 MAXVA] a mx by auto
  define u where "u = t\<lparr>csr := \<lambda>_. (\<lambda>_. 0)(Scause := 15, Stval := MAXVA)\<rparr>"
  have "page_fault u MAXVA" "ptab u = ptab t" by (simp_all add: page_fault_def u_def)
  moreover from this t(2) have "usertrap u = Panic ''walk''" by (simp add: u_def)
  ultimately show ?thesis using t(1) by blast
qed

end
