(* ===== verification/Shell.thy ===== *)
theory Shell
  imports User
begin

text \<open>
  The shell of \<^verbatim>\<open>user/sh.c\<close>: tokens, the recursive descent parser, \<open>nulterminate\<close> and
  \<open>runcmd\<close>.

  A parsed command points into the line it was parsed from, so pointers are offsets into the text of
  the line, and the command tree holds the offsets of the first byte of each word and of the byte
  after it. \<open>nulterminate\<close> then writes NULs into the line at the latter. \<open>malloc\<close> is taken to succeed.
\<close>

section \<open>Commands\<close>

datatype cmd =
    EXEC "(nat \<times> nat) list"
  | REDIR cmd nat nat int int
  | PIPE cmd cmd
  | LIST cmd cmd
  | BACK cmd

definition MAXARGS :: nat where "MAXARGS = 10"

text \<open>\<open>parseexec\<close> fills in the arguments of the command inside the redirections it has read so far.\<close>

fun set_args :: "(nat \<times> nat) list \<Rightarrow> cmd \<Rightarrow> cmd" where
  "set_args args (EXEC _) = EXEC args"
| "set_args args (REDIR c q e mode fd) = REDIR (set_args args c) q e mode fd"
| "set_args args c = c"

section \<open>Tokens\<close>

definition whitespace :: "uchar list" where "whitespace = ascii '' '' @ [9, 13, 10, 11]"
definition symbols :: "uchar list" where "symbols = ascii ''<|>&;()''"

definition white :: "uchar \<Rightarrow> bool" where "white c \<longleftrightarrow> strchr whitespace c \<noteq> None"
definition plain :: "uchar \<Rightarrow> bool" where "plain c \<longleftrightarrow> strchr whitespace c = None \<and> strchr symbols c = None"

text \<open>A loop \<^verbatim>\<open>while(s < es && ...) s++\<close> over the line.\<close>

function scan :: "(uchar \<Rightarrow> bool) \<Rightarrow> uchar list \<Rightarrow> nat \<Rightarrow> nat" where
  "scan P t s = (if s < length t \<and> P (t ! s) then scan P t (s + 1) else s)"
  by auto
termination by (relation "measure (\<lambda>(P, t, s). length t - s)") auto

text \<open>The answer of \<open>gettoken\<close>, the word it found, and the new position.\<close>

definition gettoken :: "uchar list \<Rightarrow> nat \<Rightarrow> uchar \<times> nat \<times> nat \<times> nat" where
  "gettoken t ps =
     (let q = scan white t ps;
          c = nth0 t q;
          (ret, eq) =
            (if c = 0 then (0, q)
             else if c \<in> set (ascii ''|();&<'') then (c, q + 1)
             else if c = chr CHR ''>'' then if nth0 t (q + 1) = chr CHR ''>'' then (chr CHR ''+'', q + 2) else (c, q + 1)
             else (chr CHR ''a'', scan plain t q))
      in (ret, q, eq, scan white t eq))"

definition sh_peek :: "uchar list \<Rightarrow> nat \<Rightarrow> string \<Rightarrow> bool \<times> nat" where
  "sh_peek t ps toks = (let s = scan white t ps in (nth0 t s \<noteq> 0 \<and> strchr (ascii toks) (nth0 t s) \<noteq> None, s))"

section \<open>The parser\<close>

text \<open>Parsing gives a command and a position, or stops with a message; \<open>NoFuel\<close> never happens (below).\<close>

datatype 'a parse = Parsed 'a nat | Syntax string | NoFuel

definition pbind :: "'a parse \<Rightarrow> ('a \<Rightarrow> nat \<Rightarrow> 'b parse) \<Rightarrow> 'b parse" where
  "pbind m f = (case m of Parsed x s \<Rightarrow> f x s | Syntax e \<Rightarrow> Syntax e | NoFuel \<Rightarrow> NoFuel)"

lemma scan_while: "scan P t s = s + length (takeWhile P (drop s t))"
proof (induction P t s rule: scan.induct)
  case (1 P t s)
  show ?case
  proof (cases "s < length t \<and> P (t ! s)")
    case True
    then show ?thesis using 1 by (subst scan.simps) (simp add: Cons_nth_drop_Suc [symmetric])
  next
    case False
    then have "takeWhile P (drop s t) = []" by (cases "s < length t") (simp_all flip: Cons_nth_drop_Suc)
    with False show ?thesis by (subst scan.simps) auto
  qed
qed

declare scan.simps [simp del]

lemma scan_ge: "s \<le> scan P t s" by (simp add: scan_while)

lemma scan_le: "s \<le> length t \<Longrightarrow> scan P t s \<le> length t"
  using length_takeWhile_le [of P "drop s t"] by (simp add: scan_while)

lemma scan_stop: "scan P t s < length t \<Longrightarrow> \<not> P (t ! scan P t s)"
  using nth_length_takeWhile [of P "drop s t"] by (simp add: scan_while)

lemma scan_inside: "s \<le> i \<Longrightarrow> i < scan P t s \<Longrightarrow> i < length t \<and> P (t ! i)"
proof -
  assume i: "s \<le> i" "i < scan P t s"
  then have k: "i - s < length (takeWhile P (drop s t))" by (simp add: scan_while)
  then have "P (takeWhile P (drop s t) ! (i - s))" using set_takeWhileD nth_mem by metis
  moreover have "i - s < length (drop s t)" using k length_takeWhile_le [of P "drop s t"] by linarith
  ultimately show ?thesis using k i(1) by (simp add: takeWhile_nth)
qed

lemma scan_first: "s < length t \<Longrightarrow> P (t ! s) \<Longrightarrow> s < scan P t s"
  by (simp add: scan_while Cons_nth_drop_Suc [symmetric])

lemma not_white_cases: "\<not> white c \<Longrightarrow> c \<noteq> 0 \<Longrightarrow> c \<notin> set (ascii ''|();&<'') \<Longrightarrow> c \<noteq> chr CHR ''>'' \<Longrightarrow> plain c"
  by (auto simp: white_def plain_def symbols_def ascii_def chr_def)

lemma gettoken_ge: "gettoken t ps = (ret, q, eq, s) \<Longrightarrow> ps \<le> s"
proof -
  assume g: "gettoken t ps = (ret, q, eq, s)"
  have "scan white t ps \<le> eq" "s = scan white t eq"
    using g scan_ge [of "scan white t ps" plain t] by (auto simp: gettoken_def Let_def split: prod.splits if_splits)
  then show ?thesis using scan_ge [of ps white t] scan_ge [of eq white t] by linarith
qed

lemma gettoken_gt:
  assumes "gettoken t ps = (ret, q, eq, s)" "nth0 t (scan white t ps) \<noteq> 0"
  shows "scan white t ps < s" "scan white t ps < length t"
proof -
  let ?q = "scan white t ps"
  show l: "?q < length t" using assms(2) by (auto simp: nth0_def split: if_splits)
  have "?q < scan plain t ?q" if "nth0 t ?q \<notin> set (ascii ''|();&<'')" "nth0 t ?q \<noteq> chr CHR ''>''"
    using that l scan_stop [OF l] not_white_cases [of "t ! ?q"] assms(2) by (intro scan_first) (auto simp: nth0_def)
  then have "?q < eq" "s = scan white t eq" using assms by (auto simp: gettoken_def Let_def split: prod.splits if_splits)
  then show "?q < s" using scan_ge [of eq white t] by linarith
qed

lemma gettoken_advances:
  assumes "gettoken t ps = (ret, q, eq, s)" "ps \<le> length t" "0 \<notin> set t"
  shows "ps \<le> q" "q \<le> eq" "eq \<le> s" "s \<le> length t" "ret \<noteq> 0 \<Longrightarrow> q < eq" "ret = 0 \<Longrightarrow> s = length t"
    "ret = chr CHR ''a'' \<Longrightarrow> (\<forall>i. q \<le> i \<and> i < eq \<longrightarrow> plain (t ! i)) \<and> (eq < length t \<longrightarrow> \<not> plain (t ! eq))"
proof -
  have q: "q = scan white t ps" "s = scan white t eq" using assms(1) by (auto simp: gettoken_def Let_def split: prod.splits if_splits)
  have ql: "q \<le> length t" "ps \<le> q" using scan_le [OF assms(2)] scan_ge q by auto
  have z: "nth0 t i = 0 \<longleftrightarrow> length t \<le> i" for i using assms(3) by (auto simp: nth0_def) (metis nth_mem)
  have w: "q < length t \<Longrightarrow> \<not> white (t ! q)" using scan_stop q(1) by simp
  have "(ret = 0 \<and> eq = q \<and> q = length t) \<or> (ret \<noteq> 0 \<and> q < length t \<and> q < eq \<and> eq \<le> length t \<and> (ret = chr CHR ''a'' \<longrightarrow> eq = scan plain t q))"
  proof (cases "q < length t")
    case False
    then have "nth0 t q = 0" using z by simp
    then show ?thesis using assms(1) ql(1) False by (auto simp: gettoken_def Let_def simp flip: q(1))
  next
    case True
    note c = z [of q] z [of "q + 1"]
    consider "nth0 t q \<in> set (ascii ''|();&<'')" | "nth0 t q = chr CHR ''>''" | "nth0 t q \<notin> set (ascii ''|();&<'')" "nth0 t q \<noteq> chr CHR ''>''" by blast
    then show ?thesis
    proof cases
      case 1
      then show ?thesis using assms(1) True c by (auto simp: gettoken_def Let_def ascii_def chr_def simp flip: q(1))
    next
      case 2
      then show ?thesis using assms(1) True c(2) by (auto simp: gettoken_def Let_def ascii_def chr_def simp flip: q(1) split: if_splits)
    next
      case 3
      then have "plain (t ! q)" using True c w not_white_cases by (auto simp: nth0_def)
      then show ?thesis using assms(1) True c 3 scan_first [of q t plain] scan_le [of q t plain]
        by (auto simp: gettoken_def Let_def chr_def simp flip: q(1))
    qed
  qed
  then show "ps \<le> q" "q \<le> eq" "eq \<le> s" "s \<le> length t" "ret \<noteq> 0 \<Longrightarrow> q < eq" "ret = 0 \<Longrightarrow> s = length t"
    "ret = chr CHR ''a'' \<Longrightarrow> (\<forall>i. q \<le> i \<and> i < eq \<longrightarrow> plain (t ! i)) \<and> (eq < length t \<longrightarrow> \<not> plain (t ! eq))"
    using ql scan_ge [of eq white t] scan_le [of eq t white] scan_inside [of q _ plain t] scan_stop [of plain t q] q(2)
    by (auto simp: chr_def scan_while [of white t "length t"])
qed


lemma scan_idem [simp]: "scan P t (scan P t s) = scan P t s"
  using scan_stop [of P t s] by (subst scan.simps) auto

lemma peek_progress:
  assumes "sh_peek t ps toks = (True, s0)" "gettoken t s0 = (tok, q, eq, s1)"
  shows "ps \<le> s0" "s0 < s1" "s0 < length t"
  using assms gettoken_gt [OF assms(2)] scan_ge [of ps white t] by (auto simp: sh_peek_def Let_def)

definition redirect :: "uchar \<Rightarrow> cmd \<Rightarrow> nat \<Rightarrow> nat \<Rightarrow> cmd" where
  "redirect tok c q eq =
     (if tok = chr CHR ''<'' then REDIR c q eq O_RDONLY 0
      else if tok = chr CHR ''>'' then REDIR c q eq (O_WRONLY OR O_CREATE OR O_TRUNC) 1
      else if tok = chr CHR ''+'' then REDIR c q eq (O_WRONLY OR O_CREATE) 1
      else c)"

function parseredirs :: "cmd \<Rightarrow> uchar list \<Rightarrow> nat \<Rightarrow> cmd parse" where
  "parseredirs c t ps =
     (let (more, s0) = sh_peek t ps ''<>'' in
      if \<not> more then Parsed c s0
      else let (tok, _, _, s1) = gettoken t s0; (tok', q, eq, s2) = gettoken t s1 in
           if tok' \<noteq> chr CHR ''a'' then Syntax ''missing file for redirection''
           else parseredirs (redirect tok c q eq) t s2)"
  by auto
termination
proof (relation "measure (\<lambda>(c, t, ps). length t - ps)", goal_cases)
  case (2 c t ps p1 more s0 p2 tok p3 r1 p4 e1 s1 p5 tok' p6 q p7 eq s2)
  then have "sh_peek t ps ''<>'' = (True, s0)" "gettoken t s0 = (tok, r1, e1, s1)" "gettoken t s1 = (tok', q, eq, s2)" by simp_all
  then show ?case using peek_progress gettoken_ge by fastforce
qed simp

declare parseredirs.simps [simp del]

text \<open>The loop of \<open>parseexec\<close> over the words of a command.\<close>

function parse_args :: "cmd \<Rightarrow> (nat \<times> nat) list \<Rightarrow> uchar list \<Rightarrow> nat \<Rightarrow> cmd parse" where
  "parse_args ret args t ps =
     (let (stop, s0) = sh_peek t ps ''|)&;'' in
      if stop then Parsed (set_args args ret) s0
      else let (tok, q, eq, s1) = gettoken t s0 in
           if tok = 0 then Parsed (set_args args ret) s1
           else if tok \<noteq> chr CHR ''a'' then Syntax ''syntax''
           else if length args + 1 \<ge> MAXARGS then Syntax ''too many args''
           else pbind (parseredirs ret t s1) (\<lambda>ret s2. parse_args ret (args @ [(q, eq)]) t s2))"
  by auto
termination by (relation "measure (\<lambda>(ret, args, t, ps). MAXARGS - length args)") auto

declare parse_args.simps [simp del]

text \<open>The loop of \<open>parseline\<close> over ampersands.\<close>

function parse_backs :: "cmd \<Rightarrow> uchar list \<Rightarrow> nat \<Rightarrow> cmd \<times> nat" where
  "parse_backs c t ps =
     (let (more, s0) = sh_peek t ps ''&'' in
      if \<not> more then (c, s0) else let (_, _, _, s1) = gettoken t s0 in parse_backs (BACK c) t s1)"
  by auto
termination
proof (relation "measure (\<lambda>(c, t, ps). length t - ps)", goal_cases)
  case (2 c t ps p1 more s0 p2 tok p3 q p4 eq s1)
  then have "sh_peek t ps ''&'' = (True, s0)" "gettoken t s0 = (tok, q, eq, s1)" by simp_all
  then show ?case using peek_progress by fastforce
qed simp

declare parse_backs.simps [simp del]

text \<open>The mutually recursive functions spend one unit of fuel per call.\<close>

fun parseline :: "nat \<Rightarrow> uchar list \<Rightarrow> nat \<Rightarrow> cmd parse"
  and parsepipe :: "nat \<Rightarrow> uchar list \<Rightarrow> nat \<Rightarrow> cmd parse"
  and parseexec :: "nat \<Rightarrow> uchar list \<Rightarrow> nat \<Rightarrow> cmd parse"
  and parseblock :: "nat \<Rightarrow> uchar list \<Rightarrow> nat \<Rightarrow> cmd parse" where
  "parseline 0 t ps = NoFuel"
| "parseline (Suc f) t ps =
     pbind (parsepipe f t ps) (\<lambda>c s.
     let (c, s) = parse_backs c t s; (more, s) = sh_peek t s '';'' in
     if more then let (_, _, _, s) = gettoken t s in pbind (parseline f t s) (\<lambda>r s. Parsed (LIST c r) s)
     else Parsed c s)"
| "parsepipe 0 t ps = NoFuel"
| "parsepipe (Suc f) t ps =
     pbind (parseexec f t ps) (\<lambda>c s.
     let (more, s) = sh_peek t s ''|'' in
     if more then let (_, _, _, s) = gettoken t s in pbind (parsepipe f t s) (\<lambda>r s. Parsed (PIPE c r) s)
     else Parsed c s)"
| "parseexec 0 t ps = NoFuel"
| "parseexec (Suc f) t ps =
     (let (block, s) = sh_peek t ps ''('' in
      if block then parseblock f t s
      else pbind (parseredirs (EXEC []) t s) (\<lambda>ret s. parse_args ret [] t s))"
| "parseblock 0 t ps = NoFuel"
| "parseblock (Suc f) t ps =
     (let (block, s) = sh_peek t ps ''('' in
      if \<not> block then Syntax ''parseblock''
      else let (_, _, _, s) = gettoken t s in
           pbind (parseline f t s) (\<lambda>c s.
           let (close, s) = sh_peek t s '')'' in
           if \<not> close then Syntax ''syntax - missing )''
           else let (_, _, _, s) = gettoken t s in parseredirs c t s))"

fun nulterminate :: "cmd \<Rightarrow> uchar list \<Rightarrow> uchar list" where
  "nulterminate (EXEC args) b = fold (\<lambda>(q, eq) b. b[eq := 0]) args b"
| "nulterminate (REDIR c q eq mode fd) b = (nulterminate c b)[eq := 0]"
| "nulterminate (PIPE l r) b = nulterminate r (nulterminate l b)"
| "nulterminate (LIST l r) b = nulterminate r (nulterminate l b)"
| "nulterminate (BACK c) b = nulterminate c b"

text \<open>The fuel of \<open>parsecmd\<close>: a call that consumes no byte is followed by at most three such calls.\<close>

definition parse_text :: "uchar list \<Rightarrow> cmd parse" where
  "parse_text t = pbind (parseline (4 * length t + 4) t 0) (\<lambda>c s. Parsed c (snd (sh_peek t s '''')))"

section \<open>Running commands\<close>

definition sh_panic :: "'w os \<Rightarrow> string \<Rightarrow> ('w, 'a) uop" where
  "sh_panic os s = useq (fprintf os 2 ''%s\<newline>'' [VStr (Some (ascii s))]) (uexit 1)"

definition fork1 :: "'w os \<Rightarrow> ('w, int) uop" where
  "fork1 os = ubind (ucall (u_fork os)) (\<lambda>pid. if pid = -1 then sh_panic os ''fork'' else uret pid)"

text \<open>The command and the line it points into.\<close>

definition parsecmd :: "'w os \<Rightarrow> uchar list \<Rightarrow> ('w, cmd \<times> uchar list) uop" where
  "parsecmd os t =
     (case parse_text t of
        NoFuel \<Rightarrow> (\<lambda>w. ULoop)
      | Syntax e \<Rightarrow> sh_panic os e
      | Parsed c s \<Rightarrow>
          if s \<noteq> length t
          then useq (fprintf os 2 ''leftovers: %s\<newline>'' [VStr (Some (drop s t))]) (sh_panic os ''syntax'')
          else uret (c, nulterminate c (t @ [0])))"

text \<open>The string at an offset of the line.\<close>

definition str_at :: "uchar list \<Rightarrow> nat \<Rightarrow> uchar list" where
  "str_at b q = takeWhile (\<lambda>c. c \<noteq> 0) (drop q b)"

fun runcmd :: "'w os \<Rightarrow> uchar list \<Rightarrow> cmd \<Rightarrow> ('w, unit) uop" where
  "runcmd os b (EXEC args) =
     (let argv = map (\<lambda>(q, eq). str_at b q) args in
      if argv = [] then uexit 1
      else useq (uexec os (hd argv) argv)
          (useq (fprintf os 2 ''exec %s failed\<newline>'' [VStr (Some (hd argv))]) (uexit 0)))"
| "runcmd os b (REDIR c q eq mode fd) =
     useq (udo (u_close os fd))
    (ubind (ucall (u_open os (str_at b q) mode)) (\<lambda>r.
     if r < 0 then useq (fprintf os 2 ''open %s failed\<newline>'' [VStr (Some (str_at b q))]) (uexit 1)
     else useq (runcmd os b c) (uexit 0)))"
| "runcmd os b (LIST l r) =
     ubind (fork1 os) (\<lambda>pid.
     useq (uwhen (pid = 0) (runcmd os b l))
    (useq (udo (u_wait os))
    (useq (runcmd os b r) (uexit 0))))"
| "runcmd os b (PIPE l r) =
     ubind (ucall (u_pipe os)) (\<lambda>(res, p0, p1).
     if res < 0 then sh_panic os ''pipe''
     else ubind (fork1 os) (\<lambda>pid.
          useq (uwhen (pid = 0)
                  (useq (udo (u_close os 1)) (useq (udo (u_dup os p1))
                  (useq (udo (u_close os p0)) (useq (udo (u_close os p1)) (runcmd os b l))))))
         (ubind (fork1 os) (\<lambda>pid.
          useq (uwhen (pid = 0)
                  (useq (udo (u_close os 0)) (useq (udo (u_dup os p0))
                  (useq (udo (u_close os p0)) (useq (udo (u_close os p1)) (runcmd os b r))))))
         (useq (udo (u_close os p0)) (useq (udo (u_close os p1))
         (useq (udo (u_wait os)) (useq (udo (u_wait os)) (uexit 0)))))))))"
| "runcmd os b (BACK c) =
     ubind (fork1 os) (\<lambda>pid. useq (uwhen (pid = 0) (runcmd os b c)) (uexit 0))"

text \<open>The text of the line, without what follows a NUL; none at the end of the input.\<close>

definition getcmd :: "'w os \<Rightarrow> nat \<Rightarrow> ('w, uchar list option) uop" where
  "getcmd os nbuf =
     useq (udo (u_write os 2 (ascii ''$ '')))
    (ubind (gets os nbuf) (\<lambda>b. uret (if nth0 b 0 = 0 then None else Some (takeWhile (\<lambda>c. c \<noteq> 0) b))))"

fun sh_open :: "nat \<Rightarrow> 'w os \<Rightarrow> ('w, unit) uop" where
  "sh_open 0 os = (\<lambda>w. ULoop)"
| "sh_open (Suc fuel) os =
     ubind (ucall (u_open os (ascii ''console'') O_RDWR)) (\<lambda>fd.
     if fd < 0 then uret () else if fd \<ge> 3 then udo (u_close os fd) else sh_open fuel os)"

definition sh_command :: "'w os \<Rightarrow> uchar list \<Rightarrow> ('w, unit) uop" where
  "sh_command os buf =
     (let cmd = dropWhile (\<lambda>c. c = chr CHR '' '' \<or> c = 9) buf in
      if nth0 cmd 0 = 10 then uret ()
      else if nth0 cmd 0 = chr CHR ''c'' \<and> nth0 cmd 1 = chr CHR ''d'' \<and> nth0 cmd 2 = chr CHR '' ''
      then let dir = drop 3 (butlast cmd) in
           ubind (ucall (u_chdir os dir)) (\<lambda>r.
           uwhen (r < 0) (fprintf os 2 ''cannot cd %s\<newline>'' [VStr (Some dir)]))
      else ubind (fork1 os) (\<lambda>pid.
           useq (uwhen (pid = 0) (ubind (parsecmd os cmd) (\<lambda>(c, b). runcmd os b c)))
                (udo (u_wait os))))"

fun sh_loop :: "nat \<Rightarrow> 'w os \<Rightarrow> ('w, unit) uop" where
  "sh_loop 0 os = (\<lambda>w. ULoop)"
| "sh_loop (Suc fuel) os =
     ubind (getcmd os 100) (\<lambda>line.
     case line of None \<Rightarrow> uexit 0 | Some buf \<Rightarrow> useq (sh_command os buf) (sh_loop fuel os))"

definition sh_main :: "nat \<Rightarrow> 'w os \<Rightarrow> ('w, unit) uop" where
  "sh_main fuel os = useq (sh_open fuel os) (sh_loop fuel os)"

section \<open>The parser returns, and its words are tokens\<close>

fun words :: "cmd \<Rightarrow> (nat \<times> nat) list" where
  "words (EXEC args) = args"
| "words (REDIR c q eq mode fd) = words c @ [(q, eq)]"
| "words (PIPE l r) = words l @ words r"
| "words (LIST l r) = words l @ words r"
| "words (BACK c) = words c"

definition token_at :: "uchar list \<Rightarrow> nat \<times> nat \<Rightarrow> bool" where
  "token_at t w \<longleftrightarrow> fst w < snd w \<and> snd w \<le> length t \<and> (\<forall>i. fst w \<le> i \<and> i < snd w \<longrightarrow> plain (t ! i))
     \<and> (snd w < length t \<longrightarrow> \<not> plain (t ! snd w))"

abbreviation tokens :: "uchar list \<Rightarrow> cmd \<Rightarrow> bool" where
  "tokens t c \<equiv> \<forall>w \<in> set (words c). token_at t w"

definition good :: "uchar list \<Rightarrow> nat \<Rightarrow> cmd parse \<Rightarrow> bool" where
  "good t s r \<longleftrightarrow> (case r of Parsed c s' \<Rightarrow> s \<le> s' \<and> s' \<le> length t \<and> tokens t c | Syntax e \<Rightarrow> True | NoFuel \<Rightarrow> False)"

lemma good_simps [simp]:
  "good t s (Parsed c s') \<longleftrightarrow> s \<le> s' \<and> s' \<le> length t \<and> tokens t c" "good t s (Syntax e)" "\<not> good t s NoFuel"
  by (simp_all add: good_def)

lemma pbind_simps [simp]: "pbind (Parsed x s) f = f x s" "pbind (Syntax e) f = Syntax e" "pbind NoFuel f = NoFuel"
  by (simp_all add: pbind_def)

lemma good_pbind:
  assumes "good t s m" "\<And>c s'. m = Parsed c s' \<Longrightarrow> s \<le> s' \<Longrightarrow> s' \<le> length t \<Longrightarrow> tokens t c \<Longrightarrow> good t s' (f c s')"
  shows "good t s (pbind m f)"
proof (cases m)
  case (Parsed c s')
  then show ?thesis using assms by (cases "f c s'") auto
qed (use assms(1) in auto)

lemma peek_range: "sh_peek t ps toks = (b, s) \<Longrightarrow> ps \<le> length t \<Longrightarrow> ps \<le> s \<and> s \<le> length t"
  using scan_ge [of ps white t] scan_le [of ps t white] by (auto simp: sh_peek_def Let_def)

lemma token_at_gettoken:
  assumes "gettoken t ps = (chr CHR ''a'', q, eq, s)" "ps \<le> length t" "0 \<notin> set t"
  shows "token_at t (q, eq)"
  using gettoken_advances [OF assms] by (auto simp: token_at_def chr_def)

lemma gettoken_range: "gettoken t ps = (ret, q, eq, s) \<Longrightarrow> ps \<le> length t \<Longrightarrow> 0 \<notin> set t \<Longrightarrow> s \<le> length t"
  using gettoken_advances(4) by blast

lemma good_from: "good t s r \<Longrightarrow> s0 \<le> s \<Longrightarrow> good t s0 r"
  by (cases r) auto

lemma parseredirs_good: "s \<le> length t \<Longrightarrow> 0 \<notin> set t \<Longrightarrow> tokens t c \<Longrightarrow> good t s (parseredirs c t s)"
proof (induction c t s rule: parseredirs.induct)
  case (1 c t s)
  obtain more s0 where p: "sh_peek t s ''<>'' = (more, s0)" by fastforce
  obtain tok q1 e1 s1 where g1: "gettoken t s0 = (tok, q1, e1, s1)" by (metis prod_cases4)
  obtain tok' q eq s2 where g2: "gettoken t s1 = (tok', q, eq, s2)" by (metis prod_cases4)
  note r = peek_range [OF p "1.prems"(1)] and s1 = gettoken_range [OF g1 _ "1.prems"(2)]
  show ?case
  proof (cases "more \<and> tok' = chr CHR ''a''")
    case True
    then have "tokens t (redirect tok c q eq)"
      using token_at_gettoken [of t s1 q eq s2] g2 r s1 "1.prems" by (auto simp: redirect_def)
    then have "good t s2 (parseredirs (redirect tok c q eq) t s2)"
      using 1 p g1 g2 True r s1 gettoken_range [OF g2] by simp
    then have "good t s (parseredirs (redirect tok c q eq) t s2)"
      using r gettoken_ge [OF g1] gettoken_ge [OF g2] by (elim good_from) linarith
    then show ?thesis using True p g1 g2 by (subst parseredirs.simps) simp
  next
    case False
    then show ?thesis using p g1 g2 r "1.prems" by (subst parseredirs.simps) auto
  qed
qed

lemma words_set_args: "set (words (set_args args c)) \<subseteq> set args \<union> set (words c)"
  by (induction args c rule: set_args.induct) auto

lemma parse_args_good:
  "s \<le> length t \<Longrightarrow> 0 \<notin> set t \<Longrightarrow> tokens t ret \<Longrightarrow> \<forall>w \<in> set args. token_at t w \<Longrightarrow> good t s (parse_args ret args t s)"
proof (induction ret args t s rule: parse_args.induct)
  case (1 ret args t s)
  obtain stop s0 where p: "sh_peek t s ''|)&;'' = (stop, s0)" by fastforce
  obtain tok q eq s1 where g: "gettoken t s0 = (tok, q, eq, s1)" by (metis prod_cases4)
  note r = peek_range [OF p "1.prems"(1)] and s1 = gettoken_range [OF g _ "1.prems"(2)] gettoken_ge [OF g]
  have w: "tokens t (set_args args ret)" using words_set_args "1.prems"(3,4) by blast
  show ?case
  proof (cases "\<not> stop \<and> tok = chr CHR ''a'' \<and> length args + 1 < MAXARGS")
    case True
    have "good t s1 (pbind (parseredirs ret t s1) (\<lambda>ret s2. parse_args ret (args @ [(q, eq)]) t s2))"
      using parseredirs_good [of s1 t ret] 1 p g True r s1 token_at_gettoken [of t s0 q eq s1]
      by (intro good_pbind) (auto simp: chr_def)
    then have "good t s (pbind (parseredirs ret t s1) (\<lambda>ret s2. parse_args ret (args @ [(q, eq)]) t s2))"
      using r s1 by (elim good_from) linarith
    then show ?thesis using True p g by (subst parse_args.simps) (simp add: chr_def)
  next
    case False
    then show ?thesis using p g r s1 w by (subst parse_args.simps) (auto simp: Let_def)
  qed
qed

lemma parse_backs_good: "s \<le> length t \<Longrightarrow> 0 \<notin> set t \<Longrightarrow> tokens t c \<Longrightarrow> parse_backs c t s = (c', s') \<Longrightarrow> s \<le> s' \<and> s' \<le> length t \<and> tokens t c'"
proof (induction c t s rule: parse_backs.induct)
  case (1 c t s)
  obtain more s0 where p: "sh_peek t s ''&'' = (more, s0)" by fastforce
  obtain tok q eq s1 where g: "gettoken t s0 = (tok, q, eq, s1)" by (metis prod_cases4)
  note r = peek_range [OF p "1.prems"(1)] and s1 = gettoken_range [OF g _ "1.prems"(2)] gettoken_ge [OF g]
  show ?case
  proof (cases more)
    case True
    then have "parse_backs (BACK c) t s1 = (c', s')" using "1.prems"(4) p g by (subst (asm) parse_backs.simps) simp
    then have "s1 \<le> s' \<and> s' \<le> length t \<and> tokens t c'" using 1 True p g r s1 by auto
    then show ?thesis using r s1 by linarith
  next
    case False
    then show ?thesis using "1.prems" p r by (subst (asm) parse_backs.simps) auto
  qed
qed

lemma peek_next:
  assumes "sh_peek t s toks = (True, s0)" "gettoken t s0 = (tok, q, eq, s1)" "s \<le> length t" "0 \<notin> set t"
  shows "s < s1" "s1 \<le> length t"
  using peek_progress [OF assms(1,2)] gettoken_range [OF assms(2) _ assms(4)] by auto

lemma parseline_good:
  assumes t: "0 \<notin> set t" and s: "s \<le> length t" and pipe: "good t s (parsepipe f t s)"
    and line: "\<And>s'. s < s' \<Longrightarrow> s' \<le> length t \<Longrightarrow> good t s' (parseline f t s')"
  shows "good t s (parseline (Suc f) t s)"
  unfolding parseline.simps
proof (rule good_pbind [OF pipe])
  fix c s1 assume c: "s \<le> s1" "s1 \<le> length t" "tokens t c"
  obtain c' s2 where b: "parse_backs c t s1 = (c', s2)" by fastforce
  obtain more s3 where p: "sh_peek t s2 '';'' = (more, s3)" by fastforce
  obtain tok q eq s4 where g: "gettoken t s3 = (tok, q, eq, s4)" by (metis prod_cases4)
  have r: "s1 \<le> s2" "s2 \<le> length t" "tokens t c'" using parse_backs_good [OF c(2) t c(3) b] by auto
  have r3: "s2 \<le> s3" "s3 \<le> length t" using peek_range [OF p r(2)] by auto
  have "good t s1 (pbind (parseline f t s4) (\<lambda>r s. Parsed (LIST c' r) s))" if more
  proof -
    have s4: "s2 < s4" "s4 \<le> length t" using peek_next [of t s2 "'';''" s3 tok q eq s4] p g that r(2) t by auto
    then have "good t s1 (parseline f t s4)" using line [of s4] c(1) r(1) by (auto intro: good_from)
    then show ?thesis by (rule good_pbind) (use r(3) in auto)
  qed
  then show "good t s1 (let (c, s) = parse_backs c t s1; (more, s) = sh_peek t s '';'' in
     if more then let (_, _, _, s) = gettoken t s in pbind (parseline f t s) (\<lambda>r s. Parsed (LIST c r) s)
     else Parsed c s)" using b p g r r3 by auto
qed

lemma parsepipe_good:
  assumes t: "0 \<notin> set t" and s: "s \<le> length t" and exec: "good t s (parseexec f t s)"
    and pipe: "\<And>s'. s < s' \<Longrightarrow> s' \<le> length t \<Longrightarrow> good t s' (parsepipe f t s')"
  shows "good t s (parsepipe (Suc f) t s)"
  unfolding parsepipe.simps
proof (rule good_pbind [OF exec])
  fix c s1 assume c: "s \<le> s1" "s1 \<le> length t" "tokens t c"
  obtain more s3 where p: "sh_peek t s1 ''|'' = (more, s3)" by fastforce
  obtain tok q eq s4 where g: "gettoken t s3 = (tok, q, eq, s4)" by (metis prod_cases4)
  have r3: "s1 \<le> s3" "s3 \<le> length t" using peek_range [OF p c(2)] by auto
  have "good t s1 (pbind (parsepipe f t s4) (\<lambda>r s. Parsed (PIPE c r) s))" if more
  proof -
    have s4: "s1 < s4" "s4 \<le> length t" using peek_next [of t s1 "''|''" s3 tok q eq s4] p g that c(2) t by auto
    then have "good t s1 (parsepipe f t s4)" using pipe [of s4] c(1) by (auto intro: good_from)
    then show ?thesis by (rule good_pbind) (use c(3) in auto)
  qed
  then show "good t s1 (let (more, s) = sh_peek t s1 ''|'' in
     if more then let (_, _, _, s) = gettoken t s in pbind (parsepipe f t s) (\<lambda>r s. Parsed (PIPE c r) s)
     else Parsed c s)" using p g c r3 by auto
qed

lemma parseexec_good:
  assumes t: "0 \<notin> set t" and s: "s \<le> length t"
    and block: "\<And>s'. s \<le> s' \<Longrightarrow> s' \<le> length t \<Longrightarrow> good t s' (parseblock f t s')"
  shows "good t s (parseexec (Suc f) t s)"
proof -
  obtain b s0 where p: "sh_peek t s ''('' = (b, s0)" by fastforce
  have r: "s \<le> s0" "s0 \<le> length t" using peek_range [OF p s(1)] by auto
  have "good t s0 (pbind (parseredirs (EXEC []) t s0) (\<lambda>ret s. parse_args ret [] t s))"
    by (rule good_pbind [OF parseredirs_good]) (use r t parse_args_good in auto)
  then show ?thesis using p r block [of s0] by (cases b) (auto intro: good_from)
qed

lemma parseblock_good:
  assumes t: "0 \<notin> set t" and s: "s \<le> length t"
    and line: "\<And>s'. s < s' \<Longrightarrow> s' \<le> length t \<Longrightarrow> good t s' (parseline f t s')"
  shows "good t s (parseblock (Suc f) t s)"
proof -
  obtain b s0 where p: "sh_peek t s ''('' = (b, s0)" by fastforce
  obtain tok q eq s1 where g: "gettoken t s0 = (tok, q, eq, s1)" by (metis prod_cases4)
  have "good t s (pbind (parseline f t s1) (\<lambda>c s. let (close, s) = sh_peek t s '')'' in
       if \<not> close then Syntax ''syntax - missing )'' else let (_, _, _, s) = gettoken t s in parseredirs c t s))" if b
  proof (rule good_pbind)
    have s1: "s < s1" "s1 \<le> length t" using peek_next [of t s "''(''" s0 tok q eq s1] p g that s t by auto
    then show "good t s (parseline f t s1)" using line [of s1] by (auto intro: good_from)
  next
    fix c s2 assume c: "s \<le> s2" "s2 \<le> length t" "tokens t c"
    obtain b' s3 where p': "sh_peek t s2 '')'' = (b', s3)" by fastforce
    obtain tok q eq s4 where g': "gettoken t s3 = (tok, q, eq, s4)" by (metis prod_cases4)
    have "s4 \<le> length t" "s2 \<le> s4" using peek_range [OF p' c(2)] gettoken_range [OF g' _ t] gettoken_ge [OF g'] by auto
    then have "good t s2 (parseredirs c t s4)" using parseredirs_good [of s4 t c] t c(3) by (auto intro: good_from)
    then show "good t s2 (let (close, s) = sh_peek t s2 '')'' in
       if \<not> close then Syntax ''syntax - missing )'' else let (_, _, _, s) = gettoken t s in parseredirs c t s)"
      using p' g' by simp
  qed
  then show ?thesis using p g by (cases b) simp_all
qed

lemma parse_good:
  assumes t: "0 \<notin> set t" and s: "s \<le> length t"
  shows "4 * (length t - s) + 4 \<le> f \<Longrightarrow> good t s (parseline f t s)"
    "4 * (length t - s) + 3 \<le> f \<Longrightarrow> good t s (parsepipe f t s)"
    "4 * (length t - s) + 2 \<le> f \<Longrightarrow> good t s (parseexec f t s)"
    "4 * (length t - s) + 1 \<le> f \<Longrightarrow> good t s (parseblock f t s)"
  using s
proof (induction f arbitrary: s)
  case (Suc f)
  { case 1 show ?case by (rule parseline_good [OF t 1(2)]) (use 1 Suc in auto) }
  { case 2 show ?case by (rule parsepipe_good [OF t 2(2)]) (use 2 Suc in auto) }
  { case 3 show ?case by (rule parseexec_good [OF t 3(2)]) (use 3 Suc in auto) }
  { case 4 show ?case by (rule parseblock_good [OF t 4(2)]) (use 4 Suc in auto) }
qed simp_all

section \<open>Terminating the words\<close>

definition word_of :: "uchar list \<Rightarrow> nat \<times> nat \<Rightarrow> uchar list" where
  "word_of t w = take (snd w - fst w) (drop (fst w) t)"

lemma nulterminate_words: "nulterminate c b = fold (\<lambda>w b. b[snd w := 0]) (words c) b"
  by (induction c arbitrary: b) (simp_all add: case_prod_unfold)

lemma fold_zero:
  "length (fold (\<lambda>w b. b[snd w := 0]) ws b) = length b"
  "i < length b \<Longrightarrow> fold (\<lambda>w b. b[snd w := 0]) ws b ! i = (if i \<in> snd ` set ws then 0 else b ! i)"
  by (induction ws arbitrary: b) (auto simp: nth_list_update)

lemma str_at_token:
  assumes "tokens t c" "w \<in> set (words c)" "0 \<notin> set t"
  shows "str_at (nulterminate c (t @ [0])) (fst w) = word_of t w"
proof -
  let ?b = "nulterminate c (t @ [0])"
  have w: "fst w < snd w" "snd w \<le> length t" "\<And>i. fst w \<le> i \<Longrightarrow> i < snd w \<Longrightarrow> plain (t ! i)"
    using assms(1,2) by (auto simp: token_at_def)
  have l: "length ?b = length t + 1" by (simp add: nulterminate_words fold_zero)
  have kept: "?b ! i = t ! i" if i: "fst w \<le> i" "i < snd w" for i
  proof -
    have "i \<notin> snd ` set (words c)" using assms(1) w(2) w(3) [OF i] i(2) by (auto simp: token_at_def)
    then show ?thesis using i(2) w(2) by (simp add: nulterminate_words fold_zero nth_append)
  qed
  have "?b ! snd w = 0" using assms(2) w(2) by (simp add: nulterminate_words fold_zero)
  then have "str_at ?b (fst w) = take (snd w - fst w) (drop (fst w) ?b)"
    unfolding str_at_def using kept w(1,2) l assms(3)
    by (intro takeWhile_eq_take_P_nth) (auto simp: in_set_conv_nth)
  also have "\<dots> = word_of t w"
    using kept w(1,2) l by (intro nth_equalityI) (auto simp: word_of_def)
  finally show ?thesis .
qed




section \<open>Scripts\<close>

text \<open>Commands as the user means them, and how they are written.\<close>

datatype redir = Input | Output | Append

datatype script =
    Run "uchar list list"
  | Redirect script redir "uchar list"
  | Pipeline script script
  | Seq script script
  | Bg script

fun sign :: "redir \<Rightarrow> uchar list" where
  "sign Input = ascii ''<''"
| "sign Output = ascii ''>''"
| "sign Append = ascii ''>>''"

fun how_opened :: "redir \<Rightarrow> int \<times> int" where
  "how_opened Input = (O_RDONLY, 0)"
| "how_opened Output = (O_WRONLY OR O_CREATE OR O_TRUNC, 1)"
| "how_opened Append = (O_WRONLY OR O_CREATE, 1)"

definition paren :: "bool \<Rightarrow> uchar list \<Rightarrow> uchar list" where
  "paren b x = (if b then ascii ''('' @ x @ ascii '')'' else x)"

definition wtext :: "uchar list list \<Rightarrow> uchar list" where
  "wtext ws = concat (map (\<lambda>w. ascii '' '' @ w) ws)"

text \<open>Parentheses where the level asks for them: 0 for a simple command, 1 for a pipeline, 2 for background jobs, 3 for a list.\<close>

primrec render :: "script \<Rightarrow> nat \<Rightarrow> uchar list" where
  "render (Run ws) k = wtext ws"
| "render (Redirect c r w) k = render c 0 @ sign r @ w"
| "render (Pipeline l r) k = paren (k < 1) (render l 0 @ ascii ''|'' @ render r 1)"
| "render (Bg c) k = paren (k < 2) (render c 2 @ ascii ''&'')"
| "render (Seq l r) k = paren (k < 3) (render l 2 @ ascii '';'' @ render r 3)"

definition proper_word :: "uchar list \<Rightarrow> bool" where
  "proper_word w \<longleftrightarrow> w \<noteq> [] \<and> (\<forall>c \<in> set w. plain c \<and> c \<noteq> 0)"

primrec proper :: "script \<Rightarrow> bool" where
  "proper (Run ws) \<longleftrightarrow> length ws < MAXARGS \<and> (\<forall>w \<in> set ws. proper_word w)"
| "proper (Redirect c r w) \<longleftrightarrow> proper c \<and> proper_word w"
| "proper (Pipeline l r) \<longleftrightarrow> proper l \<and> proper r"
| "proper (Bg c) \<longleftrightarrow> proper c"
| "proper (Seq l r) \<longleftrightarrow> proper l \<and> proper r"

text \<open>A command tree that means a script, given how its words read.\<close>

fun spells :: "(nat \<times> nat \<Rightarrow> uchar list) \<Rightarrow> cmd \<Rightarrow> script \<Rightarrow> bool" where
  "spells rd (EXEC args) (Run ws) \<longleftrightarrow> map rd args = ws"
| "spells rd (REDIR c q e mode fd) (Redirect c' r w) \<longleftrightarrow> spells rd c c' \<and> rd (q, e) = w \<and> (mode, fd) = how_opened r"
| "spells rd (PIPE l r) (Pipeline l' r') \<longleftrightarrow> spells rd l l' \<and> spells rd r r'"
| "spells rd (LIST l r) (Seq l' r') \<longleftrightarrow> spells rd l l' \<and> spells rd r r'"
| "spells rd (BACK c) (Bg c') \<longleftrightarrow> spells rd c c'"
| "spells rd _ _ \<longleftrightarrow> False"

section \<open>What is ahead\<close>

definition ahead :: "uchar list \<Rightarrow> nat \<Rightarrow> uchar list" where
  "ahead t s = dropWhile white (drop s t)"

lemma drop_scan: "drop (scan P t s) t = dropWhile P (drop s t)"
  by (simp add: scan_while dropWhile_eq_drop add.commute)

lemma ahead_scan [simp]: "ahead t (scan white t s) = ahead t s"
  by (simp add: ahead_def drop_scan)

lemma ahead_nth0: "nth0 t (scan white t s) = nth0 (ahead t s) 0"
proof -
  have "nth0 t i = nth0 (drop i t) 0" for i by (simp add: nth0_def)
  then show ?thesis by (simp add: ahead_def flip: drop_scan)
qed

lemma ahead_no_zero: "0 \<notin> set t \<Longrightarrow> 0 \<notin> set (ahead t s)"
  unfolding ahead_def using set_dropWhileD in_set_dropD by metis

lemma ahead_Cons: "ahead t s = c # r \<Longrightarrow> \<not> white c \<and> drop (Suc (scan white t s)) t = r \<and> scan white t s < length t \<and> t ! scan white t s = c"
proof -
  assume a: "ahead t s = c # r"
  have d: "drop (scan white t s) t = c # r" using a by (simp add: ahead_def drop_scan)
  then have l: "scan white t s < length t" by (metis drop_all linorder_not_less list.distinct(1))
  have "\<not> white c" using a hd_dropWhile [of white "drop s t"] unfolding ahead_def by auto
  then show ?thesis using d l by (metis Cons_nth_drop_Suc list.inject)
qed

lemma strchr_mem: "0 \<notin> set xs \<Longrightarrow> strchr xs c \<noteq> None \<longleftrightarrow> c \<in> set xs"
  by (induction xs) auto

lemma peek_ahead:
  assumes "0 \<notin> set t" "0 \<notin> set (ascii toks)"
  shows "sh_peek t s toks = (ahead t s \<noteq> [] \<and> hd (ahead t s) \<in> set (ascii toks), scan white t s)"
proof -
  have "nth0 t (scan white t s) = (if ahead t s = [] then 0 else hd (ahead t s))"
    unfolding ahead_nth0 by (simp add: nth0_def hd_conv_nth)
  then show ?thesis using ahead_no_zero [OF assms(1), of s] strchr_mem [OF assms(2)] by (cases "ahead t s") (auto simp: sh_peek_def Let_def)
qed

lemma not_white_symbols [simp]:
  "\<not> white (chr CHR ''|'')" "\<not> white (chr CHR ''('')" "\<not> white (chr CHR '')'')" "\<not> white (chr CHR '';'')"
  "\<not> white (chr CHR ''&'')" "\<not> white (chr CHR ''<'')" "\<not> white (chr CHR ''>'')" "white (chr CHR '' '')"
  by (simp_all add: white_def whitespace_def ascii_def chr_def)

lemma plain_not: "plain c \<Longrightarrow> \<not> white c \<and> c \<notin> set (ascii ''<|>&;()'')"
  using strchr_mem [of symbols c] by (auto simp: plain_def white_def symbols_def ascii_def)

lemma ahead_after: "drop e t = r \<Longrightarrow> ahead t (scan white t e) = dropWhile white r"
  by (simp add: ahead_def drop_scan)

lemma gettoken_symbol:
  assumes "ahead t s = c # r" "c \<in> set (ascii ''|();&<'')"
  shows "\<exists>q e s'. gettoken t s = (c, q, e, s') \<and> ahead t s' = dropWhile white r"
proof -
  let ?q = "scan white t s"
  note a = ahead_Cons [OF assms(1)]
  have "nth0 t ?q = c" using a by (simp add: nth0_def)
  moreover have "c \<noteq> 0" using assms(2) by (auto simp: ascii_def)
  ultimately have "gettoken t s = (c, ?q, ?q + 1, scan white t (?q + 1))" using assms(2) by (simp add: gettoken_def Let_def)
  then show ?thesis using a ahead_after [of "?q + 1" t] by simp
qed

lemma gettoken_great:
  assumes "ahead t s = chr CHR ''>'' # r"
  shows "\<exists>q e s'. gettoken t s = (if nth0 r 0 = chr CHR ''>'' then chr CHR ''+'' else chr CHR ''>'', q, e, s')
    \<and> ahead t s' = dropWhile white (if nth0 r 0 = chr CHR ''>'' then tl r else r)"
proof -
  let ?q = "scan white t s"
  note a = ahead_Cons [OF assms(1)]
  have q: "nth0 t ?q = chr CHR ''>''" "nth0 t (?q + 1) = nth0 r 0"
    using a by (auto simp: nth0_def)
  have "drop (?q + 2) t = tl r" using a by (metis add_2_eq_Suc' drop_Suc tl_drop)
  then show ?thesis using q a ahead_after [of "?q + 1" t r] ahead_after [of "?q + 2" t "tl r"]
    by (simp add: gettoken_def Let_def ascii_def chr_def)
qed

lemma proper_hd: "proper_word w \<Longrightarrow> \<exists>c r. w = c # r \<and> plain c \<and> \<not> white c \<and> c \<notin> set (ascii ''<|>&;()'') \<and> c \<noteq> 0"
  using plain_not by (cases w) (auto simp: proper_word_def)

lemma proper_ahead [simp]: "proper_word w \<Longrightarrow> dropWhile white (w @ r) = w @ r"
  using proper_hd by fastforce

lemma gettoken_word:
  assumes "ahead t s = w @ r" "proper_word w" "r = [] \<or> \<not> plain (hd r)"
  shows "\<exists>q e s'. gettoken t s = (chr CHR ''a'', q, e, s') \<and> word_of t (q, e) = w \<and> ahead t s' = dropWhile white r"
proof -
  let ?q = "scan white t s"
  obtain c x where c: "w = c # x" "c \<notin> set (ascii ''<|>&;()'')" "c \<noteq> 0" using proper_hd [OF assms(2)] by blast
  have d: "drop ?q t = w @ r" using assms(1) by (simp add: ahead_def drop_scan)
  have "nth0 t ?q = c" using ahead_Cons [of t s c "x @ r"] assms(1) c(1) by (simp add: nth0_def)
  moreover have "takeWhile plain (w @ r) = w"
    using assms(2,3) by (cases r) (auto simp: proper_word_def takeWhile_tail)
  then have e: "scan plain t ?q = ?q + length w" using d by (simp add: scan_while [of plain])
  ultimately have "gettoken t s = (chr CHR ''a'', ?q, ?q + length w, scan white t (?q + length w))"
    using c(2,3) by (auto simp: gettoken_def Let_def ascii_def chr_def)
  moreover have "drop (?q + length w) t = r" using d by (metis append_eq_conv_conj drop_drop add.commute)
  then have "ahead t (scan white t (?q + length w)) = dropWhile white r" by (rule ahead_after)
  moreover have "word_of t (?q, ?q + length w) = w" using d by (simp add: word_of_def)
  ultimately show ?thesis by blast
qed

lemma gettoken_end: "ahead t s = [] \<Longrightarrow> \<exists>q e s'. gettoken t s = (0, q, e, s') \<and> ahead t s' = []"
  using ahead_nth0 [of t s] by (auto simp: gettoken_def Let_def nth0_def simp flip: One_nat_def)

definition stops :: "string \<Rightarrow> uchar list \<Rightarrow> bool" where
  "stops S x \<longleftrightarrow> dropWhile white x = [] \<or> hd (dropWhile white x) \<in> set (ascii S)"

lemma peek_go: "0 \<notin> set t \<Longrightarrow> 0 \<notin> set (ascii toks) \<Longrightarrow> ahead t s = c # r \<Longrightarrow> c \<in> set (ascii toks) \<Longrightarrow> sh_peek t s toks = (True, scan white t s)"
  by (simp add: peek_ahead)

lemma peek_stop:
  "0 \<notin> set t \<Longrightarrow> 0 \<notin> set (ascii toks) \<Longrightarrow> ahead t s = dropWhile white x \<Longrightarrow> stops S x \<Longrightarrow> set (ascii S) \<inter> set (ascii toks) = {}
    \<Longrightarrow> sh_peek t s toks = (False, scan white t s)"
  by (auto simp: peek_ahead stops_def)

lemma closers_not_plain: "stops ''|)&;'' x \<Longrightarrow> x = [] \<or> \<not> plain (hd x)"
proof (cases x)
  case (Cons c r)
  assume s: "stops ''|)&;'' x"
  show ?thesis
  proof (cases "white c")
    case True
    then show ?thesis using Cons plain_not by auto
  next
    case False
    then have "c \<in> set (ascii ''|)&;'')" using s Cons by (simp add: stops_def)
    then show ?thesis using Cons plain_not [of c] by (auto simp: ascii_def)
  qed
qed simp

definition rtext :: "(redir \<times> uchar list) list \<Rightarrow> uchar list" where
  "rtext rs = concat (map (\<lambda>(r, w). sign r @ w) rs)"

definition wrap :: "cmd \<Rightarrow> (redir \<times> nat \<times> nat) list \<Rightarrow> cmd" where
  "wrap c qs = foldl (\<lambda>c (r, q, e). REDIR c q e (fst (how_opened r)) (snd (how_opened r))) c qs"

abbreviation redirs_read :: "uchar list \<Rightarrow> (redir \<times> uchar list) list \<Rightarrow> (redir \<times> nat \<times> nat) list \<Rightarrow> bool" where
  "redirs_read t \<equiv> list_all2 (\<lambda>(r, w) (r', x). r = r' \<and> word_of t x = w)"

text \<open>The sign of a redirection, as \<open>gettoken\<close> sees it.\<close>

lemma gettoken_sign:
  assumes "ahead t s = sign r @ w @ x" "proper_word w"
  shows "\<exists>tok q e s'. gettoken t s = (tok, q, e, s') \<and> ahead t s' = w @ x \<and> (\<forall>c q e. redirect tok c q e = wrap c [(r, q, e)])"
proof -
  obtain h y where w: "w = h # y" "h \<noteq> chr CHR ''>''" using proper_hd [OF assms(2)] by (auto simp: ascii_def chr_def)
  show ?thesis
  proof (cases r)
    case Input
    then have "ahead t s = chr CHR ''<'' # (w @ x)" using assms(1) by (simp add: ascii_def chr_def)
    from gettoken_symbol [OF this] assms(2) Input show ?thesis by (fastforce simp: ascii_def chr_def redirect_def wrap_def)
  next
    case Output
    then have a: "ahead t s = chr CHR ''>'' # (w @ x)" using assms(1) by (simp add: ascii_def chr_def)
    have "nth0 (w @ x) 0 \<noteq> chr CHR ''>''" using w by (simp add: nth0_def)
    with gettoken_great [OF a] assms(2) Output show ?thesis by (fastforce simp: chr_def redirect_def wrap_def)
  next
    case Append
    then have a: "ahead t s = chr CHR ''>'' # (chr CHR ''>'' # w @ x)" using assms(1) by (simp add: ascii_def chr_def)
    from gettoken_great [OF a] assms(2) Append show ?thesis by (fastforce simp: chr_def nth0_def redirect_def wrap_def)
  qed
qed

section \<open>Reading what was written\<close>

lemma sign_hd: "\<exists>c x. sign r = c # x \<and> \<not> white c \<and> c \<in> set (ascii ''<>'') \<and> \<not> plain c"
  by (cases r) (auto simp: ascii_def white_def plain_def whitespace_def symbols_def)

lemma rtext_Cons: "rtext ((r, w) # rs) = sign r @ w @ rtext rs"
  by (simp add: rtext_def)

lemma rtext_not_plain: "x = [] \<or> \<not> plain (hd x) \<Longrightarrow> rtext rs @ x = [] \<or> \<not> plain (hd (rtext rs @ x))"
proof (cases rs)
  case (Cons a list)
  obtain r w where a: "a = (r, w)" by fastforce
  obtain c y where "sign r = c # y" "\<not> plain c" using sign_hd by blast
  then show ?thesis using Cons a by (simp add: rtext_Cons)
qed (simp add: rtext_def)

lemma parseredirs_reads:
  assumes "0 \<notin> set t" "\<forall>(r, w) \<in> set rs. proper_word w" "ahead t s = dropWhile white (rtext rs @ x)"
    "rs \<noteq> [] \<Longrightarrow> x = [] \<or> \<not> plain (hd x)"
    "\<And>s'. ahead t s' = dropWhile white x \<Longrightarrow> sh_peek t s' ''<>'' = (False, scan white t s')"
  shows "\<exists>qs s'. parseredirs c t s = Parsed (wrap c qs) s' \<and> ahead t s' = dropWhile white x \<and> redirs_read t rs qs"
  using assms(2,3,4)
proof (induction rs arbitrary: c s)
  case Nil
  then have "sh_peek t s ''<>'' = (False, scan white t s)" using assms(5) by (simp add: rtext_def)
  then have "parseredirs c t s = Parsed (wrap c []) (scan white t s)" by (subst parseredirs.simps) (simp add: wrap_def)
  then show ?case using Nil by (auto simp: rtext_def)
next
  case (Cons a rs)
  obtain r w where a: "a = (r, w)" by fastforce
  have w: "proper_word w" using Cons.prems(1) a by simp
  obtain h y where h: "sign r = h # y" "\<not> white h" "h \<in> set (ascii ''<>'')" using sign_hd by blast
  have ah: "ahead t s = sign r @ w @ rtext rs @ x" using Cons.prems(2) h by (simp add: a rtext_Cons)
  let ?s0 = "scan white t s"
  have p: "sh_peek t s ''<>'' = (True, ?s0)" using peek_go [OF assms(1) _ _ h(3), of s "y @ w @ rtext rs @ x"] ah h(1) by (simp add: ascii_def)
  obtain tok q1 e1 s1 where g1: "gettoken t ?s0 = (tok, q1, e1, s1)" "ahead t s1 = w @ rtext rs @ x"
      "\<And>c q e. redirect tok c q e = wrap c [(r, q, e)]"
    using gettoken_sign [of t ?s0 r w "rtext rs @ x"] ah w by auto
  have np: "rtext rs @ x = [] \<or> \<not> plain (hd (rtext rs @ x))" using rtext_not_plain Cons.prems(3) by blast
  obtain q e s2 where g2: "gettoken t s1 = (chr CHR ''a'', q, e, s2)" "word_of t (q, e) = w" "ahead t s2 = dropWhile white (rtext rs @ x)"
    using gettoken_word [OF g1(2) w np] by blast
  obtain qs s' where r: "parseredirs (wrap c [(r, q, e)]) t s2 = Parsed (wrap (wrap c [(r, q, e)]) qs) s'" "ahead t s' = dropWhile white x" "redirs_read t rs qs"
    using Cons.IH [of s2 "wrap c [(r, q, e)]"] g2(3) Cons.prems by auto
  have "parseredirs c t s = Parsed (wrap c ((r, q, e) # qs)) s'"
    using r(1) by (subst parseredirs.simps) (simp add: p g1(1,3) g2(1), simp add: wrap_def)
  then show ?case using r(2,3) g2(2) by (intro exI [of _ "(r, q, e) # qs"] exI [of _ s']) (simp add: a)
qed

lemma no_redir:
  assumes "0 \<notin> set t" "ahead t s = dropWhile white x" "stops ''|)&;'' x"
  shows "sh_peek t s ''<>'' = (False, scan white t s)"
  using assms by (intro peek_stop) (auto simp: ascii_def)

lemma wtext_Cons: "proper_word w \<Longrightarrow> dropWhile white (wtext (w # ws) @ x) = w @ wtext ws @ x"
  by (simp add: wtext_def ascii_def) (simp add: white_def whitespace_def ascii_def)

lemma peek_word:
  assumes "0 \<notin> set t" "ahead t s = w @ x" "proper_word w" "set (ascii toks) \<subseteq> set (ascii ''<|>&;()'')"
  shows "sh_peek t s toks = (False, scan white t s)"
proof -
  obtain c r where "w = c # r" "c \<notin> set (ascii ''<|>&;()'')" using proper_hd [OF assms(3)] by blast
  moreover have "0 \<notin> set (ascii toks)" using assms(4) by (auto simp: ascii_def)
  ultimately show ?thesis using assms by (auto simp: peek_ahead)
qed

lemma wrap_set_args: "set_args args (wrap (EXEC as) qs) = wrap (EXEC args) qs"
  by (induction qs rule: rev_induct) (auto simp: wrap_def)

lemma parse_args_end:
  assumes "0 \<notin> set t" "stops ''|)&;'' x" "ahead t s = dropWhile white x"
  shows "\<exists>s'. parse_args ret args t s = Parsed (set_args args ret) s' \<and> ahead t s' = dropWhile white x"
proof (cases "dropWhile white x = []")
  case True
  let ?s0 = "scan white t s"
  have "sh_peek t s ''|)&;'' = (False, ?s0)" using assms(1,3) True by (simp add: peek_ahead ascii_def)
  moreover obtain q e s' where "gettoken t ?s0 = (0, q, e, s')" "ahead t s' = []" using gettoken_end [of t ?s0] assms(3) True by auto
  ultimately show ?thesis using True by (subst parse_args.simps) (simp del: dropWhile_eq_Nil_conv)
next
  case False
  then have "sh_peek t s ''|)&;'' = (True, scan white t s)" using assms by (auto simp: peek_ahead stops_def ascii_def)
  then show ?thesis using assms(3) by (subst parse_args.simps) simp
qed

lemma parse_args_reads:
  assumes "0 \<notin> set t" "\<forall>(r, w) \<in> set rs. proper_word w" "stops ''|)&;'' x"
  shows "\<forall>w \<in> set ws. proper_word w \<Longrightarrow> length args + length ws < MAXARGS \<Longrightarrow> ws \<noteq> []
    \<Longrightarrow> ahead t s = dropWhile white (wtext ws @ rtext rs @ x)
    \<Longrightarrow> \<exists>as qs s'. parse_args ret args t s = Parsed (set_args (args @ as) (wrap ret qs)) s' \<and> map (word_of t) as = ws
        \<and> redirs_read t rs qs \<and> ahead t s' = dropWhile white x"
proof (induction ws arbitrary: ret args s)
  case (Cons w ws)
  let ?x = "wtext ws @ rtext rs @ x" and ?s0 = "scan white t s"
  have w: "proper_word w" and a: "ahead t s = w @ ?x" using Cons.prems wtext_Cons [of w ws] by simp_all
  have p: "sh_peek t s ''|)&;'' = (False, ?s0)" using peek_word [OF assms(1) a w] by (simp add: ascii_def)
  have np: "?x = [] \<or> \<not> plain (hd ?x)"
  proof (cases ws)
    case (Cons v vs)
    then show ?thesis by (simp add: wtext_def ascii_def plain_def whitespace_def)
  qed (use rtext_not_plain [OF closers_not_plain [OF assms(3)]] in \<open>simp add: wtext_def\<close>)
  obtain q e s1 where g: "gettoken t ?s0 = (chr CHR ''a'', q, e, s1)" "word_of t (q, e) = w" "ahead t s1 = dropWhile white ?x"
    using gettoken_word [of t ?s0 w ?x] a w np by auto
  have run: "parse_args ret args t s = pbind (parseredirs ret t s1) (\<lambda>ret s2. parse_args ret (args @ [(q, e)]) t s2)"
    using p g(1) Cons.prems(2) by (subst parse_args.simps) (simp add: chr_def)
  show ?case
  proof (cases "ws = []")
    case True
    then obtain qs s2 where r: "parseredirs ret t s1 = Parsed (wrap ret qs) s2" "ahead t s2 = dropWhile white x" "redirs_read t rs qs"
      using parseredirs_reads [OF assms(1,2), of s1 x ret] g(3) closers_not_plain [OF assms(3)] no_redir [OF assms(1) _ assms(3)]
      by (auto simp: wtext_def)
    obtain s' where "parse_args (wrap ret qs) (args @ [(q, e)]) t s2 = Parsed (set_args (args @ [(q, e)]) (wrap ret qs)) s'" "ahead t s' = dropWhile white x"
      using parse_args_end [OF assms(1,3) r(2)] by blast
    then show ?thesis using run r(1,3) g(2) True by (intro exI [of _ "[(q, e)]"] exI [of _ qs] exI [of _ s']) simp
  next
    case False
    then obtain v vs where v: "ws = v # vs" "proper_word v" using Cons.prems(1) by (cases ws) auto
    have a1: "ahead t s1 = v @ wtext vs @ rtext rs @ x" using g(3) v wtext_Cons by simp
    then have "sh_peek t s1 ''<>'' = (False, scan white t s1)" using peek_word [OF assms(1) _ v(2)] by (simp add: ascii_def)
    then have r: "parseredirs ret t s1 = Parsed ret (scan white t s1)" by (subst parseredirs.simps) simp
    obtain as qs s' where "parse_args ret (args @ [(q, e)]) t (scan white t s1) = Parsed (set_args ((args @ [(q, e)]) @ as) (wrap ret qs)) s'"
        "map (word_of t) as = ws" "redirs_read t rs qs" "ahead t s' = dropWhile white x"
      using Cons.IH [of "args @ [(q, e)]" "scan white t s1" ret] Cons.prems(1,2) False g(3) by auto
    then show ?thesis using run r g(2) by (intro exI [of _ "(q, e) # as"] exI [of _ qs] exI [of _ s']) simp
  qed
qed simp

text \<open>A simple command with its redirections.\<close>

lemma parseexec_reads:
  assumes "0 \<notin> set t" "\<forall>(r, w) \<in> set rs. proper_word w" "stops ''|)&;'' x" "\<forall>w \<in> set ws. proper_word w" "length ws < MAXARGS"
    "ahead t s = dropWhile white (wtext ws @ rtext rs @ x)"
  shows "\<exists>as qs s'. parseexec (Suc f) t s = Parsed (wrap (EXEC as) qs) s' \<and> map (word_of t) as = ws \<and> redirs_read t rs qs
    \<and> ahead t s' = dropWhile white x"
proof (cases ws)
  case Nil
  have a: "ahead t s = dropWhile white (rtext rs @ x)" using assms(6) Nil by (simp add: wtext_def)
  have "\<not> fst (sh_peek t s ''('')"
  proof (cases rs)
    case (Cons b rs')
    obtain r w where b: "b = (r, w)" by fastforce
    obtain h y where "sign r = h # y" "\<not> white h" "h \<in> set (ascii ''<>'')" using sign_hd by blast
    then show ?thesis using a Cons b assms(1) by (auto simp: peek_ahead rtext_Cons ascii_def)
  qed (use a peek_stop [of t "''(''" s x "''|)&;''"] assms(1,3) in \<open>simp add: rtext_def ascii_def\<close>)
  then have p: "sh_peek t s ''('' = (False, scan white t s)" using assms(1) by (simp add: peek_ahead ascii_def)
  obtain qs s1 where r: "parseredirs (EXEC []) t (scan white t s) = Parsed (wrap (EXEC []) qs) s1" "ahead t s1 = dropWhile white x" "redirs_read t rs qs"
    using parseredirs_reads [OF assms(1,2), of "scan white t s" x "EXEC []"] a closers_not_plain [OF assms(3)] no_redir [OF assms(1) _ assms(3)] by auto
  obtain s' where "parse_args (wrap (EXEC []) qs) [] t s1 = Parsed (set_args [] (wrap (EXEC []) qs)) s'" "ahead t s' = dropWhile white x"
    using parse_args_end [OF assms(1,3) r(2)] by blast
  then show ?thesis using p r(1,3) Nil by (auto simp: wrap_set_args)
next
  case (Cons v vs)
  let ?s0 = "scan white t s"
  have v: "proper_word v" using assms(4) Cons by simp
  have a: "ahead t s = v @ wtext vs @ rtext rs @ x" "ahead t ?s0 = v @ wtext vs @ rtext rs @ x" using assms(6) Cons wtext_Cons [OF v] by simp_all
  have p: "sh_peek t s ''('' = (False, ?s0)" "sh_peek t ?s0 ''<>'' = (False, ?s0)"
    using peek_word [OF assms(1) a(1) v, of "''(''"] peek_word [OF assms(1) a(2) v, of "''<>''"] by (simp_all add: ascii_def)
  then have r: "parseredirs (EXEC []) t ?s0 = Parsed (EXEC []) ?s0" by (subst parseredirs.simps) simp
  obtain as qs s' where "parse_args (EXEC []) [] t ?s0 = Parsed (set_args ([] @ as) (wrap (EXEC []) qs)) s'"
      "map (word_of t) as = ws" "redirs_read t rs qs" "ahead t s' = dropWhile white x"
    using parse_args_reads [OF assms(1-4), of "[]" ?s0 "EXEC []"] assms(5,6) Cons by auto
  then show ?thesis using p r by (auto simp: wrap_set_args)
qed

section \<open>The round trip\<close>

text \<open>A redirected script is a base with a list of redirections.\<close>

primrec base :: "script \<Rightarrow> script" where
  "base (Run ws) = Run ws"
| "base (Redirect c r w) = base c"
| "base (Pipeline l r) = Pipeline l r"
| "base (Bg c) = Bg c"
| "base (Seq l r) = Seq l r"

primrec redirs :: "script \<Rightarrow> (redir \<times> uchar list) list" where
  "redirs (Run ws) = []"
| "redirs (Redirect c r w) = redirs c @ [(r, w)]"
| "redirs (Pipeline l r) = []"
| "redirs (Bg c) = []"
| "redirs (Seq l r) = []"

lemma render_base: "render c 0 = render (base c) 0 @ rtext (redirs c)"
  by (induction c) (simp_all add: rtext_def)

lemma proper_base: "proper c \<Longrightarrow> proper (base c) \<and> (\<forall>(r, w) \<in> set (redirs c). proper_word w)"
  by (induction c) auto

lemma base_not_redirect: "base c \<noteq> Redirect d r w"
  by (induction c) auto

lemma spells_wrap: "spells (word_of t) cm (base c) \<Longrightarrow> redirs_read t (redirs c) qs \<Longrightarrow> spells (word_of t) (wrap cm qs) c"
proof (induction c arbitrary: qs)
  case (Redirect c r w)
  obtain ps x where q: "qs = ps @ [x]" "redirs_read t (redirs c) ps" "(\<lambda>(r, w) (r', x). r = r' \<and> word_of t x = w) (r, w) x"
    using Redirect.prems(2) by (auto simp: list_all2_append1 list_all2_Cons1)
  then show ?case using Redirect.IH [OF _ q(2)] Redirect.prems(1) by (cases x) (auto simp: wrap_def)
qed (auto simp: wrap_def)

text \<open>What each function of the parser does with a script written at its level, before text it stops at.\<close>

definition reads :: "(nat \<Rightarrow> uchar list \<Rightarrow> nat \<Rightarrow> cmd parse) \<Rightarrow> nat \<Rightarrow> string \<Rightarrow> nat \<Rightarrow> uchar list \<Rightarrow> script \<Rightarrow> bool" where
  "reads p n S k t c \<longleftrightarrow> (\<forall>f s x. s \<le> length t \<longrightarrow> 4 * (length t - s) + n \<le> f \<longrightarrow> ahead t s = dropWhile white (render c k @ x) \<longrightarrow> stops S x
     \<longrightarrow> (\<exists>cm s'. p f t s = Parsed cm s' \<and> ahead t s' = dropWhile white x \<and> spells (word_of t) cm c))"

text \<open>In the loop over ampersands, the command so far may be followed by further ones.\<close>

definition reads_backs :: "uchar list \<Rightarrow> script \<Rightarrow> bool" where
  "reads_backs t c \<longleftrightarrow> (\<forall>f s x. s \<le> length t \<longrightarrow> 4 * (length t - s) + 3 \<le> f \<longrightarrow> ahead t s = dropWhile white (render c 2 @ x) \<longrightarrow> stops '')&;'' x
     \<longrightarrow> (\<exists>c0 s0 cm s'. parsepipe f t s = Parsed c0 s0 \<and> parse_backs c0 t s0 = parse_backs cm t s' \<and> s \<le> s' \<and> s' \<le> length t
          \<and> ahead t s' = dropWhile white x \<and> spells (word_of t) cm c))"

abbreviation "reads_exec \<equiv> reads parseexec 2 ''|)&;'' 0"
abbreviation "reads_pipe \<equiv> reads parsepipe 3 '')&;'' 1"
abbreviation "reads_line \<equiv> reads parseline 4 '')'' 3"

lemma stops_mono: "stops S x \<Longrightarrow> set (ascii S) \<subseteq> set (ascii S') \<Longrightarrow> stops S' x"
  by (auto simp: stops_def)

lemma ascii1: "ascii [c] = [chr c]"
  by (simp add: ascii_def chr_def)

lemma stops_Cons: "\<not> white c \<Longrightarrow> c \<in> set (ascii S) \<Longrightarrow> stops S (c # x)"
  by (simp add: stops_def)

lemma symbol_chars [simp]:
  "chr CHR ''|'' \<noteq> 0" "chr CHR ''('' \<noteq> 0" "chr CHR '')'' \<noteq> 0" "chr CHR '';'' \<noteq> 0" "chr CHR ''&'' \<noteq> 0"
  "chr CHR ''|'' \<in> set (ascii ''|();&<'')" "chr CHR ''('' \<in> set (ascii ''|();&<'')" "chr CHR '')'' \<in> set (ascii ''|();&<'')"
  "chr CHR '';'' \<in> set (ascii ''|();&<'')" "chr CHR ''&'' \<in> set (ascii ''|();&<'')"
  by (simp_all add: ascii_def chr_def)

lemma symbol_next:
  assumes t: "0 \<notin> set t" and a: "ahead t s = chr c # r" "s \<le> length t" "chr c \<in> set (ascii ''|();&<'')" "chr c \<noteq> 0"
  shows "\<exists>tok q e s1. sh_peek t s [c] = (True, scan white t s) \<and> gettoken t (scan white t s) = (tok, q, e, s1)
    \<and> s < s1 \<and> s1 \<le> length t \<and> ahead t s1 = dropWhile white r"
proof -
  have p: "sh_peek t s [c] = (True, scan white t s)" using peek_go [OF t _ a(1), of "[c]"] a(4) by (simp add: ascii1)
  obtain q e s1 where g: "gettoken t (scan white t s) = (chr c, q, e, s1)" "ahead t s1 = dropWhile white r"
    using gettoken_symbol [of t "scan white t s" "chr c" r] a(1,3) by auto
  show ?thesis using p g peek_next [OF p g(1) a(2) t] by blast
qed

lemma reads_exec_simple:
  assumes t: "0 \<notin> set t" and c: "proper c" "base c = Run ws"
  shows "reads_exec t c"
  unfolding reads_def
proof (intro allI impI)
  fix f s x assume h: "s \<le> length t" "4 * (length t - s) + 2 \<le> f" "ahead t s = dropWhile white (render c 0 @ x)" "stops ''|)&;'' x"
  obtain g where f: "f = Suc g" using h(2) by (cases f) auto
  have w: "\<forall>(r, w) \<in> set (redirs c). proper_word w" "\<forall>w \<in> set ws. proper_word w" "length ws < MAXARGS"
    using proper_base [OF c(1)] c(2) by auto
  have "ahead t s = dropWhile white (wtext ws @ rtext (redirs c) @ x)" using h(3) c(2) by (simp add: render_base [of c])
  then obtain as qs s' where "parseexec f t s = Parsed (wrap (EXEC as) qs) s'" "map (word_of t) as = ws" "redirs_read t (redirs c) qs" "ahead t s' = dropWhile white x"
    using parseexec_reads [OF t w(1) h(4) w(2,3)] f by blast
  then show "\<exists>cm s'. parseexec f t s = Parsed cm s' \<and> ahead t s' = dropWhile white x \<and> spells (word_of t) cm c"
    using spells_wrap [of t "EXEC as" c qs] c(2) by auto
qed

lemma reads_exec_block:
  assumes t: "0 \<notin> set t" and c: "proper c" "reads_line t (base c)" "render (base c) 0 = paren True (render (base c) 3)"
  shows "reads_exec t c"
  unfolding reads_def
proof (intro allI impI)
  fix f s x assume h: "s \<le> length t" "4 * (length t - s) + 2 \<le> f" "ahead t s = dropWhile white (render c 0 @ x)" "stops ''|)&;'' x"
  let ?b = "render (base c) 3" and ?s0 = "scan white t s" and ?r = "rtext (redirs c) @ x"
  obtain g where f: "f = Suc (Suc g)" using h(2) by (cases f; cases "f - 1") auto
  have a: "ahead t s = chr CHR ''('' # ?b @ chr CHR '')'' # ?r"
    using h(3) c(3) by (simp add: render_base [of c] paren_def ascii1)
  then obtain tok q e s1 where p: "sh_peek t s ''('' = (True, ?s0)" "gettoken t ?s0 = (tok, q, e, s1)" "s < s1" "s1 \<le> length t"
      "ahead t s1 = dropWhile white (?b @ chr CHR '')'' # ?r)"
    using symbol_next [OF t a h(1)] by auto
  have st: "stops '')'' (chr CHR '')'' # ?r)" by (rule stops_Cons) (simp_all add: ascii1)
  have "4 * (length t - s1) + 4 \<le> g" using h(2) p(3,4) f by auto
  then obtain cm s2 where l: "parseline g t s1 = Parsed cm s2" "ahead t s2 = chr CHR '')'' # ?r" "spells (word_of t) cm (base c)"
    using c(2) p(4,5) st unfolding reads_def by fastforce
  have "s2 \<le> length t" using parse_good(1) [OF t p(4), of g] \<open>4 * (length t - s1) + 4 \<le> g\<close> l(1) by simp
  then obtain tok' q' e' s3 where p': "sh_peek t s2 '')'' = (True, scan white t s2)" "gettoken t (scan white t s2) = (tok', q', e', s3)"
      "ahead t s3 = dropWhile white ?r"
    using symbol_next [OF t l(2)] by auto
  obtain qs s' where r: "parseredirs cm t s3 = Parsed (wrap cm qs) s'" "ahead t s' = dropWhile white x" "redirs_read t (redirs c) qs"
    using parseredirs_reads [OF t, of "redirs c" s3 x cm] proper_base [OF c(1)] p'(3) closers_not_plain [OF h(4)] no_redir [OF t _ h(4)] by auto
  have p2: "sh_peek t ?s0 ''('' = (True, ?s0)" using p(1) by (simp add: sh_peek_def Let_def)
  have "parseexec f t s = Parsed (wrap cm qs) s'" using f p p2 l(1) p' r(1) by simp
  then show "\<exists>cm s'. parseexec f t s = Parsed cm s' \<and> ahead t s' = dropWhile white x \<and> spells (word_of t) cm c"
    using spells_wrap [OF l(3) r(3)] r(2) by blast
qed

lemma readsD:
  assumes "reads p n S k t c" "s \<le> length t" "4 * (length t - s) + n \<le> f" "ahead t s = dropWhile white (render c k @ x)" "stops S x"
  shows "\<exists>cm s'. p f t s = Parsed cm s' \<and> ahead t s' = dropWhile white x \<and> spells (word_of t) cm c"
  using assms unfolding reads_def by blast

lemma backsD:
  assumes "reads_backs t c" "s \<le> length t" "4 * (length t - s) + 3 \<le> f" "ahead t s = dropWhile white (render c 2 @ x)" "stops '')&;'' x"
  shows "\<exists>c0 s0 cm s'. parsepipe f t s = Parsed c0 s0 \<and> parse_backs c0 t s0 = parse_backs cm t s' \<and> s \<le> s' \<and> s' \<le> length t
    \<and> ahead t s' = dropWhile white x \<and> spells (word_of t) cm c"
  using assms unfolding reads_backs_def by blast

lemma reads_pipe_exec:
  assumes t: "0 \<notin> set t" and c: "reads_exec t c" "render c 1 = render c 0"
  shows "reads_pipe t c"
  unfolding reads_def
proof (intro allI impI)
  fix f s x assume h: "s \<le> length t" "4 * (length t - s) + 3 \<le> f" "ahead t s = dropWhile white (render c 1 @ x)" "stops '')&;'' x"
  obtain g where f: "f = Suc g" "4 * (length t - s) + 2 \<le> g" using h(2) by (cases f) auto
  have "stops ''|)&;'' x" using h(4) by (rule stops_mono) (simp add: ascii_def)
  then obtain cm s1 where e: "parseexec g t s = Parsed cm s1" "ahead t s1 = dropWhile white x" "spells (word_of t) cm c"
    using readsD [OF c(1) h(1) f(2), of x] h(3) c(2) by auto
  moreover have "sh_peek t s1 ''|'' = (False, scan white t s1)"
    using peek_stop [OF t _ e(2) h(4), of "''|''"] by (simp add: ascii_def)
  ultimately show "\<exists>cm s'. parsepipe f t s = Parsed cm s' \<and> ahead t s' = dropWhile white x \<and> spells (word_of t) cm c"
    using f(1) by simp
qed

lemma reads_pipe_Pipeline:
  assumes t: "0 \<notin> set t" and c: "reads_exec t l" "reads_pipe t r"
  shows "reads_pipe t (Pipeline l r)"
  unfolding reads_def
proof (intro allI impI)
  fix f s x assume h: "s \<le> length t" "4 * (length t - s) + 3 \<le> f" "ahead t s = dropWhile white (render (Pipeline l r) 1 @ x)" "stops '')&;'' x"
  let ?y = "chr CHR ''|'' # render r 1 @ x"
  obtain g where f: "f = Suc g" "4 * (length t - s) + 2 \<le> g" using h(2) by (cases f) auto
  have "stops ''|)&;'' ?y" by (rule stops_Cons, simp, simp add: ascii_def chr_def)
  then obtain cm s1 where e: "parseexec g t s = Parsed cm s1" "ahead t s1 = ?y" "spells (word_of t) cm l"
    using readsD [OF c(1) h(1) f(2), of ?y] h(3) by (auto simp: paren_def ascii1)
  have s1: "s \<le> s1" "s1 \<le> length t" using parse_good(3) [OF t h(1) f(2)] e(1) by simp_all
  obtain tok q e' s2 where p: "sh_peek t s1 ''|'' = (True, scan white t s1)" "gettoken t (scan white t s1) = (tok, q, e', s2)"
      "s1 < s2" "s2 \<le> length t" "ahead t s2 = dropWhile white (render r 1 @ x)"
    using symbol_next [OF t e(2) s1(2)] by auto
  have "4 * (length t - s2) + 3 \<le> g" using h(2) f(1) s1 p(3,4) by auto
  then obtain cr s' where "parsepipe g t s2 = Parsed cr s'" "ahead t s' = dropWhile white x" "spells (word_of t) cr r"
    using readsD [OF c(2) p(4) _ p(5) h(4)] by blast
  then show "\<exists>cm s'. parsepipe f t s = Parsed cm s' \<and> ahead t s' = dropWhile white x \<and> spells (word_of t) cm (Pipeline l r)"
    using f(1) e p by simp
qed

lemma reads_backs_pipe:
  assumes t: "0 \<notin> set t" and c: "reads_pipe t c" "render c 2 = render c 1"
  shows "reads_backs t c"
  unfolding reads_backs_def
proof (intro allI impI)
  fix f s x assume h: "s \<le> length t" "4 * (length t - s) + 3 \<le> f" "ahead t s = dropWhile white (render c 2 @ x)" "stops '')&;'' x"
  obtain cm s1 where e: "parsepipe f t s = Parsed cm s1" "ahead t s1 = dropWhile white x" "spells (word_of t) cm c"
    using readsD [OF c(1) h(1,2), of x] h(3,4) c(2) by auto
  moreover have "s \<le> s1" "s1 \<le> length t" using parse_good(2) [OF t h(1,2)] e(1) by simp_all
  ultimately show "\<exists>c0 s0 cm s'. parsepipe f t s = Parsed c0 s0 \<and> parse_backs c0 t s0 = parse_backs cm t s' \<and> s \<le> s' \<and> s' \<le> length t
      \<and> ahead t s' = dropWhile white x \<and> spells (word_of t) cm c" by blast
qed

lemma reads_backs_Bg:
  assumes t: "0 \<notin> set t" and c: "reads_backs t c"
  shows "reads_backs t (Bg c)"
  unfolding reads_backs_def
proof (intro allI impI)
  fix f s x assume h: "s \<le> length t" "4 * (length t - s) + 3 \<le> f" "ahead t s = dropWhile white (render (Bg c) 2 @ x)" "stops '')&;'' x"
  let ?y = "chr CHR ''&'' # x"
  have "stops '')&;'' ?y" by (rule stops_Cons, simp, simp add: ascii_def chr_def)
  then obtain c0 s0 cm s1 where e: "parsepipe f t s = Parsed c0 s0" "parse_backs c0 t s0 = parse_backs cm t s1" "s \<le> s1" "s1 \<le> length t"
      "ahead t s1 = ?y" "spells (word_of t) cm c"
    using backsD [OF c h(1,2), of ?y] h(3) by (auto simp: paren_def ascii1)
  obtain tok q e' s2 where p: "sh_peek t s1 ''&'' = (True, scan white t s1)" "gettoken t (scan white t s1) = (tok, q, e', s2)"
      "s1 < s2" "s2 \<le> length t" "ahead t s2 = dropWhile white x"
    using symbol_next [OF t e(5,4)] by auto
  have "parse_backs cm t s1 = parse_backs (BACK cm) t s2" using p(1,2) by (subst parse_backs.simps) simp
  then show "\<exists>c0 s0 cm s'. parsepipe f t s = Parsed c0 s0 \<and> parse_backs c0 t s0 = parse_backs cm t s' \<and> s \<le> s' \<and> s' \<le> length t
      \<and> ahead t s' = dropWhile white x \<and> spells (word_of t) cm (Bg c)"
    using e p by (intro exI [of _ c0] exI [of _ s0] exI [of _ "BACK cm"] exI [of _ s2]) simp
qed

lemma backs_end:
  assumes "0 \<notin> set t" "ahead t s = dropWhile white x" "stops '');'' x"
  shows "parse_backs c t s = (c, scan white t s)"
  using peek_stop [OF assms(1) _ assms(2,3), of "''&''"] by (subst parse_backs.simps) (simp add: ascii_def)

lemma reads_line_backs:
  assumes t: "0 \<notin> set t" and c: "reads_backs t c" "render c 3 = render c 2"
  shows "reads_line t c"
  unfolding reads_def
proof (intro allI impI)
  fix f s x assume h: "s \<le> length t" "4 * (length t - s) + 4 \<le> f" "ahead t s = dropWhile white (render c 3 @ x)" "stops '')'' x"
  obtain g where f: "f = Suc g" "4 * (length t - s) + 3 \<le> g" using h(2) by (cases f) auto
  have st: "stops '')&;'' x" "stops '');'' x" using stops_mono [OF h(4)] by (simp_all add: ascii_def)
  obtain c0 s0 cm s1 where e: "parsepipe g t s = Parsed c0 s0" "parse_backs c0 t s0 = parse_backs cm t s1"
      "ahead t s1 = dropWhile white x" "spells (word_of t) cm c"
    using backsD [OF c(1) h(1) f(2), of x] h(3) c(2) st by auto
  have "sh_peek t (scan white t s1) '';'' = (False, scan white t s1)"
    using peek_stop [OF t _ _ h(4), of "'';''" "scan white t s1"] e(3) by (simp add: ascii_def)
  then show "\<exists>cm s'. parseline f t s = Parsed cm s' \<and> ahead t s' = dropWhile white x \<and> spells (word_of t) cm c"
    using f(1) e backs_end [OF t e(3) st(2)] by simp
qed

lemma reads_line_Seq:
  assumes t: "0 \<notin> set t" and c: "reads_backs t l" "reads_line t r"
  shows "reads_line t (Seq l r)"
  unfolding reads_def
proof (intro allI impI)
  fix f s x assume h: "s \<le> length t" "4 * (length t - s) + 4 \<le> f" "ahead t s = dropWhile white (render (Seq l r) 3 @ x)" "stops '')'' x"
  let ?y = "chr CHR '';'' # render r 3 @ x"
  obtain g where f: "f = Suc g" "4 * (length t - s) + 3 \<le> g" using h(2) by (cases f) auto
  have st: "stops '')&;'' ?y" "stops '');'' ?y" by (rule stops_Cons, simp, simp add: ascii_def chr_def)+
  obtain c0 s0 cm s1 where e: "parsepipe g t s = Parsed c0 s0" "parse_backs c0 t s0 = parse_backs cm t s1" "s \<le> s1" "s1 \<le> length t"
      "ahead t s1 = ?y" "spells (word_of t) cm l"
    using backsD [OF c(1) h(1) f(2), of ?y] h(3) st by (auto simp: paren_def ascii1)
  have b: "parse_backs cm t s1 = (cm, scan white t s1)" using backs_end [OF t _ st(2), of s1 cm] e(5) by simp
  have s2: "scan white t s1 \<le> length t" "ahead t (scan white t s1) = ?y" "s1 \<le> scan white t s1" using e(4,5) scan_le scan_ge by auto
  obtain tok q e' s3 where p: "sh_peek t (scan white t s1) '';'' = (True, scan white t s1)" "gettoken t (scan white t s1) = (tok, q, e', s3)"
      "scan white t s1 < s3" "s3 \<le> length t" "ahead t s3 = dropWhile white (render r 3 @ x)"
    using symbol_next [OF t s2(2,1)] by auto
  have "4 * (length t - s3) + 4 \<le> g" using h(2) f(1) e(3) s2(3) p(3,4) by auto
  then obtain cr s' where "parseline g t s3 = Parsed cr s'" "ahead t s' = dropWhile white x" "spells (word_of t) cr r"
    using readsD [OF c(2) p(4) _ p(5) h(4)] by blast
  then show "\<exists>cm s'. parseline f t s = Parsed cm s' \<and> ahead t s' = dropWhile white x \<and> spells (word_of t) cm (Seq l r)"
    using f(1) e b p by simp
qed

definition in_block :: "uchar list \<Rightarrow> script \<Rightarrow> bool" where
  "in_block t c \<longleftrightarrow> (\<exists>ws. base c = Run ws) \<or> (reads_line t (base c) \<and> render (base c) 0 = paren True (render (base c) 3))"

lemma reads_exec_base: "0 \<notin> set t \<Longrightarrow> proper c \<Longrightarrow> in_block t c \<Longrightarrow> reads_exec t c"
  using reads_exec_simple reads_exec_block unfolding in_block_def by blast

lemma reads_up:
  assumes "0 \<notin> set t"
  shows "reads_pipe t c \<Longrightarrow> render c 2 = render c 1 \<Longrightarrow> render c 3 = render c 1 \<Longrightarrow> reads_backs t c \<and> reads_line t c"
  using reads_backs_pipe [OF assms, of c] reads_line_backs [OF assms, of c] by simp

lemma reads_script:
  assumes t: "0 \<notin> set t"
  shows "proper c \<Longrightarrow> reads_exec t c \<and> reads_pipe t c \<and> reads_backs t c \<and> reads_line t c \<and> in_block t c"
proof (induction c)
  case (Run ws)
  then have b: "in_block t (Run ws)" "reads_exec t (Run ws)" using reads_exec_simple [OF t] by (auto simp: in_block_def)
  then have "reads_pipe t (Run ws)" using reads_pipe_exec [OF t b(2)] by simp
  then show ?case using b reads_up [OF t, of "Run ws"] by simp
next
  case (Redirect c r w)
  then have b: "in_block t (Redirect c r w)" by (simp add: in_block_def)
  then have e: "reads_exec t (Redirect c r w)" using reads_exec_base [OF t Redirect.prems] by simp
  then have "reads_pipe t (Redirect c r w)" using reads_pipe_exec [OF t e] by simp
  then show ?case using b e reads_up [OF t, of "Redirect c r w"] by simp
next
  case (Pipeline l r)
  then have p: "reads_pipe t (Pipeline l r)" using reads_pipe_Pipeline [OF t] by simp
  then have u: "reads_backs t (Pipeline l r)" "reads_line t (Pipeline l r)" using reads_up [OF t p] by (simp_all add: paren_def)
  then have b: "in_block t (Pipeline l r)" by (simp add: in_block_def paren_def)
  then show ?case using p u reads_exec_base [OF t Pipeline.prems] by simp
next
  case (Seq l r)
  then have u: "reads_line t (Seq l r)" using reads_line_Seq [OF t] by simp
  then have b: "in_block t (Seq l r)" by (simp add: in_block_def paren_def)
  then have e: "reads_exec t (Seq l r)" using reads_exec_base [OF t Seq.prems] by simp
  then have p: "reads_pipe t (Seq l r)" using reads_pipe_exec [OF t e] by (simp add: paren_def)
  then show ?case using e u b reads_backs_pipe [OF t p] by (simp add: paren_def)
next
  case (Bg c)
  then have k: "reads_backs t (Bg c)" using reads_backs_Bg [OF t] by simp
  then have u: "reads_line t (Bg c)" using reads_line_backs [OF t k] by (simp add: paren_def)
  then have b: "in_block t (Bg c)" by (simp add: in_block_def paren_def)
  then have e: "reads_exec t (Bg c)" using reads_exec_base [OF t Bg.prems] by simp
  then show ?case using k u b reads_pipe_exec [OF t e] by (simp add: paren_def)
qed

lemma zero_not_white: "\<not> white 0"
  by (simp add: white_def whitespace_def ascii_def)

lemma render_no_zero: "proper c \<Longrightarrow> 0 \<notin> set (render c k)"
proof (induction c arbitrary: k)
  case (Redirect c r w)
  then show ?case by (cases r) (auto simp: proper_word_def ascii_def)
qed (auto simp: wtext_def proper_word_def paren_def ascii_def)

lemma spells_cong: "spells rd cm c \<Longrightarrow> (\<And>x. x \<in> set (words cm) \<Longrightarrow> rd' x = rd x) \<Longrightarrow> spells rd' cm c"
  by (induction rd cm c rule: spells.induct) auto

lemma scan_to_end: "ahead t s = [] \<Longrightarrow> s \<le> length t \<Longrightarrow> scan white t s = length t"
  using drop_scan [of white t s] scan_le [of s t white] by (simp add: ahead_def del: dropWhile_eq_Nil_conv)

text \<open>
  C30. The shell understands what is written: a script of simple commands with at most nine words,
  redirections, pipelines, sequences and background jobs, nested in any way and written with
  parentheses where the grammar needs them, is parsed back to the same script, with the words read
  from the line as \<open>nulterminate\<close> leaves it. Nothing is printed, and blanks may follow.
\<close>

theorem parse_render:
  assumes "proper c" "\<forall>b \<in> set ws. white b"
  shows "\<exists>cm b. parsecmd os (render c 3 @ ws) w = URet (cm, b) w \<and> spells (\<lambda>x. str_at b (fst x)) cm c"
proof -
  let ?t = "render c 3 @ ws"
  have t: "0 \<notin> set ?t" using render_no_zero [OF assms(1)] assms(2) zero_not_white by auto
  have st: "stops '')'' ws" using assms(2) by (simp add: stops_def)
  have ah: "ahead ?t 0 = dropWhile white (render c 3 @ ws)" by (simp add: ahead_def)
  have line: "reads_line ?t c" using reads_script [OF t assms(1)] by blast
  obtain cm s where p: "parseline (4 * length ?t + 4) ?t 0 = Parsed cm s" "ahead ?t s = dropWhile white ws" "spells (word_of ?t) cm c"
    using readsD [OF line _ _ ah st, of "4 * length ?t + 4"] by auto
  have g: "s \<le> length ?t" "tokens ?t cm" using parse_good(1) [OF t, of 0 "4 * length ?t + 4"] p(1) by simp_all
  have "ahead ?t s = []" using p(2) assms(2) by simp
  then have "parse_text ?t = Parsed cm (length ?t)"
    using p(1) scan_to_end [OF _ g(1)] by (simp add: parse_text_def sh_peek_def Let_def)
  then have "parsecmd os ?t w = URet (cm, nulterminate cm (?t @ [0])) w" by (simp add: parsecmd_def)
  moreover have "spells (\<lambda>x. str_at (nulterminate cm (?t @ [0])) (fst x)) cm c"
    using p(3) by (rule spells_cong) (use str_at_token [OF g(2) _ t] in simp)
  ultimately show ?thesis by blast
qed

text \<open>The line of \<^verbatim>\<open>(ls;echo hi)|wc>f&\<close> and its newline.\<close>

definition sample_script :: script where
  "sample_script = Bg (Pipeline (Seq (Run [ascii ''ls'']) (Run [ascii ''echo'', ascii ''hi''])) (Redirect (Run [ascii ''wc'']) Output (ascii ''f'')))"

lemma sample_proper: "proper sample_script"
  by (simp add: sample_script_def proper_word_def plain_def whitespace_def symbols_def ascii_def MAXARGS_def)

theorem parse_render_witness:
  "\<exists>cm b. parsecmd sample_os (ascii ''( ls; echo hi)| wc>f&\<newline>'') ([], []) = URet (cm, b) ([], []) \<and> spells (\<lambda>x. str_at b (fst x)) cm sample_script"
proof -
  have "render sample_script 3 @ [10] = ascii ''( ls; echo hi)| wc>f&\<newline>''"
    by (simp add: sample_script_def wtext_def paren_def ascii_def)
  moreover have "\<forall>b \<in> set [10]. white b" by (simp add: white_def whitespace_def ascii_def)
  ultimately show ?thesis using parse_render [OF sample_proper, of "[10]" sample_os] by simp
qed

end
