(* ===== verification/Spec2Isabelle.thy ===== *)
theory Spec2Isabelle
  imports Prelude CString Spinlock Riscv Kalloc Pagetable Vm Uvm Freewalk Proc Usermem Uart Ring Console Sleeplock Bio Log Commit Logfull Fs File Procfs Sysargs Exec Sysfile Sysproc Virtio Trap Sample Sandbox
    User Grep Tools Practice Lineedit Copyio Pipeq Lazy Shell
begin

text \<open>
  A verification development for the xv6 kernel and user programs of this repository.
\<close>

end
